(* ===== verification/KV_Prelude.thy ===== *)
theory KV_Prelude
  imports Main "HOL-Library.Word"
begin

unbundle bit_operations_syntax

text \<open>
  Shared ground of the development: the fixed-width integers of the C++ sources, little-endian
  byte encodings (what \<open>reinterpret_cast<const char*>\<close> of an integer writes on the x86-64
  and ARM64 hosts the engine targets), the file system and the input streams the persistence
  code uses, the interface of a record codec as a locale, and list and map lemmas used by
  several components.

  A \<open>std::string\<close> is a \<^typ>\<open>string\<close>, a list of bytes (\<^typ>\<open>char\<close> has exactly 256 values).
  \<open>size_t\<close> counts of things that live in memory are \<^typ>\<open>nat\<close>; \<open>uint8_t\<close>, \<open>uint32_t\<close>
  and \<open>uint64_t\<close> data are words of that width.
\<close>

section \<open>Machine integers\<close>

type_synonym u8 = "8 word"
type_synonym u32 = "32 word"
type_synonym u64 = "64 word"

named_theorems codec_simps \<open>how the byte codecs compute\<close>
named_theorems policy_simps \<open>how the eviction policies change what they track\<close>
named_theorems frame_simps \<open>fields an operation leaves alone\<close>

section \<open>Little-endian bytes\<close>

fun le_bytes :: "nat \<Rightarrow> nat \<Rightarrow> string" where
  "le_bytes 0 n = []"
| "le_bytes (Suc k) n = char_of (n mod 256) # le_bytes k (n div 256)"

fun le_val :: "string \<Rightarrow> nat" where
  "le_val [] = 0"
| "le_val (c # cs) = of_char c + 256 * le_val cs"

lemma length_le_bytes [simp]: "length (le_bytes k n) = k"
  by (induction k arbitrary: n) auto

lemma le_val_le_bytes [codec_simps]: "le_val (le_bytes k n) = n mod 256 ^ k"
proof (induction k arbitrary: n)
  case 0
  then show ?case by simp
next
  case (Suc k)
  have "le_val (le_bytes (Suc k) n) = n mod 256 + 256 * ((n div 256) mod 256 ^ k)"
    by (simp add: Suc.IH)
  also have "\<dots> = n mod (256 * 256 ^ k)"
    by (simp add: mod_mult2_eq)
  finally show ?case by simp
qed

lemma le_val_less: "le_val cs < 256 ^ length cs"
proof (induction cs)
  case Nil
  then show ?case by simp
next
  case (Cons c cs)
  have "of_char c < (256::nat)" by simp
  with Cons.IH have "of_char c + 256 * le_val cs < 256 + 256 * (256 ^ length cs - 1)"
    by (intro add_less_le_mono) (auto intro: Suc_leI)
  also have "\<dots> = 256 ^ length (c # cs)"
    by (simp add: right_diff_distrib')
  finally show ?case by simp
qed

lemma le_bytes_le_val: "le_bytes (length cs) (le_val cs) = cs"
proof (induction cs)
  case Nil
  then show ?case by simp
next
  case (Cons c cs)
  have "(of_char c + 256 * le_val cs) div 256 = le_val cs"
    by (simp add: div_mult_self4)
  moreover have "char_of ((of_char c + 256 * le_val cs) mod 256) = c"
    by (simp add: mod_mult_self4)
  ultimately show ?case
    by (simp add: Cons.IH)
qed

definition u32_bytes :: "u32 \<Rightarrow> string" where
  "u32_bytes w = le_bytes 4 (unat w)"

definition u32_of_bytes :: "string \<Rightarrow> u32" where
  "u32_of_bytes cs = word_of_nat (le_val cs)"

definition u64_bytes :: "u64 \<Rightarrow> string" where
  "u64_bytes w = le_bytes 8 (unat w)"

definition u64_of_bytes :: "string \<Rightarrow> u64" where
  "u64_of_bytes cs = word_of_nat (le_val cs)"

lemma length_u32_bytes [simp]: "length (u32_bytes w) = 4"
  by (simp add: u32_bytes_def)

lemma length_u64_bytes [simp]: "length (u64_bytes w) = 8"
  by (simp add: u64_bytes_def)

lemma u32_of_bytes_bytes [simp, codec_simps]: "u32_of_bytes (u32_bytes w) = w"
proof -
  have "unat w < 256 ^ 4"
    using unsigned_less [of w] by simp
  then show ?thesis
    by (simp add: u32_of_bytes_def u32_bytes_def le_val_le_bytes)
qed

lemma u64_of_bytes_bytes [simp, codec_simps]: "u64_of_bytes (u64_bytes w) = w"
proof -
  have "unat w < 256 ^ 8"
    using unsigned_less [of w] by simp
  then show ?thesis
    by (simp add: u64_of_bytes_def u64_bytes_def le_val_le_bytes)
qed

lemma u32_bytes_of_bytes: "length bs = 4 \<Longrightarrow> u32_bytes (u32_of_bytes bs) = bs"
  using le_val_less [of bs] le_bytes_le_val [of bs] by (simp add: u32_bytes_def u32_of_bytes_def unat_of_nat)

lemma u64_bytes_of_bytes: "length bs = 8 \<Longrightarrow> u64_bytes (u64_of_bytes bs) = bs"
  using le_val_less [of bs] le_bytes_le_val [of bs] by (simp add: u64_bytes_def u64_of_bytes_def unat_of_nat)

lemma unat_of_nat_u32: "n < 2 ^ 32 \<Longrightarrow> unat (word_of_nat n :: u32) = n"
  by (simp add: unat_of_nat)

lemma unat_of_nat_u64: "n < 2 ^ 64 \<Longrightarrow> unat (word_of_nat n :: u64) = n"
  by (simp add: unat_of_nat)

section \<open>Files and streams\<close>

text \<open>
  The file system maps a path to the bytes of the file there; \<open>fs_can_open\<close> is the operating
  system's answer to an open for writing (directory missing, permissions). Appends to a log do not
  fail once it is open: \<open>wal.cpp\<close> never looks at a write error. The snapshot writer does, and its
  stream (theory \<open>Snapshot\<close>) can run out of room.
\<close>

record fs =
  fs_files :: "string \<Rightarrow> string option"
  fs_can_open :: "string \<Rightarrow> bool"

definition fs_contents :: "fs \<Rightarrow> string \<Rightarrow> string" where
  "fs_contents f path = (case fs_files f path of None \<Rightarrow> [] | Some bs \<Rightarrow> bs)"

definition fs_write :: "fs \<Rightarrow> string \<Rightarrow> string \<Rightarrow> fs" where
  "fs_write f path bs = f\<lparr>fs_files := (fs_files f)(path := Some bs)\<rparr>"

definition fs_append :: "fs \<Rightarrow> string \<Rightarrow> string \<Rightarrow> fs" where
  "fs_append f path bs = fs_write f path (fs_contents f path @ bs)"

lemma fs_contents_write [simp]:
  "fs_contents (fs_write f path bs) q = (if q = path then bs else fs_contents f q)"
  by (simp add: fs_contents_def fs_write_def)

lemma fs_contents_append [simp]:
  "fs_contents (fs_append f path bs) q =
     (if q = path then fs_contents f path @ bs else fs_contents f q)"
  by (simp add: fs_append_def)

lemma fs_can_open_write [simp]: "fs_can_open (fs_write f path bs) = fs_can_open f"
  by (simp add: fs_write_def)

lemma fs_can_open_append [simp]: "fs_can_open (fs_append f path bs) = fs_can_open f"
  by (simp add: fs_append_def)

lemma fs_files_append:
  "fs_files (fs_append f path bs) q =
     (if q = path then Some (fs_contents f path @ bs) else fs_files f q)"
  by (simp add: fs_append_def fs_write_def)

text \<open>
  An \<open>std::ifstream\<close>: the path it was opened on, the read position and whether the stream is
  still \<open>good()\<close>. A read sees the file as it is when the read happens, so a file that another
  stream appends to grows under the reader. \<open>file_.read(buf, n)\<close> delivers \<open>gcount()\<close> bytes, the
  length of the list here; a short read sets eofbit and failbit, and a stream that is not good
  delivers nothing.
\<close>

record istream =
  is_path :: string
  is_pos :: nat
  is_good :: bool

definition is_open :: "string \<Rightarrow> istream" where
  "is_open path = \<lparr>is_path = path, is_pos = 0, is_good = True\<rparr>"

definition is_rest :: "fs \<Rightarrow> istream \<Rightarrow> string" where
  "is_rest f s = drop (is_pos s) (fs_contents f (is_path s))"

definition is_read :: "fs \<Rightarrow> nat \<Rightarrow> istream \<Rightarrow> string \<times> istream" where
  "is_read f n s =
     (if is_good s
      then (take n (is_rest f s),
            s\<lparr>is_pos := is_pos s + min n (length (is_rest f s)),
              is_good := n \<le> length (is_rest f s)\<rparr>)
      else ([], s))"

definition is_at :: "fs \<Rightarrow> istream \<Rightarrow> string \<Rightarrow> bool" where
  "is_at f s bs \<longleftrightarrow> is_good s \<and> is_rest f s = bs"

lemma is_at_open: "is_at f (is_open path) (fs_contents f path)"
  by (simp add: is_at_def is_open_def is_rest_def)

lemma is_rest_advance:
  "is_rest f (s\<lparr>is_pos := is_pos s + n, is_good := g\<rparr>) = drop n (is_rest f s)"
  by (simp add: is_rest_def add.commute)

lemma is_read_full:
  assumes "is_at f s (bs @ rest)" "n = length bs"
  obtains s' where "is_read f n s = (bs, s')" "is_at f s' rest"
    "is_path s' = is_path s" "is_pos s' = is_pos s + n"
proof
  let ?s' = "s\<lparr>is_pos := is_pos s + n, is_good := True\<rparr>"
  show "is_read f n s = (bs, ?s')"
    using assms by (simp add: is_read_def is_at_def)
  show "is_at f ?s' rest"
    using assms by (simp add: is_at_def is_rest_advance)
qed simp_all

lemma is_read_short:
  assumes "is_at f s bs" "length bs < n"
  shows "length (fst (is_read f n s)) < n" "\<not> is_good (snd (is_read f n s))"
  using assms by (simp_all add: is_read_def is_at_def)

lemma is_read_path [simp]: "is_path (snd (is_read f n s)) = is_path s"
  by (simp add: is_read_def)

lemma is_read_pos_le: "is_pos s \<le> is_pos (snd (is_read f n s))"
  by (simp add: is_read_def)

section \<open>Chained reads\<close>

text \<open>
  The readers of the sources are chains of \<open>file_.read(...)\<close> calls, each followed by a
  \<open>gcount()\<close> test that returns false. \<open>read_exact\<close> is one such pair and \<open>rd_bind\<close> the early
  return. \<open>reads f m bs x\<close> says what a chain \<open>m\<close> does with an encoding \<open>bs\<close> of \<open>x\<close>: it delivers
  \<open>x\<close> and stops right behind \<open>bs\<close>, and it fails on every proper prefix of \<open>bs\<close>.
\<close>

definition read_exact :: "fs \<Rightarrow> nat \<Rightarrow> istream \<Rightarrow> string option \<times> istream" where
  "read_exact f n s = (case is_read f n s of (bs, s') \<Rightarrow> (if length bs = n then Some bs else None, s'))"

definition rd_return :: "'a \<Rightarrow> istream \<Rightarrow> 'a option \<times> istream" where
  "rd_return x s = (Some x, s)"

definition rd_bind :: "(istream \<Rightarrow> 'a option \<times> istream) \<Rightarrow> ('a \<Rightarrow> istream \<Rightarrow> 'b option \<times> istream) \<Rightarrow>
    istream \<Rightarrow> 'b option \<times> istream" where
  "rd_bind m k s = (case m s of (None, s') \<Rightarrow> (None, s') | (Some x, s') \<Rightarrow> k x s')"

definition reads :: "fs \<Rightarrow> (istream \<Rightarrow> 'a option \<times> istream) \<Rightarrow> string \<Rightarrow> 'a \<Rightarrow> bool" where
  "reads f m bs x \<longleftrightarrow>
     (\<forall>s rest. is_at f s (bs @ rest) \<longrightarrow>
        (\<exists>s'. m s = (Some x, s') \<and> is_at f s' rest \<and> is_path s' = is_path s \<and>
              is_pos s' = is_pos s + length bs)) \<and>
     (\<forall>s n. n < length bs \<longrightarrow> is_at f s (take n bs) \<longrightarrow> fst (m s) = None)"

lemma reads_return: "reads f (rd_return x) [] x"
  by (simp add: reads_def rd_return_def)

lemma reads_exact: "length bs = n \<Longrightarrow> reads f (read_exact f n) bs bs"
  unfolding reads_def
proof (intro conjI allI impI)
  fix s rest assume "length bs = n" "is_at f s (bs @ rest)"
  then obtain s' where "is_read f n s = (bs, s')" "is_at f s' rest" "is_path s' = is_path s"
      "is_pos s' = is_pos s + n"
    by (metis is_read_full)
  with \<open>length bs = n\<close> show "\<exists>s'. read_exact f n s = (Some bs, s') \<and> is_at f s' rest \<and>
      is_path s' = is_path s \<and> is_pos s' = is_pos s + length bs"
    by (simp add: read_exact_def)
next
  fix s m assume "length bs = n" "m < length bs" "is_at f s (take m bs)"
  then have "length (fst (is_read f n s)) < n"
    by (intro is_read_short(1)) auto
  then show "fst (read_exact f n s) = None"
    by (simp add: read_exact_def case_prod_unfold)
qed

lemma reads_bind:
  assumes "reads f m bs x" "reads f (k x) cs y"
  shows "reads f (rd_bind m k) (bs @ cs) y"
  unfolding reads_def
proof (intro conjI allI impI)
  fix s rest assume "is_at f s ((bs @ cs) @ rest)"
  then obtain s1 where s1: "m s = (Some x, s1)" "is_at f s1 (cs @ rest)" "is_path s1 = is_path s"
      "is_pos s1 = is_pos s + length bs"
    using assms(1) unfolding reads_def by fastforce
  then obtain s2 where "k x s1 = (Some y, s2)" "is_at f s2 rest" "is_path s2 = is_path s1"
      "is_pos s2 = is_pos s1 + length cs"
    using assms(2) unfolding reads_def by blast
  with s1 show "\<exists>s'. rd_bind m k s = (Some y, s') \<and> is_at f s' rest \<and> is_path s' = is_path s \<and>
      is_pos s' = is_pos s + length (bs @ cs)"
    by (simp add: rd_bind_def)
next
  fix s n assume n: "n < length (bs @ cs)" "is_at f s (take n (bs @ cs))"
  show "fst (rd_bind m k s) = None"
  proof (cases "n < length bs")
    case True
    with n assms(1) have "fst (m s) = None"
      unfolding reads_def by simp
    then show ?thesis
      by (auto simp: rd_bind_def split: prod.splits option.splits)
  next
    case False
    with n(2) have "is_at f s (bs @ take (n - length bs) cs)" by simp
    then obtain s1 where s1: "m s = (Some x, s1)" "is_at f s1 (take (n - length bs) cs)"
      using assms(1) unfolding reads_def by blast
    moreover have "n - length bs < length cs"
      using n(1) False by simp
    ultimately have "fst (k x s1) = None"
      using assms(2) unfolding reads_def by blast
    with s1 show ?thesis by (simp add: rd_bind_def)
  qed
qed

section \<open>The interface of a record codec\<close>

text \<open>
  What a reader of a record format owes its client: on the bytes of one record followed by
  anything it returns that record and stops right after it, and on a proper prefix of the bytes
  of a record it reports failure. The reader is a stream operation, so it also gets the file
  system; \<open>ok\<close> are the records the format can represent.
\<close>

locale record_codec =
  fixes enc :: "'a \<Rightarrow> string"
    and rd :: "fs \<Rightarrow> istream \<Rightarrow> 'a option \<times> istream"
    and ok :: "'a \<Rightarrow> bool"
  assumes rd_enc: "ok x \<Longrightarrow> is_at f s (enc x @ rest) \<Longrightarrow>
        \<exists>s'. rd f s = (Some x, s') \<and> is_at f s' rest \<and> is_path s' = is_path s
             \<and> is_pos s' = is_pos s + length (enc x)"
    and rd_torn: "ok x \<Longrightarrow> n < length (enc x) \<Longrightarrow> is_at f s (take n (enc x)) \<Longrightarrow>
        \<exists>s'. rd f s = (None, s')"
begin

text \<open>The first record of a torn file of records is read if it is complete and missed otherwise.\<close>

lemma rd_first:
  assumes "ok x" "is_at f s (take n (concat (map enc (x # xs))))" "length (enc x) \<le> n"
  obtains s' where "rd f s = (Some x, s')" "is_path s' = is_path s"
    "is_at f s' (take (n - length (enc x)) (concat (map enc xs)))"
    "is_pos s' = is_pos s + length (enc x)"
proof -
  have "is_at f s (enc x @ take (n - length (enc x)) (concat (map enc xs)))"
    using assms(2,3) by simp
  from rd_enc [OF assms(1) this] that show thesis by blast
qed

lemma rd_first_torn:
  assumes "ok x" "is_at f s (take n (concat (map enc (x # xs))))" "n < length (enc x)"
  shows "fst (rd f s) = None"
proof -
  have "is_at f s (take n (enc x))" using assms(2,3) by simp
  from rd_torn [OF assms(1,3) this] show ?thesis by auto
qed

end

text \<open>
  How much of a sequence of records survives when only the first \<open>n\<close> bytes of their encodings
  do: the records that lie completely inside those bytes.
\<close>

fun whole_records :: "('a \<Rightarrow> string) \<Rightarrow> nat \<Rightarrow> 'a list \<Rightarrow> 'a list" where
  "whole_records e n [] = []"
| "whole_records e n (x # xs) =
     (if length (e x) \<le> n then x # whole_records e (n - length (e x)) xs else [])"

lemma concat_map_split [codec_simps]:
  "concat (map e (take m xs)) @ concat (map e (drop m xs)) = concat (map e xs)"
  by (simp flip: concat_append map_append)

lemma whole_records_take: "\<exists>m. whole_records e n xs = take m xs"
proof (induction xs arbitrary: n)
  case Nil
  then show ?case by simp
next
  case (Cons x xs)
  show ?case
  proof (cases "length (e x) \<le> n")
    case True
    from Cons.IH [of "n - length (e x)"] obtain m
      where "whole_records e (n - length (e x)) xs = take m xs" by blast
    with True have "whole_records e n (x # xs) = take (Suc m) (x # xs)" by simp
    then show ?thesis by blast
  next
    case False
    then have "whole_records e n (x # xs) = take 0 (x # xs)" by simp
    then show ?thesis by blast
  qed
qed

lemma whole_records_all:
  "length (concat (map e xs)) \<le> n \<Longrightarrow> whole_records e n xs = xs"
  by (induction xs arbitrary: n) auto

section \<open>Inevitability\<close>

text \<open>Every run of \<open>step\<close> from a state, however it is scheduled, reaches a state with \<open>P\<close>.\<close>

inductive inevitable :: "('s \<Rightarrow> 's \<Rightarrow> bool) \<Rightarrow> ('s \<Rightarrow> bool) \<Rightarrow> 's \<Rightarrow> bool" for step P where
  inevitable_now: "P s \<Longrightarrow> inevitable step P s"
| inevitable_later: "step s s'' \<Longrightarrow> (\<And>s'. step s s' \<Longrightarrow> inevitable step P s') \<Longrightarrow> inevitable step P s"

text \<open>The rule to prove it: until \<open>P\<close> holds some step is possible, and every step keeps the invariant
  and decreases the measure.\<close>

lemma inevitable_measure:
  fixes m :: "'s \<Rightarrow> nat"
  assumes "I s"
    and progress: "\<And>s. I s \<Longrightarrow> \<not> P s \<Longrightarrow> \<exists>s'. step s s'"
    and decrease: "\<And>s s'. I s \<Longrightarrow> \<not> P s \<Longrightarrow> step s s' \<Longrightarrow> P s' \<or> I s' \<and> m s' < m s"
  shows "inevitable step P s"
  using assms(1)
proof (induction "m s" arbitrary: s rule: less_induct)
  case less
  show ?case
  proof (cases "P s")
    case False
    then obtain s'' where "step s s''" using progress [OF less.prems] by blast
    then show ?thesis
    proof (rule inevitable_later)
      fix s' assume "step s s'"
      from decrease [OF less.prems False this] less.hyps show "inevitable step P s'"
        by (blast intro: inevitable_now)
    qed
  qed (rule inevitable_now)
qed

end
