(* ===== verification/KV_Buckets.thy ===== *)
theory KV_Buckets
  imports KV_Prelude "HOL-Library.Multiset"
begin

text \<open>
  The storage layer of \<open>HashTable\<close> (\<open>engine/include/hash_table.h\<close>,
  \<open>engine/src/hash_table.cpp\<close>): value entries, key/value pairs with their cached hash, the hash
  function, the chains of a bucket and \<open>rehash\<close>. The bucket vector is a list of chains; a chain
  (\<open>std::list<KeyValuePair>\<close>) is a list.

  The lemmas relate the buckets to the finite map they store. They work on the multiset of all
  pairs: an operation on one chain adds, drops or replaces one pair, and rehashing keeps them all.
\<close>

section \<open>Entries\<close>

record value_entry =
  ve_value :: string
  ve_access_count :: u64
  ve_last_access_ns :: u64
  ve_expiry_ns :: u64

text \<open>The constructor \<open>ValueEntry(val, ttl_ns)\<close>.\<close>

definition value_entry_new :: "string \<Rightarrow> u64 \<Rightarrow> value_entry" where
  "value_entry_new val ttl_ns =
     \<lparr>ve_value = val, ve_access_count = 0, ve_last_access_ns = 0, ve_expiry_ns = ttl_ns\<rparr>"

record key_value_pair =
  kv_key :: string
  kv_value :: value_entry
  kv_hash :: u64

type_synonym chain = "key_value_pair list"

section \<open>The hash function\<close>

definition ht_hash_step :: "u64 \<Rightarrow> char \<Rightarrow> u64" where
  "ht_hash_step h c = (h XOR word_of_nat (of_char c)) * 0x100000001b3"

definition ht_hash_mix :: "u64 \<Rightarrow> u64" where
  "ht_hash_mix h =
     (let h = h XOR drop_bit 33 h;
          h = h * 0xff51afd7ed558ccd;
          h = h XOR drop_bit 33 h;
          h = h * 0xc4ceb9fe1a85ec53
      in h XOR drop_bit 33 h)"

definition ht_hash :: "string \<Rightarrow> u64" where
  "ht_hash key = ht_hash_mix (foldl ht_hash_step 0x9e3779b97f4a7c15 key)"

section \<open>Chains and buckets\<close>

definition bucket_idx :: "u64 \<Rightarrow> nat \<Rightarrow> nat" where
  "bucket_idx h n = unat h mod n"

definition chain_find :: "string \<Rightarrow> chain \<Rightarrow> key_value_pair option" where
  "chain_find key c = find (\<lambda>kv. kv_key kv = key) c"

text \<open>Assigning to, and erasing, the first pair with the key.\<close>

fun chain_update :: "string \<Rightarrow> (key_value_pair \<Rightarrow> key_value_pair) \<Rightarrow> chain \<Rightarrow> chain" where
  "chain_update key g [] = []"
| "chain_update key g (kv # c) = (if kv_key kv = key then g kv # c else kv # chain_update key g c)"

fun chain_erase :: "string \<Rightarrow> chain \<Rightarrow> chain" where
  "chain_erase key [] = []"
| "chain_erase key (kv # c) = (if kv_key kv = key then c else kv # chain_erase key c)"

definition rehash_push :: "nat \<Rightarrow> chain list \<Rightarrow> key_value_pair \<Rightarrow> chain list" where
  "rehash_push new_capacity bs kv =
     (let i = bucket_idx (kv_hash kv) new_capacity in bs[i := bs ! i @ [kv]])"

definition rehash :: "nat \<Rightarrow> chain list \<Rightarrow> chain list" where
  "rehash new_capacity bs =
     foldl (foldl (rehash_push new_capacity)) (replicate new_capacity []) bs"

section \<open>The map a bucket vector stores\<close>

definition kv_pair :: "key_value_pair \<Rightarrow> string \<times> value_entry" where
  "kv_pair kv = (kv_key kv, kv_value kv)"

definition pairs_map :: "key_value_pair list \<Rightarrow> string \<Rightarrow> value_entry option" where
  "pairs_map kvs = map_of (map kv_pair kvs)"

definition buckets_map :: "chain list \<Rightarrow> string \<Rightarrow> value_entry option" where
  "buckets_map bs = pairs_map (concat bs)"

definition kv_placed :: "nat \<Rightarrow> nat \<Rightarrow> key_value_pair \<Rightarrow> bool" where
  "kv_placed n i kv \<longleftrightarrow> kv_hash kv = ht_hash (kv_key kv) \<and> bucket_idx (kv_hash kv) n = i"

definition buckets_placed :: "chain list \<Rightarrow> bool" where
  "buckets_placed bs \<longleftrightarrow> (\<forall>i < length bs. list_all (kv_placed (length bs) i) (bs ! i))"

definition buckets_wf :: "chain list \<Rightarrow> bool" where
  "buckets_wf bs \<longleftrightarrow> bs \<noteq> [] \<and> buckets_placed bs \<and> distinct (map kv_key (concat bs))"

lemma bucket_idx_less [simp]: "0 < n \<Longrightarrow> bucket_idx h n < n"
  by (simp add: bucket_idx_def)

lemma kv_pair_sel [simp]: "fst (kv_pair kv) = kv_key kv" "snd (kv_pair kv) = kv_value kv"
  by (simp_all add: kv_pair_def)

lemma fst_kv_pair [simp]: "fst \<circ> kv_pair = kv_key"
  by (simp add: fun_eq_iff)

lemma pairs_map_Cons [simp]: "pairs_map (kv # kvs) = (pairs_map kvs)(kv_key kv \<mapsto> kv_value kv)"
  by (simp add: pairs_map_def kv_pair_def)

lemma pairs_map_Nil [simp]: "pairs_map [] = (\<lambda>_. None)"
  by (simp add: pairs_map_def)

lemma pairs_map_None: "pairs_map kvs k = None \<longleftrightarrow> k \<notin> kv_key ` set kvs"
  by (induction kvs) auto

lemma dom_pairs_map: "dom (pairs_map kvs) = kv_key ` set kvs"
  by (rule set_eqI) (simp only: domIff pairs_map_None not_not)

lemma in_set_concat_nth: "kv \<in> set (concat bs) \<longleftrightarrow> (\<exists>j < length bs. kv \<in> set (bs ! j))"
  by (force simp: set_conv_nth [of bs])

lemma pairs_map_mset:
  assumes "mset kvs = mset kvs'" "distinct (map kv_key kvs)"
  shows "pairs_map kvs = pairs_map kvs'"
proof -
  have "mset (map kv_key kvs) = mset (map kv_key kvs')"
    using assms(1) by (simp only: mset_map)
  then have "distinct (map kv_key kvs')"
    using assms(2) mset_eq_imp_distinct_iff by blast
  moreover have "set kvs = set kvs'"
    using assms(1) by (rule mset_eq_setD)
  ultimately show ?thesis
    unfolding pairs_map_def using assms(2) by (subst map_of_inject_set) simp_all
qed

lemma pairs_map_in:
  assumes "distinct (map kv_key kvs)"
  shows "pairs_map kvs k = Some v \<longleftrightarrow> (\<exists>kv \<in> set kvs. kv_key kv = k \<and> kv_value kv = v)"
  using assms by (auto simp: pairs_map_def kv_pair_def map_of_eq_Some_iff)

lemma distinct_keys_mset:
  "mset kvs = mset kvs' \<Longrightarrow> distinct (map kv_key kvs) \<longleftrightarrow> distinct (map kv_key kvs')"
  by (rule mset_eq_imp_distinct_iff) (simp only: mset_map)

subsection \<open>Changing one chain\<close>

lemma mset_concat_update:
  "i < length bs \<Longrightarrow> mset (concat (bs[i := c])) + mset (bs ! i) = mset (concat bs) + mset c"
proof (induction bs arbitrary: i)
  case (Cons b bs)
  then show ?case by (cases i) (auto simp: ac_simps)
qed simp

lemma mset_bucket_append:
  assumes "i < length bs"
  shows "mset (concat (bs[i := bs ! i @ [kv]])) = mset (kv # concat bs)"
  using mset_concat_update [OF assms, of "bs ! i @ [kv]"] by simp

lemma chain_find_split:
  assumes "chain_find key c = Some kv"
  obtains xs ys where "c = xs @ kv # ys" "kv_key kv = key" "chain_erase key c = xs @ ys"
    "\<forall>g. chain_update key g c = xs @ g kv # ys"
proof -
  have "\<exists>xs ys. c = xs @ kv # ys \<and> kv_key kv = key \<and> chain_erase key c = xs @ ys \<and>
      (\<forall>g. chain_update key g c = xs @ g kv # ys)"
    using assms
  proof (induction c)
    case (Cons a c)
    show ?case
    proof (cases "kv_key a = key")
      case True
      with Cons.prems have "a = kv" by (simp add: chain_find_def)
      with True show ?thesis by (rule_tac x = "[]" in exI, rule_tac x = c in exI) simp
    next
      case False
      with Cons obtain xs ys where "c = xs @ kv # ys \<and> kv_key kv = key \<and>
          chain_erase key c = xs @ ys \<and> (\<forall>g. chain_update key g c = xs @ g kv # ys)"
        by (auto simp: chain_find_def)
      with False show ?thesis by (rule_tac x = "a # xs" in exI, rule_tac x = ys in exI) simp
    qed
  qed (simp add: chain_find_def)
  then show thesis using that by blast
qed

lemma chain_find_None: "chain_find key c = None \<longleftrightarrow> key \<notin> kv_key ` set c"
  by (auto simp: chain_find_def find_None_iff)

text \<open>The pairs around the one an operation finds: the multiset of the others stays.\<close>

lemma bucket_focus:
  assumes "i < length bs" "chain_find key (bs ! i) = Some kv"
  obtains rest where "mset (concat bs) = mset (kv # rest)" "kv_key kv = key"
    "mset (concat (bs[i := chain_erase key (bs ! i)])) = mset rest"
    "\<And>g. mset (concat (bs[i := chain_update key g (bs ! i)])) = mset (g kv # rest)"
    "kv \<in> set (bs ! i)" "set (chain_erase key (bs ! i)) \<subseteq> set (bs ! i)"
    "\<And>g. set (chain_update key g (bs ! i)) \<subseteq> insert (g kv) (set (bs ! i))"
proof -
  obtain xs ys where c: "bs ! i = xs @ kv # ys" "kv_key kv = key"
      "chain_erase key (bs ! i) = xs @ ys" "\<forall>g. chain_update key g (bs ! i) = xs @ g kv # ys"
    using chain_find_split [OF assms(2)] by blast
  define rest where "rest = concat (bs[i := chain_erase key (bs ! i)])"
  have all: "mset (concat bs) = mset (kv # rest)"
    using mset_concat_update [OF assms(1), of "xs @ ys"] unfolding rest_def c(3) by (simp add: c(1))
  have upd: "mset (concat (bs[i := chain_update key g (bs ! i)])) = mset (g kv # rest)" for g
    using mset_concat_update [OF assms(1), of "xs @ g kv # ys"] unfolding c(4) [rule_format] by (simp add: c(1) all)
  show thesis
    by (rule that [OF all c(2) _ upd]) (auto simp: c(3) c(4) rest_def, simp_all add: c(1))
qed

lemma buckets_placedD:
  assumes "buckets_placed bs" "j < length bs" "kv \<in> set (bs ! j)"
  shows "kv_hash kv = ht_hash (kv_key kv)" "bucket_idx (ht_hash (kv_key kv)) (length bs) = j"
  using assms by (force simp: buckets_placed_def list_all_iff kv_placed_def)+

lemma buckets_placed_update:
  assumes "buckets_placed bs" "\<And>kv. kv \<in> set c \<Longrightarrow> kv \<in> set (bs ! i) \<or> kv_placed (length bs) i kv"
  shows "buckets_placed (bs[i := c])"
proof -
  have "list_all (kv_placed (length bs) j) (bs[i := c] ! j)" if "j < length bs" for j
    using that assms by (cases "i = j") (auto simp: buckets_placed_def list_all_iff)
  then show ?thesis by (simp add: buckets_placed_def)
qed

subsection \<open>Looking up, adding, replacing and dropping a key\<close>

lemma buckets_find:
  assumes "buckets_wf bs"
  shows "map_option kv_value (chain_find key (bs ! bucket_idx (ht_hash key) (length bs))) =
     buckets_map bs key"
proof -
  let ?i = "bucket_idx (ht_hash key) (length bs)"
  have n: "?i < length bs" using assms by (auto simp: buckets_wf_def)
  have d: "distinct (map kv_key (concat bs))" using assms by (simp add: buckets_wf_def)
  show ?thesis
  proof (cases "chain_find key (bs ! ?i)")
    case None
    have "key \<notin> kv_key ` set (concat bs)"
    proof
      assume "key \<in> kv_key ` set (concat bs)"
      then obtain j kv where "j < length bs" "kv \<in> set (bs ! j)" "kv_key kv = key"
        using in_set_concat_nth [of _ bs] by (auto simp del: set_concat)
      moreover from this have "j = ?i"
        using buckets_placedD(2) [of bs j kv] assms by (simp add: buckets_wf_def)
      ultimately have "kv \<in> set (bs ! ?i)" by simp
      with None \<open>kv_key kv = key\<close> show False by (auto simp: chain_find_None)
    qed
    then have "buckets_map bs key = None" by (simp only: buckets_map_def pairs_map_None simp_thms)
    with None show ?thesis by simp
  next
    case (Some kv)
    then obtain rest where "mset (concat bs) = mset (kv # rest)" "kv_key kv = key"
      by (rule bucket_focus [OF n])
    with pairs_map_mset [OF _ d, of "kv # rest"] Some show ?thesis
      by (simp add: buckets_map_def)
  qed
qed

lemma buckets_find_Some:
  assumes "buckets_wf bs" "buckets_map bs key = Some v"
  obtains kv where "chain_find key (bs ! bucket_idx (ht_hash key) (length bs)) = Some kv"
    "kv_value kv = v"
  using buckets_find [OF assms(1), of key] assms(2) by (auto simp: map_option_eq_Some)

lemma buckets_find_None:
  assumes "buckets_wf bs" "buckets_map bs key = None"
  shows "chain_find key (bs ! bucket_idx (ht_hash key) (length bs)) = None"
  using buckets_find [OF assms(1), of key] assms(2) by simp

lemma buckets_append:
  assumes "buckets_wf bs" "buckets_map bs key = None" "kv_key kv = key" "kv_hash kv = ht_hash key"
    and "i = bucket_idx (ht_hash key) (length bs)"
  shows "buckets_wf (bs[i := bs ! i @ [kv]])"
    "buckets_map (bs[i := bs ! i @ [kv]]) = (buckets_map bs)(key \<mapsto> kv_value kv)"
    "length (concat (bs[i := bs ! i @ [kv]])) = Suc (length (concat bs))"
proof -
  have n: "i < length bs" using assms(1,5) by (auto simp: buckets_wf_def)
  note m = mset_bucket_append [OF n, of kv]
  have new: "kv_key kv \<notin> kv_key ` set (concat bs)"
    using assms(2,3) by (simp add: buckets_map_def pairs_map_None)
  then have d: "distinct (map kv_key (kv # concat bs))"
    using assms(1) by (auto simp: buckets_wf_def)
  then have d': "distinct (map kv_key (concat (bs[i := bs ! i @ [kv]])))"
    using distinct_keys_mset [OF m] by blast
  have "buckets_placed (bs[i := bs ! i @ [kv]])"
    using assms by (intro buckets_placed_update) (auto simp: buckets_wf_def kv_placed_def)
  with d' assms(1) show "buckets_wf (bs[i := bs ! i @ [kv]])"
    by (simp add: buckets_wf_def)
  show "buckets_map (bs[i := bs ! i @ [kv]]) = (buckets_map bs)(key \<mapsto> kv_value kv)"
    using pairs_map_mset [OF m d'] assms(3) by (simp add: buckets_map_def)
  show "length (concat (bs[i := bs ! i @ [kv]])) = Suc (length (concat bs))"
    using mset_eq_length [OF m] by simp
qed

lemma buckets_update:
  assumes "buckets_wf bs" "i = bucket_idx (ht_hash key) (length bs)"
    and "chain_find key (bs ! i) = Some kv"
    and "kv_key (g kv) = key" "kv_hash (g kv) = ht_hash key"
  shows "buckets_wf (bs[i := chain_update key g (bs ! i)])"
    "buckets_map (bs[i := chain_update key g (bs ! i)]) = (buckets_map bs)(key \<mapsto> kv_value (g kv))"
    "length (concat (bs[i := chain_update key g (bs ! i)])) = length (concat bs)"
proof -
  have n: "i < length bs" using assms(1,2) by (auto simp: buckets_wf_def)
  obtain rest where m: "mset (concat bs) = mset (kv # rest)" "kv_key kv = key"
      "mset (concat (bs[i := chain_update key g (bs ! i)])) = mset (g kv # rest)"
    and sub: "set (chain_update key g (bs ! i)) \<subseteq> insert (g kv) (set (bs ! i))"
    by (rule bucket_focus [OF n assms(3)]) blast
  have d: "distinct (map kv_key (concat bs))" using assms(1) by (simp add: buckets_wf_def)
  then have "distinct (map kv_key (g kv # rest))"
    using distinct_keys_mset [OF m(1)] m(2) assms(4) by simp
  then have d': "distinct (map kv_key (concat (bs[i := chain_update key g (bs ! i)])))"
    using distinct_keys_mset [OF m(3)] by blast
  have "buckets_placed (bs[i := chain_update key g (bs ! i)])"
    using assms sub by (intro buckets_placed_update) (auto simp: buckets_wf_def kv_placed_def)
  with d' assms(1) show "buckets_wf (bs[i := chain_update key g (bs ! i)])"
    by (simp add: buckets_wf_def)
  show "buckets_map (bs[i := chain_update key g (bs ! i)]) = (buckets_map bs)(key \<mapsto> kv_value (g kv))"
    using pairs_map_mset [OF m(3) d'] pairs_map_mset [OF m(1) d] m(2) assms(4)
    by (simp add: buckets_map_def)
  show "length (concat (bs[i := chain_update key g (bs ! i)])) = length (concat bs)"
    using mset_eq_length [OF m(3)] mset_eq_length [OF m(1)] by simp
qed

lemma buckets_erase:
  assumes "buckets_wf bs" "i = bucket_idx (ht_hash key) (length bs)"
    and "chain_find key (bs ! i) = Some kv"
  shows "buckets_wf (bs[i := chain_erase key (bs ! i)])"
    "buckets_map (bs[i := chain_erase key (bs ! i)]) = (buckets_map bs)(key := None)"
    "length (concat bs) = Suc (length (concat (bs[i := chain_erase key (bs ! i)])))"
proof -
  have n: "i < length bs" using assms(1,2) by (auto simp: buckets_wf_def)
  obtain rest where m: "mset (concat bs) = mset (kv # rest)" "kv_key kv = key"
      "mset (concat (bs[i := chain_erase key (bs ! i)])) = mset rest"
    and sub: "set (chain_erase key (bs ! i)) \<subseteq> set (bs ! i)"
    by (rule bucket_focus [OF n assms(3)]) blast
  have d: "distinct (map kv_key (concat bs))" using assms(1) by (simp add: buckets_wf_def)
  then have r: "distinct (map kv_key (kv # rest))"
    using distinct_keys_mset [OF m(1)] by blast
  then have d': "distinct (map kv_key (concat (bs[i := chain_erase key (bs ! i)])))"
    using distinct_keys_mset [OF m(3)] by simp
  have "buckets_placed (bs[i := chain_erase key (bs ! i)])"
    using assms sub by (intro buckets_placed_update) (auto simp: buckets_wf_def)
  with d' assms(1) show "buckets_wf (bs[i := chain_erase key (bs ! i)])"
    by (simp add: buckets_wf_def)
  have "pairs_map rest key = None"
    using r m(2) by (simp add: pairs_map_None)
  then show "buckets_map (bs[i := chain_erase key (bs ! i)]) = (buckets_map bs)(key := None)"
    using pairs_map_mset [OF m(3) d'] pairs_map_mset [OF m(1) d] m(2)
    by (auto simp: buckets_map_def fun_eq_iff)
  show "length (concat bs) = Suc (length (concat (bs[i := chain_erase key (bs ! i)])))"
    using mset_eq_length [OF m(3)] mset_eq_length [OF m(1)] by simp
qed

subsection \<open>Rehashing\<close>

lemma rehash_concat: "rehash n bs = foldl (rehash_push n) (replicate n []) (concat bs)"
proof -
  have "foldl (foldl h) a bs = foldl h a (concat bs)" for h :: "'a \<Rightarrow> 'b \<Rightarrow> 'a" and a bs
    by (induction bs arbitrary: a) auto
  then show ?thesis by (simp add: rehash_def)
qed

lemma rehash_push_fold:
  assumes "0 < n" "length acc = n" "buckets_placed acc"
    and "\<And>kv. kv \<in> set kvs \<Longrightarrow> kv_hash kv = ht_hash (kv_key kv)"
  shows "length (foldl (rehash_push n) acc kvs) = n \<and> buckets_placed (foldl (rehash_push n) acc kvs) \<and>
     mset (concat (foldl (rehash_push n) acc kvs)) = mset (concat acc) + mset kvs"
  using assms(2-4)
proof (induction kvs arbitrary: acc)
  case (Cons kv kvs)
  let ?i = "bucket_idx (kv_hash kv) n"
  have i: "?i < length acc" using assms(1) Cons.prems(1) by simp
  have "buckets_placed (acc[?i := acc ! ?i @ [kv]])"
    using Cons.prems by (intro buckets_placed_update) (auto simp: kv_placed_def)
  with Cons.IH [of "rehash_push n acc kv"] Cons.prems mset_bucket_append [OF i, of kv]
  show ?case by (simp add: rehash_push_def Let_def)
qed simp

lemma rehash_wf:
  assumes "buckets_wf bs" "0 < n"
  shows "buckets_wf (rehash n bs)" "buckets_map (rehash n bs) = buckets_map bs"
    "length (rehash n bs) = n" "length (concat (rehash n bs)) = length (concat bs)"
proof -
  have d: "distinct (map kv_key (concat bs))" using assms(1) by (simp add: buckets_wf_def)
  have h: "kv_hash kv = ht_hash (kv_key kv)" if "kv \<in> set (concat bs)" for kv
    using that assms(1) buckets_placedD(1) [of bs _ kv] unfolding in_set_concat_nth
    by (auto simp: buckets_wf_def)
  have "buckets_placed (replicate n [])" by (simp add: buckets_placed_def)
  then have *: "length (rehash n bs) = n" "buckets_placed (rehash n bs)"
      "mset (concat (rehash n bs)) = mset (concat bs)"
    using rehash_push_fold [of n "replicate n []" "concat bs"] assms(2) h
    by (simp_all add: rehash_concat)
  show "length (rehash n bs) = n" by (rule *(1))
  have d': "distinct (map kv_key (concat (rehash n bs)))"
    using distinct_keys_mset [OF *(3)] d by blast
  then show "buckets_wf (rehash n bs)"
    using * assms(2) by (auto simp: buckets_wf_def)
  show "buckets_map (rehash n bs) = buckets_map bs"
    using pairs_map_mset [OF *(3) d'] by (simp add: buckets_map_def)
  show "length (concat (rehash n bs)) = length (concat bs)"
    using mset_eq_length [OF *(3)] .
qed

lemma buckets_map_card:
  assumes "buckets_wf bs"
  shows "finite (dom (buckets_map bs))" "card (dom (buckets_map bs)) = length (concat bs)"
proof -
  have d: "distinct (map kv_key (concat bs))" using assms by (simp add: buckets_wf_def)
  show "finite (dom (buckets_map bs))" by (simp add: buckets_map_def dom_pairs_map)
  have "card (set (map kv_key (concat bs))) = length (concat bs)"
    using distinct_card [OF d] by simp
  then show "card (dom (buckets_map bs)) = length (concat bs)"
    by (simp add: buckets_map_def dom_pairs_map)
qed

end
