(* ===== verification/Eviction_Policy.thy ===== *)
theory Eviction_Policy
  imports KV_Prelude
begin

text \<open>
  The interface between the hash table and its eviction policies, as a locale. A policy tracks a
  set of keys; for each it knows the size of the stored value and a stamp (the last access time
  for LRU, the access count for LFU). \<open>tracked\<close> is that abstraction, \<open>mem\<close> the running memory
  counter, \<open>invar\<close> the policy's own representation invariant. \<open>get_eviction_candidate\<close> returns a
  key and may change the policy's state (LFU pops its heap); between that call and the
  \<open>on_delete\<close> of the victim the invariant need not hold, so the law is about the two together.
  The empty string doubles as "no candidate", which is why a tracked empty key is a special case
  in two of the laws.
\<close>

section \<open>Total size of what a policy tracks\<close>

definition tracked_size :: "(string \<Rightarrow> (nat \<times> u64) option) \<Rightarrow> nat" where
  "tracked_size m = (\<Sum>k\<in>dom m. fst (the (m k)))"

lemma tracked_size_empty [simp]: "tracked_size (\<lambda>_. None) = 0"
  by (simp add: tracked_size_def)

lemma tracked_size_insert:
  assumes "finite (dom m)" "m k = None"
  shows "tracked_size (m(k \<mapsto> (sz, st))) = tracked_size m + sz"
proof -
  have "k \<notin> dom m"
    using assms(2) by auto
  then have "(\<Sum>j\<in>dom m. fst (the ((m(k \<mapsto> (sz, st))) j))) = (\<Sum>j\<in>dom m. fst (the (m j)))"
    by (intro sum.cong) auto
  with assms(1) \<open>k \<notin> dom m\<close> show ?thesis
    by (simp add: tracked_size_def)
qed

lemma tracked_size_remove:
  assumes "finite (dom m)" "m k = Some (sz, st)"
  shows "tracked_size m = tracked_size (m(k := None)) + sz"
proof -
  have "m = (m(k := None))(k \<mapsto> (sz, st))"
    using assms(2) by auto
  moreover have "finite (dom (m(k := None)))"
    using assms(1) by simp
  ultimately show ?thesis
    using tracked_size_insert [of "m(k := None)" k sz st] by simp
qed

lemma tracked_size_restamp:
  assumes "finite (dom m)" "m k = Some (sz, st)"
  shows "tracked_size (m(k \<mapsto> (sz, st'))) = tracked_size m"
  using tracked_size_insert [of "m(k := None)" k sz st'] tracked_size_remove [OF assms] assms(1)
  by simp

lemma tracked_size_ge:
  assumes "finite (dom m)" "m k = Some (sz, st)"
  shows "sz \<le> tracked_size m"
  using tracked_size_remove [OF assms] by simp

section \<open>The contract\<close>

locale eviction_policy =
  fixes on_access :: "'p \<Rightarrow> string \<Rightarrow> u64 \<Rightarrow> 'p"
    and on_insert :: "'p \<Rightarrow> string \<Rightarrow> nat \<Rightarrow> u64 \<Rightarrow> 'p"
    and on_delete :: "'p \<Rightarrow> string \<Rightarrow> nat \<Rightarrow> 'p"
    and candidate :: "'p \<Rightarrow> string \<times> 'p"
    and should_evict :: "'p \<Rightarrow> bool"
    and tracked :: "'p \<Rightarrow> string \<Rightarrow> (nat \<times> u64) option"
    and mem :: "'p \<Rightarrow> nat"
    and limit :: "'p \<Rightarrow> nat"
    and invar :: "'p \<Rightarrow> bool"
  assumes finite_tracked: "invar p \<Longrightarrow> finite (dom (tracked p))"
    and mem_tracked: "invar p \<Longrightarrow> mem p = tracked_size (tracked p)"
    and should_evict_iff: "should_evict p \<longleftrightarrow> limit p < mem p"
    and insert_invar: "invar p \<Longrightarrow> tracked p k = None \<Longrightarrow> invar (on_insert p k sz st)"
    and insert_tracked: "invar p \<Longrightarrow> tracked p k = None \<Longrightarrow>
          tracked (on_insert p k sz st) = (tracked p)(k \<mapsto> (sz, st))"
    and access_invar: "invar p \<Longrightarrow> invar (on_access p k st)"
    and access_tracked: "invar p \<Longrightarrow> tracked p k = Some (sz, st0) \<Longrightarrow>
          tracked (on_access p k st) = (tracked p)(k \<mapsto> (sz, st))"
    and delete_invar: "invar p \<Longrightarrow> tracked p k = Some (sz, st) \<Longrightarrow> invar (on_delete p k sz)"
    and delete_tracked: "invar p \<Longrightarrow> tracked p k = Some (sz, st) \<Longrightarrow>
          tracked (on_delete p k sz) = (tracked p)(k := None)"
    and limit_insert: "limit (on_insert p k sz st) = limit p"
    and limit_access: "limit (on_access p k st) = limit p"
    and limit_delete: "limit (on_delete p k sz) = limit p"
    and candidate_tracked: "invar p \<Longrightarrow> candidate p = (k, p') \<Longrightarrow> tracked p' = tracked p"
    and candidate_limit: "candidate p = (k, p') \<Longrightarrow> limit p' = limit p"
    and candidate_dom: "invar p \<Longrightarrow> candidate p = (k, p') \<Longrightarrow> k \<noteq> [] \<Longrightarrow> k \<in> dom (tracked p)"
    and candidate_none: "invar p \<Longrightarrow> candidate p = ([], p') \<Longrightarrow> invar p'"
    and candidate_stuck: "invar p \<Longrightarrow> candidate p = ([], p') \<Longrightarrow>
          tracked p = (\<lambda>_. None) \<or> [] \<in> dom (tracked p)"
    and evict_invar: "invar p \<Longrightarrow> candidate p = (k, p') \<Longrightarrow> k \<noteq> [] \<Longrightarrow>
          tracked p k = Some (sz, st) \<Longrightarrow> invar (on_delete p' k sz)"
    and evict_tracked: "invar p \<Longrightarrow> candidate p = (k, p') \<Longrightarrow> k \<noteq> [] \<Longrightarrow>
          tracked p k = Some (sz, st) \<Longrightarrow> tracked (on_delete p' k sz) = (tracked p)(k := None)"
begin

lemma insert_mem:
  assumes "invar p" "tracked p k = None"
  shows "mem (on_insert p k sz st) = mem p + sz"
  using assms by (simp add: mem_tracked insert_invar insert_tracked tracked_size_insert
      finite_tracked)

lemma delete_mem:
  assumes "invar p" "tracked p k = Some (sz, st)"
  shows "mem (on_delete p k sz) = mem p - sz"
  using assms tracked_size_remove [OF finite_tracked [OF assms(1)] assms(2)]
  by (simp add: mem_tracked delete_invar delete_tracked)

lemma access_mem:
  assumes "invar p" "tracked p k = Some (sz, st0)"
  shows "mem (on_access p k st) = mem p"
  using assms by (simp add: mem_tracked access_invar access_tracked tracked_size_restamp
      finite_tracked)

text \<open>Replacing a value: the \<open>on_delete\<close> and \<open>on_insert\<close> pair of the update branch.\<close>

lemma replace_invar:
  assumes "invar p" "tracked p k = Some (sz0, st0)"
  shows "invar (on_insert (on_delete p k sz0) k sz st)"
  using assms by (simp add: insert_invar delete_invar delete_tracked)

lemma replace_tracked:
  assumes "invar p" "tracked p k = Some (sz0, st0)"
  shows "tracked (on_insert (on_delete p k sz0) k sz st) = (tracked p)(k \<mapsto> (sz, st))"
  using assms by (simp add: insert_tracked delete_invar delete_tracked)

text \<open>One round of the eviction loop removes exactly one key and frees exactly its size.\<close>

lemma evict_step_card:
  assumes "invar p" "candidate p = (k, p')" "k \<noteq> []" "tracked p k = Some (sz, st)"
  shows "card (dom (tracked (on_delete p' k sz))) < card (dom (tracked p))"
proof -
  have "k \<in> dom (tracked p)"
    using assms(4) by auto
  moreover have "dom (tracked (on_delete p' k sz)) = dom (tracked p) - {k}"
    using evict_tracked [OF assms] by simp
  ultimately show ?thesis
    using finite_tracked [OF assms(1)] by (metis card_Diff1_less)
qed

lemma evict_step_mem:
  assumes "invar p" "candidate p = (k, p')" "k \<noteq> []" "tracked p k = Some (sz, st)"
  shows "mem (on_delete p' k sz) = mem p - sz"
  using assms tracked_size_remove [OF finite_tracked [OF assms(1)] assms(4)]
  by (simp add: mem_tracked evict_invar evict_tracked)

lemma no_keys_no_evict:
  assumes "invar p" "tracked p = (\<lambda>_. None)"
  shows "\<not> should_evict p"
  using assms by (simp add: should_evict_iff mem_tracked)

end

end
