(* ===== verification/LRU_Policy.thy ===== *)
theory LRU_Policy
  imports Eviction_Policy
begin

text \<open>
  \<open>LRUPolicy\<close> of \<open>engine/include/lru_policy.h\<close> and \<open>engine/src/lru_policy.cpp\<close>.

  The doubly linked \<open>std::list<Entry>\<close> is a list of nodes, each with an address, and
  \<open>key_to_iter_\<close> maps a key to the address its iterator points to; an insertion takes a fresh
  address, as \<open>push_front\<close> allocates a node. Erasing through an iterator removes the node at that
  address. An iterator to a node that is no longer in the list would be undefined behaviour; the
  invariant excludes it. The front of the list is the most recently used key.
\<close>

section \<open>State and operations\<close>

record lru_entry =
  le_key :: string
  le_last_access_ns :: u64
  le_value_size :: nat

record lru_policy =
  lru_memory_limit :: nat
  lru_current_memory :: nat
  lru_access_list :: "(nat \<times> lru_entry) list"
  lru_key_to_iter :: "string \<Rightarrow> nat option"
  lru_next_node :: nat

definition lru_new :: "nat \<Rightarrow> lru_policy" where
  "lru_new memory_limit =
     \<lparr>lru_memory_limit = memory_limit, lru_current_memory = 0, lru_access_list = [],
      lru_key_to_iter = (\<lambda>_. None), lru_next_node = 0\<rparr>"

definition list_erase :: "nat \<Rightarrow> (nat \<times> 'e) list \<Rightarrow> (nat \<times> 'e) list" where
  "list_erase it xs = filter (\<lambda>(a, _). a \<noteq> it) xs"

definition lru_push_front :: "lru_policy \<Rightarrow> string \<Rightarrow> lru_entry \<Rightarrow> lru_policy" where
  "lru_push_front p key e =
     p\<lparr>lru_access_list := (lru_next_node p, e) # lru_access_list p,
       lru_key_to_iter := (lru_key_to_iter p)(key := Some (lru_next_node p)),
       lru_next_node := Suc (lru_next_node p)\<rparr>"

definition lru_on_access :: "lru_policy \<Rightarrow> string \<Rightarrow> u64 \<Rightarrow> lru_policy" where
  "lru_on_access p key last_access_ns =
     (case lru_key_to_iter p key of
        None \<Rightarrow> p
      | Some it \<Rightarrow>
          (case map_of (lru_access_list p) it of
             None \<Rightarrow> p
           | Some entry \<Rightarrow>
               lru_push_front
                 (p\<lparr>lru_access_list := list_erase it (lru_access_list p)\<rparr>) key
                 (entry\<lparr>le_last_access_ns := last_access_ns\<rparr>)))"

definition lru_on_insert :: "lru_policy \<Rightarrow> string \<Rightarrow> nat \<Rightarrow> u64 \<Rightarrow> lru_policy" where
  "lru_on_insert p key value_size last_access_ns =
     (let p' = lru_push_front p key
                 \<lparr>le_key = key, le_last_access_ns = last_access_ns, le_value_size = value_size\<rparr>
      in p'\<lparr>lru_current_memory := lru_current_memory p' + value_size\<rparr>)"

definition lru_on_delete :: "lru_policy \<Rightarrow> string \<Rightarrow> nat \<Rightarrow> lru_policy" where
  "lru_on_delete p key value_size =
     (case lru_key_to_iter p key of
        None \<Rightarrow> p
      | Some it \<Rightarrow>
          p\<lparr>lru_access_list := list_erase it (lru_access_list p),
            lru_key_to_iter := (lru_key_to_iter p)(key := None),
            lru_current_memory :=
              (if value_size \<le> lru_current_memory p
               then lru_current_memory p - value_size else 0)\<rparr>)"

definition lru_get_eviction_candidate :: "lru_policy \<Rightarrow> string" where
  "lru_get_eviction_candidate p =
     (if lru_access_list p = [] then [] else le_key (snd (last (lru_access_list p))))"

definition lru_should_evict :: "lru_policy \<Rightarrow> bool" where
  "lru_should_evict p \<longleftrightarrow> lru_memory_limit p < lru_current_memory p"

section \<open>Abstraction and invariant\<close>

definition lru_item :: "nat \<times> lru_entry \<Rightarrow> string \<times> (nat \<times> u64)" where
  "lru_item = (\<lambda>(_, e). (le_key e, (le_value_size e, le_last_access_ns e)))"

definition lru_tracked :: "lru_policy \<Rightarrow> string \<Rightarrow> (nat \<times> u64) option" where
  "lru_tracked p = map_of (map lru_item (lru_access_list p))"

definition lru_keys :: "lru_policy \<Rightarrow> string list" where
  "lru_keys p = map (le_key \<circ> snd) (lru_access_list p)"

definition lru_inv :: "lru_policy \<Rightarrow> bool" where
  "lru_inv p \<longleftrightarrow>
     distinct (map fst (lru_access_list p)) \<and>
     distinct (lru_keys p) \<and>
     (\<forall>(a, e) \<in> set (lru_access_list p). a < lru_next_node p) \<and>
     (\<forall>k it. lru_key_to_iter p k = Some it \<longleftrightarrow>
        (\<exists>e. (it, e) \<in> set (lru_access_list p) \<and> le_key e = k)) \<and>
     lru_current_memory p = sum_list (map (le_value_size \<circ> snd) (lru_access_list p))"

lemma lru_inv_new: "lru_inv (lru_new m)"
  by (simp add: lru_inv_def lru_new_def lru_keys_def)

lemma lru_tracked_dom: "dom (lru_tracked p) = set (lru_keys p)"
  by (force simp: lru_tracked_def lru_keys_def dom_map_of_conv_image_fst lru_item_def)

lemma lru_tracked_iter:
  assumes "lru_inv p"
  shows "lru_key_to_iter p k = None \<longleftrightarrow> lru_tracked p k = None"
proof -
  have "k \<in> set (lru_keys p) \<longleftrightarrow> (\<exists>it. lru_key_to_iter p k = Some it)"
    using assms by (force simp: lru_inv_def lru_keys_def)
  then show ?thesis
    using lru_tracked_dom [of p] by (metis domIff not_None_eq)
qed

section \<open>Where an iterator points\<close>

text \<open>\<open>iters_ok m xs\<close>: the map \<open>m\<close> holds exactly the addresses of the keys' nodes in \<open>xs\<close>.\<close>

definition iters_ok :: "(string \<Rightarrow> nat option) \<Rightarrow> (nat \<times> lru_entry) list \<Rightarrow> bool" where
  "iters_ok m xs \<longleftrightarrow> (\<forall>k it. m k = Some it \<longleftrightarrow> (\<exists>e. (it, e) \<in> set xs \<and> le_key e = k))"

lemma lru_inv_iff:
  "lru_inv p \<longleftrightarrow>
     distinct (map fst (lru_access_list p)) \<and>
     distinct (map (le_key \<circ> snd) (lru_access_list p)) \<and>
     (\<forall>a \<in> fst ` set (lru_access_list p). a < lru_next_node p) \<and>
     iters_ok (lru_key_to_iter p) (lru_access_list p) \<and>
     lru_current_memory p = sum_list (map (le_value_size \<circ> snd) (lru_access_list p))"
  by (auto simp: lru_inv_def lru_keys_def iters_ok_def)

lemma iters_ok_erase:
  assumes "iters_ok m (xs @ (it, e) # ys)" "le_key e \<notin> set (map (le_key \<circ> snd) (xs @ ys))"
  shows "iters_ok (m(le_key e := None)) (xs @ ys)"
  unfolding iters_ok_def
proof (intro allI)
  fix k a
  have ne: "(a, e') \<in> set (xs @ ys) \<Longrightarrow> le_key e' \<noteq> le_key e" for e'
    using assms(2) by force
  show "(m(le_key e := None)) k = Some a \<longleftrightarrow>
      (\<exists>e'. (a, e') \<in> set (xs @ ys) \<and> le_key e' = k)"
  proof (cases "k = le_key e")
    case True
    with ne show ?thesis by auto
  next
    case False
    then have "(m(le_key e := None)) k = m k" by simp
    also have "m k = Some a \<longleftrightarrow> (\<exists>e'. (a, e') \<in> set (xs @ (it, e) # ys) \<and> le_key e' = k)"
      using assms(1) unfolding iters_ok_def by blast
    also have "\<dots> \<longleftrightarrow> (\<exists>e'. (a, e') \<in> set (xs @ ys) \<and> le_key e' = k)"
      using False by auto
    finally show ?thesis .
  qed
qed

lemma iters_ok_push:
  assumes "iters_ok m xs" "le_key e \<notin> set (map (le_key \<circ> snd) xs)"
  shows "iters_ok (m(le_key e := Some a)) ((a, e) # xs)"
  unfolding iters_ok_def
proof (intro allI)
  fix k b
  have ne: "(b, e') \<in> set xs \<Longrightarrow> le_key e' \<noteq> le_key e" for e'
    using assms(2) by force
  show "(m(le_key e := Some a)) k = Some b \<longleftrightarrow>
      (\<exists>e'. (b, e') \<in> set ((a, e) # xs) \<and> le_key e' = k)"
  proof (cases "k = le_key e")
    case True
    with ne show ?thesis by auto
  next
    case False
    then show ?thesis
      using assms(1) unfolding iters_ok_def by auto
  qed
qed

text \<open>\<open>lru_at p k xs it e ys\<close>: the node of key \<open>k\<close> stands between \<open>xs\<close> and \<open>ys\<close>.\<close>

definition lru_at :: "lru_policy \<Rightarrow> string \<Rightarrow> (nat \<times> lru_entry) list \<Rightarrow> nat \<Rightarrow> lru_entry \<Rightarrow>
    (nat \<times> lru_entry) list \<Rightarrow> bool" where
  "lru_at p k xs it e ys \<longleftrightarrow>
     lru_access_list p = xs @ (it, e) # ys \<and> le_key e = k \<and>
     k \<notin> set (map (le_key \<circ> snd) (xs @ ys)) \<and> it \<notin> set (map fst (xs @ ys)) \<and>
     lru_key_to_iter p k = Some it"

lemma lru_at_exists:
  assumes "lru_inv p" "lru_key_to_iter p k = Some it"
  shows "\<exists>xs e ys. lru_at p k xs it e ys"
proof -
  from assms obtain e where e: "(it, e) \<in> set (lru_access_list p)" "le_key e = k"
    unfolding lru_inv_iff iters_ok_def by blast
  then obtain xs ys where split: "lru_access_list p = xs @ (it, e) # ys"
    by (meson split_list)
  have "distinct (map fst (xs @ (it, e) # ys))" "distinct (map (le_key \<circ> snd) (xs @ (it, e) # ys))"
    using assms(1) unfolding lru_inv_iff split by blast+
  with e(2) have "it \<notin> set (map fst (xs @ ys))" "k \<notin> set (map (le_key \<circ> snd) (xs @ ys))"
    by auto
  with split e(2) assms(2) show ?thesis
    unfolding lru_at_def by blast
qed

lemma list_erase_absent: "it \<notin> set (map fst xs) \<Longrightarrow> list_erase it xs = xs"
  unfolding list_erase_def by (induction xs) auto

lemma list_erase_mid:
  "it \<notin> set (map fst (xs @ ys)) \<Longrightarrow> list_erase it (xs @ (it, e) # ys) = xs @ ys"
  using list_erase_absent [of it xs] list_erase_absent [of it ys]
  by (simp add: list_erase_def)

lemma map_of_mid: "it \<notin> set (map fst xs) \<Longrightarrow> map_of (xs @ (it, e) # ys) it = Some e"
  by (induction xs) auto

lemma lru_at_delete:
  assumes "lru_at p k xs it e ys"
  shows "lru_on_delete p k n =
     p\<lparr>lru_access_list := xs @ ys, lru_key_to_iter := (lru_key_to_iter p)(k := None),
       lru_current_memory := lru_current_memory p - n\<rparr>"
  using assms unfolding lru_at_def lru_on_delete_def by (simp add: list_erase_mid)

lemma lru_at_access:
  assumes "lru_at p k xs it e ys"
  shows "lru_on_access p k t =
     lru_push_front (p\<lparr>lru_access_list := xs @ ys\<rparr>) k (e\<lparr>le_last_access_ns := t\<rparr>)"
proof -
  have "map_of (lru_access_list p) it = Some e"
    using assms map_of_mid [of it xs e ys] by (simp add: lru_at_def)
  then show ?thesis
    using assms unfolding lru_at_def lru_on_access_def by (simp add: list_erase_mid del: map_of_append)
qed

lemma map_of_item_notin:
  "k \<notin> set (map (le_key \<circ> snd) xs) \<Longrightarrow> map_of (map lru_item xs) k = None"
  by (induction xs) (auto simp: lru_item_def)

lemma map_of_items_mid:
  "k \<notin> set (map (le_key \<circ> snd) (xs @ ys)) \<Longrightarrow> le_key e = k \<Longrightarrow>
   map_of (map lru_item (xs @ (it, e) # ys)) =
     (map_of (map lru_item (xs @ ys)))(k \<mapsto> (le_value_size e, le_last_access_ns e))"
  by (induction xs) (auto simp: lru_item_def fun_upd_twist)

lemma lru_at_tracked:
  assumes "lru_at p k xs it e ys"
  shows "lru_tracked p k = Some (le_value_size e, le_last_access_ns e)"
    "(lru_tracked p)(k := None) = map_of (map lru_item (xs @ ys))"
proof -
  have nk: "k \<notin> set (map (le_key \<circ> snd) (xs @ ys))"
    using assms by (simp add: lru_at_def)
  have m: "lru_tracked p = (map_of (map lru_item (xs @ ys)))
       (k \<mapsto> (le_value_size e, le_last_access_ns e))"
    using assms map_of_items_mid [OF nk] unfolding lru_tracked_def lru_at_def by metis
  then show "lru_tracked p k = Some (le_value_size e, le_last_access_ns e)"
    by simp
  show "(lru_tracked p)(k := None) = map_of (map lru_item (xs @ ys))"
    unfolding m fun_upd_upd by (intro fun_upd_idem map_of_item_notin nk)
qed

lemma lru_at_obtain:
  assumes "lru_inv p" "lru_tracked p k = Some (sz, st)"
  obtains xs it e ys where "lru_at p k xs it e ys" "le_value_size e = sz" "le_last_access_ns e = st"
proof -
  obtain it where "lru_key_to_iter p k = Some it"
    using assms lru_tracked_iter by force
  then obtain xs e ys where "lru_at p k xs it e ys"
    using lru_at_exists [OF assms(1)] by blast
  with that lru_at_tracked(1) [OF this] assms(2) show ?thesis by simp
qed

section \<open>The operations keep the invariant and change what is tracked\<close>

lemma lru_push_front_inv:
  assumes "lru_inv p" "lru_key_to_iter p (le_key e) = None"
  shows "lru_inv ((lru_push_front p (le_key e) e)
           \<lparr>lru_current_memory := lru_current_memory p + le_value_size e\<rparr>)"
proof -
  have k: "le_key e \<notin> set (map (le_key \<circ> snd) (lru_access_list p))"
    using assms lru_tracked_iter [OF assms(1)] lru_tracked_dom [of p]
    unfolding lru_keys_def by (metis domIff)
  have a: "lru_next_node p \<notin> fst ` set (lru_access_list p)"
    using assms(1) unfolding lru_inv_iff by blast
  have "iters_ok ((lru_key_to_iter p)(le_key e := Some (lru_next_node p)))
      ((lru_next_node p, e) # lru_access_list p)"
    using assms(1) k by (intro iters_ok_push) (simp_all add: lru_inv_iff)
  with a k assms(1) show ?thesis
    unfolding lru_inv_iff lru_push_front_def by (simp add: less_Suc_eq)
qed

lemma lru_on_insert_inv:
  assumes "lru_inv p" "lru_tracked p k = None"
  shows "lru_inv (lru_on_insert p k sz st)"
proof -
  let ?e = "\<lparr>le_key = k, le_last_access_ns = st, le_value_size = sz\<rparr>"
  have "lru_key_to_iter p (le_key ?e) = None"
    using assms lru_tracked_iter by simp
  from lru_push_front_inv [OF assms(1) this] show ?thesis
    by (simp add: lru_on_insert_def lru_push_front_def)
qed

lemma lru_on_insert_tracked:
  "lru_tracked (lru_on_insert p k sz st) = (lru_tracked p)(k \<mapsto> (sz, st))"
  by (simp add: lru_tracked_def lru_on_insert_def lru_push_front_def lru_item_def)

lemma lru_erase_inv:
  assumes "lru_inv p" "lru_at p k xs it e ys"
  shows "lru_inv (p\<lparr>lru_access_list := xs @ ys,
           lru_key_to_iter := (lru_key_to_iter p)(k := None),
           lru_current_memory := lru_current_memory p - le_value_size e\<rparr>)"
proof -
  have l: "lru_access_list p = xs @ (it, e) # ys" "le_key e = k"
      "k \<notin> set (map (le_key \<circ> snd) (xs @ ys))"
    using assms(2) by (simp_all add: lru_at_def)
  have "iters_ok ((lru_key_to_iter p)(le_key e := None)) (xs @ ys)"
    using assms(1) l by (intro iters_ok_erase [of _ xs it e ys]) (simp_all add: lru_inv_iff)
  with assms(1) l(1,2) show ?thesis
    by (simp add: lru_inv_iff)
qed

lemma lru_on_delete_inv:
  assumes "lru_inv p" "lru_tracked p k = Some (sz, st)"
  shows "lru_inv (lru_on_delete p k sz)"
proof -
  from assms obtain xs it e ys where "lru_at p k xs it e ys" "le_value_size e = sz"
    by (rule lru_at_obtain)
  then show ?thesis
    using lru_erase_inv [OF assms(1)] by (auto simp: lru_at_delete)
qed

lemma lru_on_delete_tracked:
  assumes "lru_inv p" "lru_tracked p k = Some (sz, st)"
  shows "lru_tracked (lru_on_delete p k n) = (lru_tracked p)(k := None)"
proof -
  from assms obtain xs it e ys where "lru_at p k xs it e ys"
    by (rule lru_at_obtain)
  then show ?thesis
    using lru_at_tracked(2) [of p k xs it e ys] by (simp add: lru_at_delete lru_tracked_def)
qed

lemma lru_on_access_inv:
  assumes "lru_inv p"
  shows "lru_inv (lru_on_access p k t)"
proof (cases "lru_key_to_iter p k")
  case None
  then show ?thesis
    using assms by (simp add: lru_on_access_def)
next
  case (Some it)
  then obtain xs e ys where at: "lru_at p k xs it e ys"
    using lru_at_exists [OF assms] by blast
  let ?p = "p\<lparr>lru_access_list := xs @ ys, lru_key_to_iter := (lru_key_to_iter p)(k := None),
         lru_current_memory := lru_current_memory p - le_value_size e\<rparr>"
  let ?e = "e\<lparr>le_last_access_ns := t\<rparr>"
  have k: "le_key e = k" "lru_access_list p = xs @ (it, e) # ys"
    using at by (simp_all add: lru_at_def)
  have "lru_inv ((lru_push_front ?p (le_key ?e) ?e)
      \<lparr>lru_current_memory := lru_current_memory ?p + le_value_size ?e\<rparr>)"
    using lru_erase_inv [OF assms at] k by (intro lru_push_front_inv) simp_all
  moreover have "le_value_size e \<le> lru_current_memory p"
    using assms k(2) by (simp add: lru_inv_iff)
  ultimately show ?thesis
    using k(1) by (simp add: lru_push_front_def lru_at_access [OF at])
qed

lemma lru_on_access_tracked:
  assumes "lru_inv p" "lru_tracked p k = Some (sz, st)"
  shows "lru_tracked (lru_on_access p k t) = (lru_tracked p)(k \<mapsto> (sz, t))"
proof -
  from assms obtain xs it e ys where at: "lru_at p k xs it e ys" and sz: "le_value_size e = sz"
    by (rule lru_at_obtain)
  have "lru_tracked (lru_on_access p k t) = (map_of (map lru_item (xs @ ys)))(k \<mapsto> (sz, t))"
    using at sz
    by (simp add: lru_at_access [OF at] lru_tracked_def lru_push_front_def lru_item_def lru_at_def)
  also have "\<dots> = ((lru_tracked p)(k := None))(k \<mapsto> (sz, t))"
    by (simp only: lru_at_tracked(2) [OF at])
  finally show ?thesis by simp
qed

lemma lru_mem_tracked:
  assumes "lru_inv p"
  shows "lru_current_memory p = tracked_size (lru_tracked p)"
proof -
  have "distinct (map (le_key \<circ> snd) xs) \<Longrightarrow>
      tracked_size (map_of (map lru_item xs)) = sum_list (map (le_value_size \<circ> snd) xs)" for xs
  proof (induction xs)
    case (Cons x xs)
    obtain a e where x: "x = (a, e)" by force
    have "tracked_size (map_of (map lru_item (x # xs))) =
        tracked_size (map_of (map lru_item xs)) + le_value_size e"
      using tracked_size_insert [of "map_of (map lru_item xs)" "le_key e"]
        map_of_item_notin [of "le_key e" xs] Cons.prems
      by (simp add: x lru_item_def finite_dom_map_of fun_upd_def)
    with Cons x show ?case by (simp del: map_of.simps)
  qed simp
  with assms show ?thesis
    by (simp add: lru_inv_iff lru_tracked_def)
qed

section \<open>LRU implements the eviction contract\<close>

lemma lru_candidate_dom:
  "lru_get_eviction_candidate p = k \<Longrightarrow> k \<noteq> [] \<Longrightarrow> k \<in> dom (lru_tracked p)"
  by (auto simp: lru_get_eviction_candidate_def lru_tracked_dom lru_keys_def split: if_splits)

lemma lru_candidate_stuck:
  assumes "lru_get_eviction_candidate p = []"
  shows "lru_tracked p = (\<lambda>_. None) \<or> [] \<in> dom (lru_tracked p)"
proof (cases "lru_access_list p = []")
  case True
  then show ?thesis by (simp add: lru_tracked_def)
next
  case False
  then have "le_key (snd (last (lru_access_list p))) \<in> set (lru_keys p)"
    by (simp add: lru_keys_def)
  with False assms show ?thesis
    by (simp add: lru_tracked_dom lru_get_eviction_candidate_def)
qed

lemma lru_limit [frame_simps]:
  "lru_memory_limit (lru_on_insert p k sz st) = lru_memory_limit p"
  "lru_memory_limit (lru_on_access p k st) = lru_memory_limit p"
  "lru_memory_limit (lru_on_delete p k sz) = lru_memory_limit p"
  by (simp_all add: lru_on_insert_def lru_push_front_def lru_on_access_def lru_on_delete_def
      split: option.splits)

interpretation lru: eviction_policy lru_on_access lru_on_insert lru_on_delete
  "\<lambda>p. (lru_get_eviction_candidate p, p)" lru_should_evict lru_tracked lru_current_memory
  lru_memory_limit lru_inv
proof (unfold_locales, goal_cases)
  case (1 p)
  then show ?case by (simp add: lru_tracked_dom)
next
  case (15 p k p')
  then show ?case using lru_candidate_dom by blast
qed (auto simp: lru_mem_tracked lru_should_evict_def lru_on_insert_inv lru_on_insert_tracked
      lru_on_access_inv lru_on_access_tracked lru_on_delete_inv lru_on_delete_tracked lru_limit
      dest: lru_candidate_stuck)

section \<open>The access list is the recency order\<close>

lemma lru_keys_insert: "lru_keys (lru_on_insert p k sz st) = k # lru_keys p"
  by (simp add: lru_keys_def lru_on_insert_def lru_push_front_def)

lemma lru_at_keys:
  assumes "lru_at p k xs it e ys"
  shows "lru_keys p = map (le_key \<circ> snd) xs @ k # map (le_key \<circ> snd) ys"
    "remove1 k (lru_keys p) = map (le_key \<circ> snd) (xs @ ys)"
  using assms by (auto simp: lru_at_def lru_keys_def remove1_append remove1_idem)

lemma lru_keys_delete:
  assumes "lru_inv p"
  shows "lru_keys (lru_on_delete p k n) = remove1 k (lru_keys p)"
proof (cases "lru_key_to_iter p k")
  case None
  then have "k \<notin> set (lru_keys p)"
    using lru_tracked_iter [OF assms] lru_tracked_dom by blast
  with None show ?thesis by (simp add: lru_on_delete_def remove1_idem)
next
  case (Some it)
  then obtain xs e ys where at: "lru_at p k xs it e ys"
    using lru_at_exists [OF assms] by blast
  have "lru_keys (lru_on_delete p k n) = map (le_key \<circ> snd) (xs @ ys)"
    by (simp add: lru_at_delete [OF at] lru_keys_def)
  then show ?thesis
    by (simp only: lru_at_keys(2) [OF at])
qed

lemma lru_keys_access:
  assumes "lru_inv p"
  shows "lru_keys (lru_on_access p k t) =
     (if k \<in> set (lru_keys p) then k # remove1 k (lru_keys p) else lru_keys p)"
proof (cases "lru_key_to_iter p k")
  case None
  then have "k \<notin> set (lru_keys p)"
    using lru_tracked_iter [OF assms] lru_tracked_dom by blast
  with None show ?thesis by (simp add: lru_on_access_def)
next
  case (Some it)
  then obtain xs e ys where at: "lru_at p k xs it e ys"
    using lru_at_exists [OF assms] by blast
  have "lru_keys (lru_on_access p k t) = k # map (le_key \<circ> snd) (xs @ ys)"
    using at by (simp add: lru_at_access [OF at] lru_keys_def lru_push_front_def lru_at_def)
  then show ?thesis
    using lru_at_keys [OF at] by simp
qed

text \<open>
  A history of policy calls, newest first. \<open>lru_last_use\<close> is the position of the latest insertion
  or access of a key, counted from the start of the history.
\<close>

datatype lru_event =
    LInsert string nat u64
  | LAccess string u64
  | LDelete string nat

fun lru_step :: "lru_policy \<Rightarrow> lru_event \<Rightarrow> lru_policy" where
  "lru_step p (LInsert k sz st) = lru_on_insert p k sz st"
| "lru_step p (LAccess k st) = lru_on_access p k st"
| "lru_step p (LDelete k sz) = lru_on_delete p k sz"

fun lru_run :: "nat \<Rightarrow> lru_event list \<Rightarrow> lru_policy" where
  "lru_run m [] = lru_new m"
| "lru_run m (e # es) = lru_step (lru_run m es) e"

fun lru_last_use :: "lru_event list \<Rightarrow> string \<Rightarrow> nat" where
  "lru_last_use [] k = 0"
| "lru_last_use (LInsert j sz st # es) k = (if j = k then Suc (length es) else lru_last_use es k)"
| "lru_last_use (LAccess j st # es) k = (if j = k then Suc (length es) else lru_last_use es k)"
| "lru_last_use (LDelete j sz # es) k = lru_last_use es k"

text \<open>The table's discipline: it inserts keys the policy does not track, and deletes a tracked
  key with the size it was inserted with.\<close>

fun lru_valid :: "nat \<Rightarrow> lru_event list \<Rightarrow> bool" where
  "lru_valid m [] = True"
| "lru_valid m (LInsert k sz st # es) \<longleftrightarrow> lru_valid m es \<and> lru_tracked (lru_run m es) k = None"
| "lru_valid m (LAccess k st # es) \<longleftrightarrow> lru_valid m es"
| "lru_valid m (LDelete k sz # es) \<longleftrightarrow> lru_valid m es \<and>
     (case lru_tracked (lru_run m es) k of None \<Rightarrow> True | Some (n, _) \<Rightarrow> n = sz)"

lemma lru_last_use_le: "lru_last_use es k \<le> length es"
  by (induction es k rule: lru_last_use.induct) auto

lemma lru_run_inv: "lru_valid m es \<Longrightarrow> lru_inv (lru_run m es)"
proof (induction m es rule: lru_valid.induct)
  case (1 m)
  then show ?case by (simp add: lru_inv_new)
next
  case (4 m k sz es)
  then have "lru_inv (lru_run m es)" by simp
  then have "lru_on_delete (lru_run m es) k sz = lru_run m es \<or>
      (\<exists>st. lru_tracked (lru_run m es) k = Some (sz, st))"
    using lru_tracked_iter [of "lru_run m es" k] 4
    by (auto simp: lru_on_delete_def split: option.splits)
  with \<open>lru_inv (lru_run m es)\<close> show ?case
    by (auto simp: lru_on_delete_inv)
qed (simp_all add: lru_on_insert_inv lru_on_access_inv)

lemma sorted_wrt_remove1: "sorted_wrt R xs \<Longrightarrow> sorted_wrt R (remove1 x xs)"
  by (induction xs) (auto dest: set_remove1_subset [THEN subsetD])

lemma lru_recency_sorted:
  "lru_valid m es \<Longrightarrow>
     sorted_wrt (\<lambda>j k. lru_last_use es k < lru_last_use es j) (lru_keys (lru_run m es))"
proof (induction m es rule: lru_valid.induct)
  case (1 m)
  then show ?case by (simp add: lru_keys_def lru_new_def)
next
  case (2 m k sz st es)
  then have s: "sorted_wrt (\<lambda>i j. lru_last_use es j < lru_last_use es i) (lru_keys (lru_run m es))"
    and k: "k \<notin> set (lru_keys (lru_run m es))"
    using lru_tracked_dom by auto
  from k have "sorted_wrt (\<lambda>i j. lru_last_use (LInsert k sz st # es) j
      < lru_last_use (LInsert k sz st # es) i) (lru_keys (lru_run m es))"
    by (intro sorted_wrt_mono_rel [OF _ s]) auto
  with k show ?case
    using lru_last_use_le [of es] by (auto simp: lru_keys_insert less_Suc_eq_le)
next
  case (3 m k st es)
  then have inv: "lru_inv (lru_run m es)"
    and s: "sorted_wrt (\<lambda>i j. lru_last_use es j < lru_last_use es i) (lru_keys (lru_run m es))"
    by (simp_all add: lru_run_inv)
  have d: "distinct (lru_keys (lru_run m es))"
    using inv by (simp add: lru_inv_def)
  have "sorted_wrt (\<lambda>i j. lru_last_use (LAccess k st # es) j
      < lru_last_use (LAccess k st # es) i) (remove1 k (lru_keys (lru_run m es)))"
    using d by (intro sorted_wrt_mono_rel [OF _ sorted_wrt_remove1 [OF s]]) auto
  moreover have "lru_last_use (LAccess k st # es) j < lru_last_use (LAccess k st # es) k"
    if "j \<in> set (remove1 k (lru_keys (lru_run m es)))" for j
    using that d lru_last_use_le [of es j] by auto
  ultimately have "sorted_wrt (\<lambda>i j. lru_last_use (LAccess k st # es) j
      < lru_last_use (LAccess k st # es) i) (k # remove1 k (lru_keys (lru_run m es)))"
    by (simp del: lru_last_use.simps)
  then show ?case
    using inv by (cases "k \<in> set (lru_keys (lru_run m es))")
      (simp_all add: lru_keys_access remove1_idem del: lru_last_use.simps)
next
  case (4 m k sz es)
  then show ?case
    by (simp add: lru_keys_delete lru_run_inv sorted_wrt_remove1)
qed

section \<open>Properties\<close>

lemma sorted_wrt_last_least:
  fixes f :: "'a \<Rightarrow> nat"
  assumes "sorted_wrt (\<lambda>j k. f k < f j) xs" "x \<in> set xs"
  shows "f (last xs) \<le> f x"
  using assms by (induction xs) (auto split: if_splits intro: less_imp_le)



text \<open>
  No dangling iterator: after any such history every address stored in \<open>key_to_iter_\<close> is the
  address of a node of the access list, that node holds the entry of the very key, and the memory
  counter is the sum of the sizes in the list.
\<close>

theorem lru_iterators_valid:
  assumes "lru_valid m es"
  shows "(\<forall>k it. lru_key_to_iter (lru_run m es) k = Some it \<longrightarrow>
            (\<exists>e. map_of (lru_access_list (lru_run m es)) it = Some e \<and> le_key e = k)) \<and>
         lru_current_memory (lru_run m es)
           = sum_list (map (le_value_size \<circ> snd) (lru_access_list (lru_run m es)))"
proof -
  have inv: "lru_inv (lru_run m es)"
    by (rule lru_run_inv [OF assms])
  have "\<exists>e. map_of (lru_access_list (lru_run m es)) it = Some e \<and> le_key e = k"
    if "lru_key_to_iter (lru_run m es) k = Some it" for k it
    using lru_at_exists [OF inv that] map_of_mid by (force simp: lru_at_def)
  with inv show ?thesis
    by (simp add: lru_inv_iff)
qed

theorem lru_iterators_valid_witness:
  "lru_valid 10 [LDelete ''a'' 1, LInsert ''b'' 2 8, LInsert ''a'' 1 7] \<and>
   lru_current_memory (lru_run 10 [LDelete ''a'' 1, LInsert ''b'' 2 8, LInsert ''a'' 1 7])
     = sum_list (map (le_value_size \<circ> snd) (lru_access_list
         (lru_run 10 [LDelete ''a'' 1, LInsert ''b'' 2 8, LInsert ''a'' 1 7])))"
proof -
  have "lru_valid 10 [LDelete ''a'' 1, LInsert ''b'' 2 8, LInsert ''a'' 1 7]" by code_simp
  then show ?thesis
    using lru_iterators_valid by blast
qed

end
