(* ===== verification/LFU_Policy.thy ===== *)
theory LFU_Policy
  imports Eviction_Policy
begin

text \<open>
  \<open>LFUPolicy\<close> of \<open>engine/include/lfu_policy.h\<close> and \<open>engine/src/lfu_policy.cpp\<close>, with the
  interface of \<open>std::priority_queue\<close> it relies on as a locale.

  The standard promises that \<open>top()\<close> is an element no other element precedes; which one among
  equal access counts is unspecified. The model keeps the queue as a list sorted by access count;
  everything proved about the policy uses the laws of the locale only.
\<close>

section \<open>The priority queue\<close>

locale min_queue =
  fixes push :: "'e \<Rightarrow> 'q \<Rightarrow> 'q"
    and top :: "'q \<Rightarrow> 'e"
    and pop :: "'q \<Rightarrow> 'q"
    and is_empty :: "'q \<Rightarrow> bool"
    and elems :: "'q \<Rightarrow> 'e set"
    and count :: "'q \<Rightarrow> nat"
    and wf :: "'q \<Rightarrow> bool"
    and prio :: "'e \<Rightarrow> 'p::linorder"
  assumes empty_iff: "is_empty q \<longleftrightarrow> elems q = {}"
    and push_wf: "wf q \<Longrightarrow> wf (push x q)"
    and push_elems: "elems (push x q) = insert x (elems q)"
    and pop_wf: "wf q \<Longrightarrow> \<not> is_empty q \<Longrightarrow> wf (pop q)"
    and top_elem: "\<not> is_empty q \<Longrightarrow> top q \<in> elems q"
    and pop_elems: "\<not> is_empty q \<Longrightarrow> elems q = insert (top q) (elems (pop q))"
    and pop_count: "\<not> is_empty q \<Longrightarrow> count (pop q) < count q"
    and push_count: "count (push x q) = Suc (count q)"
    and top_least: "wf q \<Longrightarrow> x \<in> elems q \<Longrightarrow> prio (top q) \<le> prio x"
begin

text \<open>Skipping the top elements that fail a test never loses an element that passes it.\<close>

lemma skip_keeps:
  assumes "\<not> is_empty q" "x \<in> elems q" "P x" "\<not> P (top q)"
  shows "x \<in> elems (pop q)"
  using assms pop_elems [OF assms(1)] by auto

end

record lfu_entry =
  fe_key :: string
  fe_access_count :: u64
  fe_value_size :: nat

definition pq_push :: "lfu_entry \<Rightarrow> lfu_entry list \<Rightarrow> lfu_entry list" where
  "pq_push e q = insort_key fe_access_count e q"

definition pq_wf :: "lfu_entry list \<Rightarrow> bool" where
  "pq_wf q \<longleftrightarrow> sorted (map fe_access_count q)"

interpretation pq: min_queue pq_push hd tl List.null set length pq_wf fe_access_count
proof (unfold_locales, goal_cases)
  case (4 q)
  then show ?case by (cases q) (auto simp: pq_wf_def)
next
  case (9 q x)
  then show ?case by (cases q) (auto simp: pq_wf_def)
qed (auto simp: pq_push_def pq_wf_def set_insort_key sorted_insort_key neq_Nil_conv)

section \<open>State and operations\<close>

record lfu_policy =
  lfu_memory_limit :: nat
  lfu_current_memory :: nat
  lfu_heap :: "lfu_entry list"
  lfu_key_to_count :: "string \<Rightarrow> u64 option"
  lfu_key_to_size :: "string \<Rightarrow> nat option"

definition lfu_new :: "nat \<Rightarrow> lfu_policy" where
  "lfu_new memory_limit =
     \<lparr>lfu_memory_limit = memory_limit, lfu_current_memory = 0, lfu_heap = [],
      lfu_key_to_count = (\<lambda>_. None), lfu_key_to_size = (\<lambda>_. None)\<rparr>"

text \<open>\<open>key_to_size_[key]\<close> creates a zero entry for a missing key.\<close>

definition lfu_on_access :: "lfu_policy \<Rightarrow> string \<Rightarrow> u64 \<Rightarrow> lfu_policy" where
  "lfu_on_access p key access_count =
     (case lfu_key_to_count p key of
        None \<Rightarrow> p
      | Some _ \<Rightarrow>
          (let value_size = (case lfu_key_to_size p key of None \<Rightarrow> 0 | Some n \<Rightarrow> n)
           in p\<lparr>lfu_key_to_count := (lfu_key_to_count p)(key := Some access_count),
                lfu_key_to_size := (lfu_key_to_size p)(key := Some value_size),
                lfu_heap := pq_push \<lparr>fe_key = key, fe_access_count = access_count,
                  fe_value_size = value_size\<rparr> (lfu_heap p)\<rparr>))"

definition lfu_on_insert :: "lfu_policy \<Rightarrow> string \<Rightarrow> nat \<Rightarrow> u64 \<Rightarrow> lfu_policy" where
  "lfu_on_insert p key value_size access_count =
     p\<lparr>lfu_key_to_count := (lfu_key_to_count p)(key := Some access_count),
       lfu_key_to_size := (lfu_key_to_size p)(key := Some value_size),
       lfu_heap := pq_push \<lparr>fe_key = key, fe_access_count = access_count,
         fe_value_size = value_size\<rparr> (lfu_heap p),
       lfu_current_memory := lfu_current_memory p + value_size\<rparr>"

definition lfu_on_delete :: "lfu_policy \<Rightarrow> string \<Rightarrow> nat \<Rightarrow> lfu_policy" where
  "lfu_on_delete p key value_size =
     (case lfu_key_to_count p key of
        None \<Rightarrow> p
      | Some _ \<Rightarrow>
          p\<lparr>lfu_key_to_count := (lfu_key_to_count p)(key := None),
            lfu_key_to_size := (lfu_key_to_size p)(key := None),
            lfu_current_memory :=
              (if value_size \<le> lfu_current_memory p
               then lfu_current_memory p - value_size else 0)\<rparr>)"

text \<open>The loop of \<open>get_eviction_candidate\<close>: pop until an entry is still current.\<close>

definition lfu_live :: "(string \<Rightarrow> u64 option) \<Rightarrow> lfu_entry \<Rightarrow> bool" where
  "lfu_live counts e \<longleftrightarrow> counts (fe_key e) = Some (fe_access_count e)"

function lfu_pop_live :: "(string \<Rightarrow> u64 option) \<Rightarrow> lfu_entry list \<Rightarrow> string \<times> lfu_entry list" where
  "lfu_pop_live counts heap =
     (if List.null heap then ([], heap)
      else if lfu_live counts (hd heap) then (fe_key (hd heap), tl heap)
      else lfu_pop_live counts (tl heap))"
  by pat_completeness auto
termination
  by (relation "measure (\<lambda>(counts, heap). length heap)") (auto simp: neq_Nil_conv)

declare lfu_pop_live.simps [simp del]

definition lfu_get_eviction_candidate :: "lfu_policy \<Rightarrow> string \<times> lfu_policy" where
  "lfu_get_eviction_candidate p =
     (case lfu_pop_live (lfu_key_to_count p) (lfu_heap p) of
        (key, heap) \<Rightarrow> (key, p\<lparr>lfu_heap := heap\<rparr>))"

definition lfu_should_evict :: "lfu_policy \<Rightarrow> bool" where
  "lfu_should_evict p \<longleftrightarrow> lfu_memory_limit p < lfu_current_memory p"

section \<open>Abstraction and invariant\<close>

definition lfu_tracked :: "lfu_policy \<Rightarrow> string \<Rightarrow> (nat \<times> u64) option" where
  "lfu_tracked p = (\<lambda>k.
     case lfu_key_to_count p k of
        None \<Rightarrow> None
      | Some c \<Rightarrow> (case lfu_key_to_size p k of None \<Rightarrow> None | Some n \<Rightarrow> Some (n, c)))"

definition lfu_covered :: "(string \<Rightarrow> u64 option) \<Rightarrow> lfu_entry list \<Rightarrow> bool" where
  "lfu_covered counts heap \<longleftrightarrow>
     (\<forall>k c. k \<noteq> [] \<longrightarrow> counts k = Some c \<longrightarrow>
        (\<exists>e \<in> set heap. fe_key e = k \<and> fe_access_count e = c))"

definition lfu_inv :: "lfu_policy \<Rightarrow> bool" where
  "lfu_inv p \<longleftrightarrow>
     pq_wf (lfu_heap p) \<and>
     dom (lfu_key_to_count p) = dom (lfu_key_to_size p) \<and>
     finite (dom (lfu_key_to_size p)) \<and>
     lfu_covered (lfu_key_to_count p) (lfu_heap p) \<and>
     lfu_current_memory p = tracked_size (lfu_tracked p)"

lemma lfu_inv_new: "lfu_inv (lfu_new m)"
  by (simp add: lfu_inv_def lfu_new_def pq_wf_def lfu_covered_def lfu_tracked_def)

lemma lfu_tracked_dom: "lfu_inv p \<Longrightarrow> dom (lfu_tracked p) = dom (lfu_key_to_count p)"
  by (force simp: lfu_inv_def lfu_tracked_def split: option.splits)

lemma lfu_tracked_finite: "lfu_inv p \<Longrightarrow> finite (dom (lfu_tracked p))"
  by (simp add: lfu_tracked_dom) (simp add: lfu_inv_def)

lemma lfu_covered_push:
  "lfu_covered counts heap \<Longrightarrow> fe_access_count e = c \<Longrightarrow>
   lfu_covered (counts(fe_key e := Some c)) (pq_push e heap)"
  unfolding lfu_covered_def pq.push_elems by (auto split: if_splits)

lemma lfu_covered_drop:
  "lfu_covered counts heap \<Longrightarrow> lfu_covered (counts(k := None)) heap"
  unfolding lfu_covered_def by (auto split: if_splits)

section \<open>The operations keep the invariant and change what is tracked\<close>

lemma lfu_on_insert_tracked:
  "lfu_tracked (lfu_on_insert p k sz c) = (lfu_tracked p)(k \<mapsto> (sz, c))"
  by (auto simp: lfu_tracked_def lfu_on_insert_def fun_eq_iff split: option.splits)

lemma lfu_on_insert_inv:
  assumes "lfu_inv p" "lfu_tracked p k = None"
  shows "lfu_inv (lfu_on_insert p k sz c)"
proof -
  let ?e = "\<lparr>fe_key = k, fe_access_count = c, fe_value_size = sz\<rparr>"
  have "finite (dom (lfu_tracked p))"
    by (rule lfu_tracked_finite [OF assms(1)])
  then have "tracked_size (lfu_tracked (lfu_on_insert p k sz c)) = lfu_current_memory p + sz"
    using assms by (simp add: lfu_on_insert_tracked tracked_size_insert lfu_inv_def)
  moreover have "lfu_covered ((lfu_key_to_count p)(fe_key ?e := Some c)) (pq_push ?e (lfu_heap p))"
    using assms(1) by (intro lfu_covered_push) (simp_all add: lfu_inv_def)
  ultimately show ?thesis
    using assms(1) by (simp add: lfu_inv_def lfu_on_insert_def pq.push_wf)
qed

lemma lfu_on_delete_eq:
  "lfu_tracked p k = Some (sz, c) \<Longrightarrow> lfu_on_delete p k n =
     p\<lparr>lfu_key_to_count := (lfu_key_to_count p)(k := None),
       lfu_key_to_size := (lfu_key_to_size p)(k := None),
       lfu_current_memory := lfu_current_memory p - n\<rparr>"
  by (auto simp: lfu_on_delete_def lfu_tracked_def split: option.splits)

lemma lfu_on_delete_tracked:
  "lfu_tracked p k = Some (sz, c) \<Longrightarrow> lfu_tracked (lfu_on_delete p k n) = (lfu_tracked p)(k := None)"
  by (auto simp: lfu_tracked_def lfu_on_delete_def fun_eq_iff split: option.splits)

lemma lfu_on_delete_inv:
  assumes "lfu_inv p" "lfu_tracked p k = Some (sz, c)"
  shows "lfu_inv (lfu_on_delete p k sz)"
proof -
  have "finite (dom (lfu_tracked p))"
    by (rule lfu_tracked_finite [OF assms(1)])
  from tracked_size_remove [OF this assms(2)]
  have m: "tracked_size (lfu_tracked (lfu_on_delete p k sz)) = lfu_current_memory p - sz"
    using assms by (simp add: lfu_on_delete_tracked lfu_inv_def)
  with assms(1) show ?thesis
    unfolding lfu_inv_def lfu_on_delete_eq [OF assms(2)] by (simp add: lfu_covered_drop)
qed

lemma lfu_on_access_tracked:
  "lfu_tracked p k = Some (sz, c0) \<Longrightarrow> lfu_tracked (lfu_on_access p k c) = (lfu_tracked p)(k \<mapsto> (sz, c))"
  by (auto simp: lfu_tracked_def lfu_on_access_def fun_eq_iff Let_def split: option.splits)

lemma lfu_on_access_inv:
  assumes "lfu_inv p"
  shows "lfu_inv (lfu_on_access p k c)"
proof (cases "lfu_tracked p k")
  case None
  then have "lfu_key_to_count p k = None"
    using lfu_tracked_dom [OF assms] by (metis domIff)
  with assms show ?thesis by (simp add: lfu_on_access_def)
next
  case (Some item)
  obtain sz c0 where item: "item = (sz, c0)" by force
  let ?e = "\<lparr>fe_key = k, fe_access_count = c, fe_value_size = sz\<rparr>"
  have s: "lfu_key_to_count p k = Some c0" "lfu_key_to_size p k = Some sz"
    using Some item by (auto simp: lfu_tracked_def split: option.splits)
  have "finite (dom (lfu_tracked p))"
    by (rule lfu_tracked_finite [OF assms])
  from tracked_size_restamp [OF this Some [unfolded item]]
  have "tracked_size (lfu_tracked (lfu_on_access p k c)) = lfu_current_memory p"
    using assms Some item by (simp add: lfu_on_access_tracked lfu_inv_def)
  moreover have "lfu_covered ((lfu_key_to_count p)(fe_key ?e := Some c)) (pq_push ?e (lfu_heap p))"
    using assms by (intro lfu_covered_push) (simp_all add: lfu_inv_def)
  moreover have "lfu_on_access p k c =
      p\<lparr>lfu_key_to_count := (lfu_key_to_count p)(k := Some c),
        lfu_key_to_size := (lfu_key_to_size p)(k := Some sz), lfu_heap := pq_push ?e (lfu_heap p)\<rparr>"
    by (simp add: lfu_on_access_def s)
  ultimately show ?thesis
    using assms by (simp add: lfu_inv_def pq.push_wf)
qed

section \<open>The candidate\<close>

lemma lfu_pop_live_wf: "pq_wf heap \<Longrightarrow> pq_wf (snd (lfu_pop_live counts heap))"
proof (induction counts heap rule: lfu_pop_live.induct)
  case (1 counts heap)
  then show ?case
    using pq.pop_wf [of heap] by (auto simp: lfu_pop_live.simps [of counts heap])
qed

text \<open>A live entry is never skipped: it is the one returned or it stays in the queue.\<close>

lemma lfu_pop_live_keeps:
  assumes "e \<in> set heap" "lfu_live counts e"
  shows "fst (lfu_pop_live counts heap) = fe_key e \<or> e \<in> set (snd (lfu_pop_live counts heap))"
  using assms
proof (induction counts heap rule: lfu_pop_live.induct)
  case (1 counts heap)
  have ne: "\<not> List.null heap" using 1(2) by auto
  show ?case
  proof (cases "lfu_live counts (hd heap)")
    case True
    then show ?thesis
      using ne 1(2) pq.pop_elems [OF ne] by (auto simp: lfu_pop_live.simps [of counts heap])
  next
    case False
    then have "e \<in> set (tl heap)"
      using pq.skip_keeps [OF ne, of e "lfu_live counts"] 1 by blast
    then show ?thesis
      using 1 False ne by (simp add: lfu_pop_live.simps [of counts heap])
  qed
qed

lemma lfu_pop_live_result:
  assumes "lfu_pop_live counts heap = (k, heap')" "pq_wf heap"
  shows "(k = [] \<and> (\<forall>e \<in> set heap. \<not> lfu_live counts e)) \<or>
         (\<exists>c. counts k = Some c \<and> (\<forall>e \<in> set heap. lfu_live counts e \<longrightarrow> c \<le> fe_access_count e))"
  using assms
proof (induction counts heap rule: lfu_pop_live.induct)
  case (1 counts heap)
  show ?case
  proof (cases "List.null heap \<or> lfu_live counts (hd heap)")
    case True
    then show ?thesis
      using 1(2,3) pq.top_least [OF 1(3)]
      by (auto simp: lfu_pop_live.simps [of counts heap] lfu_live_def split: if_splits)
  next
    case False
    then have "lfu_pop_live counts (tl heap) = (k, heap')" "pq_wf (tl heap)"
      using 1(2) pq.pop_wf [OF 1(3)] by (simp_all add: lfu_pop_live.simps [of counts heap])
    with 1(1) False have "(k = [] \<and> (\<forall>e \<in> set (tl heap). \<not> lfu_live counts e)) \<or>
       (\<exists>c. counts k = Some c \<and> (\<forall>e \<in> set (tl heap). lfu_live counts e \<longrightarrow> c \<le> fe_access_count e))"
      by simp
    moreover have "set heap = insert (hd heap) (set (tl heap))"
      using False pq.pop_elems by blast
    ultimately show ?thesis
      using False by auto
  qed
qed

lemma lfu_covered_pop:
  assumes "lfu_covered counts heap" "lfu_pop_live counts heap = (k, heap')"
  shows "lfu_covered (counts(k := None)) heap'" "k = [] \<Longrightarrow> lfu_covered counts heap'"
proof -
  have keep: "\<exists>e \<in> set heap'. fe_key e = j \<and> fe_access_count e = c"
    if "j \<noteq> []" "counts j = Some c" "j \<noteq> k" for j c
  proof -
    from assms(1) that obtain e where "e \<in> set heap" "fe_key e = j" "fe_access_count e = c"
      unfolding lfu_covered_def by blast
    with lfu_pop_live_keeps [of e heap counts] that assms(2) show ?thesis
      by (auto simp: lfu_live_def)
  qed
  then show "lfu_covered (counts(k := None)) heap'"
    unfolding lfu_covered_def by (auto split: if_splits)
  show "k = [] \<Longrightarrow> lfu_covered counts heap'"
    using keep unfolding lfu_covered_def by blast
qed

section \<open>LFU implements the eviction contract\<close>

lemma lfu_limit [frame_simps]:
  "lfu_memory_limit (lfu_on_insert p k sz st) = lfu_memory_limit p"
  "lfu_memory_limit (lfu_on_access p k st) = lfu_memory_limit p"
  "lfu_memory_limit (lfu_on_delete p k sz) = lfu_memory_limit p"
  by (simp_all add: lfu_on_insert_def lfu_on_access_def lfu_on_delete_def Let_def
      split: option.splits)

lemma lfu_candidate_unfold:
  assumes "lfu_get_eviction_candidate p = (k, p')"
  obtains heap' where "lfu_pop_live (lfu_key_to_count p) (lfu_heap p) = (k, heap')"
    "p' = p\<lparr>lfu_heap := heap'\<rparr>"
  using assms by (auto simp: lfu_get_eviction_candidate_def split: prod.splits)

lemma lfu_candidate_frame:
  assumes "lfu_get_eviction_candidate p = (k, p')"
  shows "lfu_tracked p' = lfu_tracked p" "lfu_memory_limit p' = lfu_memory_limit p"
  using assms by (auto elim!: lfu_candidate_unfold simp: lfu_tracked_def split: option.splits)

lemma lfu_candidate_tracked:
  assumes "lfu_inv p" "lfu_get_eviction_candidate p = (k, p')"
  shows "k \<in> dom (lfu_tracked p) \<or> (k = [] \<and> lfu_tracked p = (\<lambda>_. None))"
proof -
  from assms(2) obtain heap' where h: "lfu_pop_live (lfu_key_to_count p) (lfu_heap p) = (k, heap')"
    by (rule lfu_candidate_unfold)
  have c: "lfu_covered (lfu_key_to_count p) (lfu_heap p)" and "pq_wf (lfu_heap p)"
    using assms(1) by (simp_all add: lfu_inv_def)
  from lfu_pop_live_result [OF h this(2)] show ?thesis
  proof (elim disjE conjE exE)
    assume k: "k = []" and none: "\<forall>e \<in> set (lfu_heap p). \<not> lfu_live (lfu_key_to_count p) e"
    have none': "lfu_key_to_count p j = None" if "j \<noteq> []" for j
    proof (rule ccontr)
      assume "lfu_key_to_count p j \<noteq> None"
      then obtain d where d: "lfu_key_to_count p j = Some d" by auto
      with c that obtain e where "e \<in> set (lfu_heap p)" "fe_access_count e = d" "fe_key e = j"
        unfolding lfu_covered_def by blast
      with none d show False by (auto simp: lfu_live_def)
    qed
    show ?thesis
    proof (cases "lfu_key_to_count p []")
      case None
      with none' have "lfu_key_to_count p j = None" for j
        by (cases "j = []") simp_all
      then have "dom (lfu_tracked p) = {}"
        unfolding lfu_tracked_dom [OF assms(1)] by auto
      with k show ?thesis by simp
    next
      case (Some d)
      then have "[] \<in> dom (lfu_tracked p)"
        unfolding lfu_tracked_dom [OF assms(1)] by blast
      with k show ?thesis by simp
    qed
  next
    fix d assume "lfu_key_to_count p k = Some d"
    then show ?thesis
      unfolding lfu_tracked_dom [OF assms(1)] by blast
  qed
qed

lemma lfu_evict_inv:
  assumes "lfu_inv p" "lfu_get_eviction_candidate p = (k, p')" "lfu_tracked p k = Some (sz, c)"
  shows "lfu_inv (lfu_on_delete p' k sz)"
proof -
  from assms(2) obtain heap' where h: "lfu_pop_live (lfu_key_to_count p) (lfu_heap p) = (k, heap')"
    and p': "p' = p\<lparr>lfu_heap := heap'\<rparr>"
    by (rule lfu_candidate_unfold)
  have "lfu_inv (lfu_on_delete p k sz)"
    using assms(1,3) by (rule lfu_on_delete_inv)
  moreover have "lfu_covered ((lfu_key_to_count p)(k := None)) heap'"
    using assms(1) lfu_covered_pop(1) [OF _ h] by (simp add: lfu_inv_def)
  moreover have "pq_wf heap'"
    using assms(1) lfu_pop_live_wf [of "lfu_heap p" "lfu_key_to_count p"] h
    by (simp add: lfu_inv_def)
  moreover have t: "lfu_tracked p' k = Some (sz, c)"
    using lfu_candidate_frame(1) [OF assms(2)] assms(3) by simp
  moreover have "lfu_tracked (lfu_on_delete p' k sz) = lfu_tracked (lfu_on_delete p k sz)"
    using lfu_candidate_frame(1) [OF assms(2)] lfu_on_delete_tracked [OF t]
      lfu_on_delete_tracked [OF assms(3)] by simp
  ultimately show ?thesis
    unfolding lfu_inv_def lfu_on_delete_eq [OF t] lfu_on_delete_eq [OF assms(3)]
    by (simp add: p')
qed

lemma lfu_candidate_none_inv:
  assumes "lfu_inv p" "lfu_get_eviction_candidate p = ([], p')"
  shows "lfu_inv p'"
proof -
  from assms(2) obtain heap' where h: "lfu_pop_live (lfu_key_to_count p) (lfu_heap p) = ([], heap')"
    and p': "p' = p\<lparr>lfu_heap := heap'\<rparr>"
    by (rule lfu_candidate_unfold)
  have "lfu_covered (lfu_key_to_count p) heap'" "pq_wf heap'"
    using assms(1) lfu_covered_pop(2) [OF _ h] h
      lfu_pop_live_wf [of "lfu_heap p" "lfu_key_to_count p"] by (simp_all add: lfu_inv_def)
  moreover have "lfu_tracked p' = lfu_tracked p"
    by (rule lfu_candidate_frame(1) [OF assms(2)])
  ultimately show ?thesis
    using assms(1) by (simp add: lfu_inv_def p')
qed

interpretation lfu: eviction_policy lfu_on_access lfu_on_insert lfu_on_delete
  lfu_get_eviction_candidate lfu_should_evict lfu_tracked lfu_current_memory
  lfu_memory_limit lfu_inv
proof (unfold_locales, goal_cases)
  case (1 p)
  then show ?case by (rule lfu_tracked_finite)
next
  case (2 p)
  then show ?case by (simp add: lfu_inv_def)
next
  case (13 p k p')
  from lfu_candidate_frame(1) [OF this(2)] show ?case .
next
  case (14 p k p')
  from lfu_candidate_frame(2) [OF this] show ?case .
next
  case (15 p k p')
  then show ?case using lfu_candidate_tracked by blast
next
  case (17 p p')
  then show ?case using lfu_candidate_tracked by blast
next
  case (19 p k p' sz st)
  then show ?case
    using lfu_candidate_frame(1) [OF 19(2)] by (simp add: lfu_on_delete_tracked)
qed (auto simp: lfu_should_evict_def lfu_on_insert_inv lfu_on_insert_tracked
      lfu_on_access_inv lfu_on_access_tracked lfu_on_delete_inv lfu_on_delete_tracked lfu_limit
      intro: lfu_evict_inv lfu_candidate_none_inv)

text \<open>
  The empty key is a legal key, but its name is also the answer for no candidate. Offering it takes
  its entry off the heap although it stays tracked, so that the next candidate is a key with a larger
  access count.
\<close>

lemma lfu_empty_key_passed_over:
  assumes "p = lfu_on_insert (lfu_on_insert (lfu_new m) [] 1 0) ''a'' 1 7"
    and "lfu_get_eviction_candidate p = (k1, p1)" "lfu_get_eviction_candidate p1 = (k2, p2)"
  shows "k1 = [] \<and> k2 = ''a'' \<and> lfu_tracked p1 [] = Some (1, 0) \<and> lfu_tracked p1 ''a'' = Some (1, 7)"
proof -
  have pop: "lfu_pop_live counts (e # q) = (fe_key e, q)" if "lfu_live counts e" for counts e q
    using that by (subst lfu_pop_live.simps) simp
  show ?thesis
    using assms
    by (auto simp: lfu_get_eviction_candidate_def lfu_on_insert_def lfu_new_def pq_push_def pop lfu_live_def
        lfu_tracked_def)
qed

section \<open>Properties\<close>



fun lfu_accesses :: "lfu_policy \<Rightarrow> string \<Rightarrow> u64 list \<Rightarrow> lfu_policy" where
  "lfu_accesses p k [] = p"
| "lfu_accesses p k (c # cs) = lfu_accesses (lfu_on_access p k c) k cs"

text \<open>
  The lazily deleted heap is not bounded by what is tracked: \<open>n\<close> accesses of one tracked key
  add \<open>n\<close> entries to the heap, while the set of tracked keys and the memory counter that eviction
  looks at stay the same.
\<close>

theorem lfu_heap_grows_per_access:
  assumes "k \<in> dom (lfu_key_to_count p)"
  shows "length (lfu_heap (lfu_accesses p k cs)) = length (lfu_heap p) + length cs \<and>
         dom (lfu_key_to_count (lfu_accesses p k cs)) = dom (lfu_key_to_count p) \<and>
         lfu_current_memory (lfu_accesses p k cs) = lfu_current_memory p"
  using assms
proof (induction cs arbitrary: p)
  case Nil
  then show ?case by simp
next
  case (Cons c cs)
  have "length (lfu_heap (lfu_on_access p k c)) = Suc (length (lfu_heap p))"
    "dom (lfu_key_to_count (lfu_on_access p k c)) = dom (lfu_key_to_count p)"
    "lfu_current_memory (lfu_on_access p k c) = lfu_current_memory p"
    using Cons.prems by (auto simp: lfu_on_access_def Let_def pq.push_count split: if_splits)
  with Cons.IH [of "lfu_on_access p k c"] Cons.prems show ?case by simp
qed

theorem lfu_heap_grows_per_access_witness:
  "length (lfu_heap (lfu_accesses (lfu_on_insert (lfu_new 10) ''a'' 1 0) ''a'' [1, 2, 3])) = 4"
proof -
  let ?p = "lfu_on_insert (lfu_new 10) ''a'' 1 0"
  have "''a'' \<in> dom (lfu_key_to_count ?p)" by (simp add: lfu_on_insert_def)
  moreover have "length (lfu_heap ?p) = 1" by code_simp
  ultimately show ?thesis
    using lfu_heap_grows_per_access [of "''a''" ?p "[1, 2, 3]"] by simp
qed

end
