(* ===== verification/Wal_Log.thy ===== *)
theory Wal_Log
  imports KV_Prelude
begin

text \<open>
  The write-ahead log of \<open>engine/include/wal.h\<close> and \<open>engine/src/wal.cpp\<close>: the binary record
  format, the batching \<open>WALWriter\<close> and the \<open>WALReader\<close>.

  \<open>enum class WALOpType : uint8_t\<close> can hold any byte; the reader casts without a check, so the
  datatype has a constructor for the values no enumerator names. \<open>int64_t ttl_ns\<close> is a 64-bit
  word: the conversions from and to \<open>uint64_t\<close> keep the bits. \<open>fsync_file\<close> only asks the
  operating system to persist what is already in the file and has no effect on its contents.
\<close>

section \<open>Records and their bytes\<close>

datatype wal_op_type = WAL_SET | WAL_DELETE | WAL_EXPIRE | WAL_OTHER u8

record wal_record =
  wr_op_type :: wal_op_type
  wr_key :: string
  wr_value :: string
  wr_ttl_ns :: u64

fun op_code :: "wal_op_type \<Rightarrow> u8" where
  "op_code WAL_SET = 1"
| "op_code WAL_DELETE = 2"
| "op_code WAL_EXPIRE = 3"
| "op_code (WAL_OTHER b) = b"

definition op_of_code :: "u8 \<Rightarrow> wal_op_type" where
  "op_of_code b =
     (if b = 1 then WAL_SET else if b = 2 then WAL_DELETE else if b = 3 then WAL_EXPIRE
      else WAL_OTHER b)"

text \<open>\<open>write_record\<close>: the lengths are truncated to 32 bits, and as many bytes are written as the
  truncated length says.\<close>

definition wal_write_record :: "wal_record \<Rightarrow> string" where
  "wal_write_record r =
     (let key_len = word_of_nat (length (wr_key r)) :: u32;
          value_len = word_of_nat (length (wr_value r)) :: u32
      in [char_of (unat (op_code (wr_op_type r)))]
         @ u32_bytes key_len @ take (unat key_len) (wr_key r)
         @ u32_bytes value_len @ take (unat value_len) (wr_value r)
         @ u64_bytes (wr_ttl_ns r))"

text \<open>The growth of \<open>file_size_\<close> per record, computed in \<open>uint32_t\<close>.\<close>

definition wal_record_size :: "wal_record \<Rightarrow> nat" where
  "wal_record_size r =
     unat (1 + 4 + (word_of_nat (length (wr_key r)) :: u32) + 4
           + (word_of_nat (length (wr_value r)) :: u32) + 8)"

definition wal_read_record :: "fs \<Rightarrow> istream \<Rightarrow> wal_record option \<times> istream" where
  "wal_read_record f =
     rd_bind (read_exact f 1) (\<lambda>op.
     rd_bind (read_exact f 4) (\<lambda>kl.
     rd_bind (read_exact f (unat (u32_of_bytes kl))) (\<lambda>key.
     rd_bind (read_exact f 4) (\<lambda>vl.
     rd_bind (if 0 < unat (u32_of_bytes vl) then read_exact f (unat (u32_of_bytes vl))
              else rd_return []) (\<lambda>val.
     rd_bind (read_exact f 8) (\<lambda>ttl.
     rd_return \<lparr>wr_op_type = op_of_code (word_of_nat (le_val op)), wr_key = key, wr_value = val,
       wr_ttl_ns = u64_of_bytes ttl\<rparr>))))))"

section \<open>The writer\<close>

record wal_writer =
  ww_filepath :: string
  ww_batch_size :: nat
  ww_buffer :: "wal_record list"
  ww_file_size :: nat

datatype wal_error = Failed_to_open string

definition wal_writer_open :: "fs \<Rightarrow> string \<Rightarrow> nat \<Rightarrow> wal_error + (fs \<times> wal_writer)" where
  "wal_writer_open f filepath batch_size =
     (if fs_can_open f filepath
      then let f' = fs_append f filepath []
           in Inr (f', \<lparr>ww_filepath = filepath, ww_batch_size = batch_size, ww_buffer = [],
                        ww_file_size = length (fs_contents f' filepath)\<rparr>)
      else Inl (Failed_to_open filepath))"

definition wal_flush :: "fs \<Rightarrow> wal_writer \<Rightarrow> fs \<times> wal_writer" where
  "wal_flush f w =
     (if ww_buffer w = [] then (f, w)
      else (fs_append f (ww_filepath w) (concat (map wal_write_record (ww_buffer w))),
            w\<lparr>ww_buffer := [],
              ww_file_size := ww_file_size w + sum_list (map wal_record_size (ww_buffer w))\<rparr>))"

definition wal_append :: "fs \<Rightarrow> wal_writer \<Rightarrow> wal_record \<Rightarrow> fs \<times> wal_writer" where
  "wal_append f w r =
     (let w' = w\<lparr>ww_buffer := ww_buffer w @ [r]\<rparr>
      in if ww_batch_size w' \<le> length (ww_buffer w') then wal_flush f w' else (f, w'))"

definition wal_pending_count :: "wal_writer \<Rightarrow> nat" where
  "wal_pending_count w = length (ww_buffer w)"

text \<open>The destructor: flush, then close.\<close>

definition wal_writer_close :: "fs \<Rightarrow> wal_writer \<Rightarrow> fs" where
  "wal_writer_close f w = fst (wal_flush f w)"

section \<open>The reader\<close>

record wal_reader =
  wrd_stream :: istream
  wrd_records_read :: nat

definition wal_reader_open :: "fs \<Rightarrow> string \<Rightarrow> wal_error + wal_reader" where
  "wal_reader_open f filepath =
     (case fs_files f filepath of
        None \<Rightarrow> Inl (Failed_to_open filepath)
      | Some _ \<Rightarrow> Inr \<lparr>wrd_stream = is_open filepath, wrd_records_read = 0\<rparr>)"

definition wal_read_next :: "fs \<Rightarrow> wal_reader \<Rightarrow> wal_record option \<times> wal_reader" where
  "wal_read_next f r =
     (if \<not> is_good (wrd_stream r) then (None, r)
      else case wal_read_record f (wrd_stream r) of
        (None, s) \<Rightarrow> (None, r\<lparr>wrd_stream := s\<rparr>)
      | (Some rec, s) \<Rightarrow>
          (Some rec, r\<lparr>wrd_stream := s, wrd_records_read := Suc (wrd_records_read r)\<rparr>))"

text \<open>The helper for one length-prefixed string.\<close>

definition wal_read_string :: "fs \<Rightarrow> istream \<Rightarrow> string option \<times> istream" where
  "wal_read_string f =
     rd_bind (read_exact f 4) (\<lambda>len. read_exact f (unat (u32_of_bytes len)))"

section \<open>The format\<close>

definition wal_ok :: "wal_record \<Rightarrow> bool" where
  "wal_ok r \<longleftrightarrow> length (wr_key r) < 2 ^ 32 \<and> length (wr_value r) < 2 ^ 32 \<and>
     op_of_code (op_code (wr_op_type r)) = wr_op_type r"

lemma op_of_code_code [codec_simps]: "wal_ok r \<Longrightarrow>
   op_of_code (word_of_nat (le_val [char_of (unat (op_code (wr_op_type r)))])) = wr_op_type r"
proof -
  have "unat (op_code (wr_op_type r)) < 256"
    using unsigned_less [of "op_code (wr_op_type r)"] by simp
  then show "wal_ok r \<Longrightarrow> ?thesis"
    by (simp add: wal_ok_def)
qed

lemma wal_read_string_reads:
  assumes "length s < 2 ^ 32"
  shows "reads f (wal_read_string f) (u32_bytes (word_of_nat (length s)) @ s) s"
proof -
  have "unat (word_of_nat (length s) :: u32) = length s" using assms by (simp add: unat_of_nat_u32)
  then have "reads f (read_exact f (unat (u32_of_bytes (u32_bytes (word_of_nat (length s)))))) s s"
    by (simp add: reads_exact)
  then show ?thesis unfolding wal_read_string_def by (intro reads_bind [OF reads_exact]) simp_all
qed

lemma wal_reads:
  assumes "wal_ok r"
  shows "reads f (wal_read_record f) (wal_write_record r) r"
proof -
  let ?k = "word_of_nat (length (wr_key r)) :: u32"
  let ?v = "word_of_nat (length (wr_value r)) :: u32"
  have k: "unat ?k = length (wr_key r)" and v: "unat ?v = length (wr_value r)"
    using assms by (simp_all add: wal_ok_def unat_of_nat_u32)
  have enc: "wal_write_record r =
      [char_of (unat (op_code (wr_op_type r)))] @ u32_bytes ?k @ wr_key r @
      u32_bytes ?v @ wr_value r @ u64_bytes (wr_ttl_ns r) @ []"
    by (simp add: wal_write_record_def Let_def k v)
  have val: "reads f (if 0 < unat ?v then read_exact f (unat ?v) else rd_return [])
      (wr_value r) (wr_value r)"
    using reads_exact [of "wr_value r" "unat ?v"] reads_return [of f "[]"] v by (cases "wr_value r") auto
  have ret: "rd_return \<lparr>wr_op_type = op_of_code (word_of_nat (le_val
        [char_of (unat (op_code (wr_op_type r)))])), wr_key = wr_key r, wr_value = wr_value r,
        wr_ttl_ns = u64_of_bytes (u64_bytes (wr_ttl_ns r))\<rparr> = rd_return r"
    using op_of_code_code [OF assms] by (cases r) simp
  have val': "reads f (if 0 < unat (u32_of_bytes (u32_bytes ?v))
      then read_exact f (unat (u32_of_bytes (u32_bytes ?v))) else rd_return [])
      (wr_value r) (wr_value r)"
    using val by (simp only: u32_of_bytes_bytes)
  have ret': "reads f (rd_return \<lparr>wr_op_type = op_of_code (word_of_nat (le_val
      [char_of (unat (op_code (wr_op_type r)))])), wr_key = wr_key r, wr_value = wr_value r,
      wr_ttl_ns = u64_of_bytes (u64_bytes (wr_ttl_ns r))\<rparr>) [] r"
    unfolding ret by (rule reads_return)
  show ?thesis
    unfolding enc wal_read_record_def
    by (rule ret' val' reads_exact reads_bind | simp add: k)+
qed

interpretation wal: record_codec wal_write_record wal_read_record wal_ok
proof
  fix r f s rest
  assume "wal_ok r" "is_at f s (wal_write_record r @ rest)"
  then show "\<exists>s'. wal_read_record f s = (Some r, s') \<and> is_at f s' rest \<and> is_path s' = is_path s
      \<and> is_pos s' = is_pos s + length (wal_write_record r)"
    using wal_reads [of r f] unfolding reads_def by blast
next
  fix r n f s
  assume "wal_ok r" "n < length (wal_write_record r)" "is_at f s (take n (wal_write_record r))"
  then have "fst (wal_read_record f s) = None"
    using wal_reads [of r f] unfolding reads_def by blast
  then show "\<exists>s'. wal_read_record f s = (None, s')"
    by (cases "wal_read_record f s") simp
qed

lemma wal_write_record_nonempty: "wal_write_record r \<noteq> []"
  by (simp add: wal_write_record_def Let_def)

lemma wal_record_size_exact:
  assumes "length (wr_key r) + length (wr_value r) + 17 < 2 ^ 32"
  shows "wal_record_size r = length (wal_write_record r)"
proof -
  let ?n = "length (wr_key r) + length (wr_value r) + 17"
  have "1 + 4 + (word_of_nat (length (wr_key r)) :: u32) + 4 + word_of_nat (length (wr_value r)) + 8
      = word_of_nat ?n"
    by (simp add: algebra_simps)
  then have "wal_record_size r = ?n"
    using assms by (simp add: wal_record_size_def unat_of_nat_u32 del: of_nat_add of_nat_numeral)
  moreover have "length (wal_write_record r) = ?n"
    using assms by (simp add: wal_write_record_def Let_def unat_of_nat_u32)
  ultimately show ?thesis by simp
qed

section \<open>Draining a log\<close>

text \<open>
  The loop \<open>while (reader.read_next(record))\<close> of a reader over a file that does not change: the
  records it delivers, or None if it does not end.
\<close>

partial_function (option) wal_read_all :: "fs \<Rightarrow> wal_reader \<Rightarrow> wal_record list option" where
  "wal_read_all f r =
     (case wal_read_next f r of
        (None, r') \<Rightarrow> Some []
      | (Some rec, r') \<Rightarrow> Option.bind (wal_read_all f r') (\<lambda>recs. Some (rec # recs)))"

lemma wal_read_next_hit:
  assumes "wal_ok x" "is_at f (wrd_stream r) (take n (concat (map wal_write_record (x # rs))))"
    and "length (wal_write_record x) \<le> n"
  obtains r' where "wal_read_next f r = (Some x, r')" "is_at f (wrd_stream r')
      (take (n - length (wal_write_record x)) (concat (map wal_write_record rs)))"
    "is_path (wrd_stream r') = is_path (wrd_stream r)"
    "is_pos (wrd_stream r') = is_pos (wrd_stream r) + length (wal_write_record x)"
proof -
  from wal.rd_first [OF assms] obtain s' where
    s': "wal_read_record f (wrd_stream r) = (Some x, s')" "is_path s' = is_path (wrd_stream r)"
      "is_at f s' (take (n - length (wal_write_record x)) (concat (map wal_write_record rs)))"
      "is_pos s' = is_pos (wrd_stream r) + length (wal_write_record x)" by blast
  from assms(2) have "is_good (wrd_stream r)" by (simp add: is_at_def)
  with s' that [of "r\<lparr>wrd_stream := s', wrd_records_read := Suc (wrd_records_read r)\<rparr>"] show thesis
    by (simp add: wal_read_next_def)
qed

lemma wal_read_next_end:
  assumes "is_at f (wrd_stream r) []"
  shows "fst (wal_read_next f r) = None"
  using assms
  by (simp add: wal_read_next_def wal_read_record_def rd_bind_def read_exact_def is_read_def
      is_at_def)

lemma wal_read_next_torn:
  assumes "wal_ok x" "is_at f (wrd_stream r) (take n (concat (map wal_write_record (x # rs))))"
    and "n < length (wal_write_record x)"
  shows "fst (wal_read_next f r) = None"
  using wal.rd_first_torn [OF assms]
  by (cases "wal_read_record f (wrd_stream r)") (simp add: wal_read_next_def)

lemma wal_read_all_take:
  assumes "list_all wal_ok rs" "is_at f (wrd_stream r) (take n (concat (map wal_write_record rs)))"
  shows "wal_read_all f r = Some (whole_records wal_write_record n rs)"
  using assms
proof (induction rs arbitrary: n r)
  case Nil
  then have "fst (wal_read_next f r) = None" by (simp add: wal_read_next_end)
  then show ?case
    by (subst wal_read_all.simps) (simp add: case_prod_unfold)
next
  case (Cons x rs)
  show ?case
  proof (cases "length (wal_write_record x) \<le> n")
    case True
    then obtain r' where r': "wal_read_next f r = (Some x, r')" "is_at f (wrd_stream r')
        (take (n - length (wal_write_record x)) (concat (map wal_write_record rs)))"
      using wal_read_next_hit [OF _ Cons.prems(2)] Cons.prems(1) by auto
    from Cons.IH [OF _ r'(2)] Cons.prems(1) r'(1) True show ?thesis
      by (subst wal_read_all.simps) simp
  next
    case False
    with Cons.prems have "fst (wal_read_next f r) = None"
      by (intro wal_read_next_torn [OF _ Cons.prems(2)]) simp_all
    with False show ?thesis
      by (subst wal_read_all.simps) (simp add: case_prod_unfold)
  qed
qed

section \<open>What the writer keeps\<close>

text \<open>The log as a client of the writer sees it: what is in the file, then what is pending.\<close>

definition wal_log :: "fs \<Rightarrow> wal_writer \<Rightarrow> string" where
  "wal_log f w = fs_contents f (ww_filepath w) @ concat (map wal_write_record (ww_buffer w))"

fun wal_append_all :: "fs \<Rightarrow> wal_writer \<Rightarrow> wal_record list \<Rightarrow> fs \<times> wal_writer" where
  "wal_append_all f w [] = (f, w)"
| "wal_append_all f w (r # rs) = (case wal_append f w r of (f', w') \<Rightarrow> wal_append_all f' w' rs)"

lemma wal_flush_log: "wal_flush f w = (f', w') \<Longrightarrow>
    wal_log f' w' = wal_log f w \<and> ww_buffer w' = [] \<and> ww_filepath w' = ww_filepath w \<and>
    ww_batch_size w' = ww_batch_size w"
  by (auto simp: wal_flush_def wal_log_def split: if_splits)

lemma wal_append_log: "wal_append f w r = (f', w') \<Longrightarrow>
    wal_log f' w' = wal_log f w @ wal_write_record r \<and> ww_filepath w' = ww_filepath w \<and>
    ww_batch_size w' = ww_batch_size w"
  using wal_flush_log [of f "w\<lparr>ww_buffer := ww_buffer w @ [r]\<rparr>" f' w']
  by (auto simp: wal_append_def wal_log_def Let_def split: if_splits)

lemma wal_append_pending: "wal_append f w r = (f', w') \<Longrightarrow>
    ww_buffer w' = [] \<or> length (ww_buffer w') < ww_batch_size w' \<and> ww_buffer w' = ww_buffer w @ [r]"
  using wal_flush_log [of f "w\<lparr>ww_buffer := ww_buffer w @ [r]\<rparr>" f' w']
  by (auto simp: wal_append_def Let_def split: if_splits)

lemma wal_append_all_log:
  assumes "wal_append_all f w rs = (f', w')"
  shows "wal_log f' w' = wal_log f w @ concat (map wal_write_record rs)"
    "ww_filepath w' = ww_filepath w" "ww_batch_size w' = ww_batch_size w"
  using assms
  by (induction rs arbitrary: f w) (auto split: prod.splits dest: wal_append_log)

text \<open>After any appends to a writer with nothing pending, what is pending is a suffix of them
  shorter than the batch, or nothing.\<close>

lemma wal_append_all_pending:
  assumes "wal_append_all f w rs = (f', w')"
  shows "ww_buffer w' = [] \<or> ww_buffer w' = ww_buffer w @ rs \<or>
    (\<exists>m \<le> length rs. ww_buffer w' = drop m rs)"
    and "length (ww_buffer w) < max 1 (ww_batch_size w) \<Longrightarrow>
      length (ww_buffer w') < max 1 (ww_batch_size w)"
proof -
  show "ww_buffer w' = [] \<or> ww_buffer w' = ww_buffer w @ rs \<or>
    (\<exists>m \<le> length rs. ww_buffer w' = drop m rs)"
    using assms
  proof (induction rs arbitrary: f w)
    case (Cons r rs)
    obtain f1 w1 where s: "wal_append f w r = (f1, w1)" by force
    from Cons.prems s have "wal_append_all f1 w1 rs = (f', w')" by simp
    from Cons.IH [OF this] consider "ww_buffer w' = []" | "ww_buffer w' = ww_buffer w1 @ rs"
      | m where "m \<le> length rs" "ww_buffer w' = drop m rs" by blast
    then show ?case
    proof cases
      case 2
      from wal_append_pending [OF s] 2 show ?thesis
        by (metis append.assoc append_Cons append_Nil drop0 drop_Suc_Cons length_Cons
            Suc_le_mono le0)
    next
      case (3 m)
      then have "Suc m \<le> length (r # rs)" "ww_buffer w' = drop (Suc m) (r # rs)" by simp_all
      then show ?thesis by blast
    qed simp
  qed simp
  show "length (ww_buffer w') < max 1 (ww_batch_size w)"
    if "length (ww_buffer w) < max 1 (ww_batch_size w)"
    using assms that
  proof (induction rs arbitrary: f w)
    case (Cons r rs)
    obtain f1 w1 where s: "wal_append f w r = (f1, w1)" by force
    with Cons.prems have "wal_append_all f1 w1 rs = (f', w')" by simp
    moreover have "length (ww_buffer w1) < max 1 (ww_batch_size w1)"
      using wal_append_pending [OF s] by auto
    ultimately show ?case
      using Cons.IH [of f1 w1] wal_append_log [OF s] by simp
  qed simp
qed

lemma wal_flush_files: "fs_files f p \<noteq> None \<Longrightarrow> fs_files (fst (wal_flush f w)) p \<noteq> None"
  by (simp add: wal_flush_def fs_files_append)

lemma wal_append_files: "fs_files f p \<noteq> None \<Longrightarrow> fs_files (fst (wal_append f w r)) p \<noteq> None"
  using wal_flush_files [of f p "w\<lparr>ww_buffer := ww_buffer w @ [r]\<rparr>"]
  by (simp add: wal_append_def Let_def)

lemma wal_append_all_files:
  "fs_files f p \<noteq> None \<Longrightarrow> fs_files (fst (wal_append_all f w rs)) p \<noteq> None"
proof (induction rs arbitrary: f w)
  case (Cons r rs)
  obtain f1 w1 where s: "wal_append f w r = (f1, w1)" by force
  with Cons wal_append_files [of f p w r] show ?case by simp
qed simp

text \<open>A writer opened on a log of whole records, after some appends: the bytes in the file are the
  old records and a prefix of the new ones, and fewer than a batch are missing.\<close>

lemma wal_session:
  assumes "wal_writer_open f p b = Inr (f0, w0)" "wal_append_all f0 w0 rs = (f1, w1)"
    and "fs_contents f p = concat (map wal_write_record rs0)"
  obtains m where "fs_contents f1 p = concat (map wal_write_record (rs0 @ take m rs))"
    "length rs - m < max 1 b" "ww_buffer w1 = drop m rs" "ww_filepath w1 = p"
    "fs_files f1 p \<noteq> None" "m \<le> length rs"
proof -
  have w0: "ww_buffer w0 = []" "ww_filepath w0 = p" "ww_batch_size w0 = b"
      "fs_files f0 p \<noteq> None" "wal_log f0 w0 = concat (map wal_write_record rs0)"
    using assms(1,3)
    by (auto simp: wal_writer_open_def Let_def wal_log_def fs_files_append split: if_splits)
  have suffix: "\<exists>m \<le> length rs. ww_buffer w1 = drop m rs"
    using wal_append_all_pending(1) [OF assms(2)] w0(1)
    by (metis append_Nil drop0 drop_all le0 le_refl)
  then obtain m where m: "m \<le> length rs" "ww_buffer w1 = drop m rs" by blast
  have "fs_contents f1 p @ concat (map wal_write_record (drop m rs)) =
      concat (map wal_write_record rs0) @ concat (map wal_write_record (take m rs)) @
      concat (map wal_write_record (drop m rs))"
    using wal_append_all_log [OF assms(2)] w0 m(2)
    by (simp add: wal_log_def codec_simps)
  then have "fs_contents f1 p = concat (map wal_write_record (rs0 @ take m rs))" by simp
  moreover have "length rs - m < max 1 b"
    using wal_append_all_pending(2) [OF assms(2)] w0 m(2) by simp
  ultimately show thesis
    using that m wal_append_all_log(2) [OF assms(2)] w0(2) wal_append_all_files [OF w0(4)] assms(2)
    by (metis fst_conv)
qed

lemma wal_reader_drains:
  assumes "fs_files f p \<noteq> None" "list_all wal_ok rs"
    "fs_contents f p = take n (concat (map wal_write_record rs))"
  obtains r where "wal_reader_open f p = Inr r"
    "wal_read_all f r = Some (whole_records wal_write_record n rs)"
proof -
  have "wal_reader_open f p = Inr \<lparr>wrd_stream = is_open p, wrd_records_read = 0\<rparr>"
    using assms(1) by (auto simp: wal_reader_open_def)
  moreover have "is_at f (is_open p) (take n (concat (map wal_write_record rs)))"
    using is_at_open [of f p] assms(3) by simp
  ultimately show thesis
    using that wal_read_all_take [OF assms(2), of f "\<lparr>wrd_stream = is_open p, wrd_records_read = 0\<rparr>" n]
    by simp
qed

section \<open>Properties\<close>

definition wal_demo_fs :: fs where
  "wal_demo_fs = \<lparr>fs_files = (\<lambda>_. None), fs_can_open = (\<lambda>_. True)\<rparr>"

definition wal_demo_records :: "wal_record list" where
  "wal_demo_records =
     [\<lparr>wr_op_type = WAL_SET, wr_key = ''a'', wr_value = ''one'', wr_ttl_ns = 0\<rparr>,
      \<lparr>wr_op_type = WAL_SET, wr_key = ''b'', wr_value = [], wr_ttl_ns = 7\<rparr>,
      \<lparr>wr_op_type = WAL_DELETE, wr_key = ''a'', wr_value = [], wr_ttl_ns = 0\<rparr>]"

text \<open>C12. Write-ahead log round trip: a writer opened on a log that holds the records rs0, with any
  batch size, given the records rs and then closed, leaves a file from which the reader delivers
  rs0 followed by rs, every field intact, and then stops.\<close>

theorem wal_write_read_roundtrip:
  assumes "wal_writer_open f p b = Inr (f0, w0)"
    and "fs_contents f p = concat (map wal_write_record rs0)"
    and "list_all wal_ok (rs0 @ rs)"
    and "wal_append_all f0 w0 rs = (f1, w1)"
  shows "\<exists>r. wal_reader_open (wal_writer_close f1 w1) p = Inr r \<and>
     wal_read_all (wal_writer_close f1 w1) r = Some (rs0 @ rs)"
proof -
  let ?f = "wal_writer_close f1 w1" and ?all = "concat (map wal_write_record (rs0 @ rs))"
  obtain m where m: "fs_contents f1 p = concat (map wal_write_record (rs0 @ take m rs))"
      "ww_buffer w1 = drop m rs" "ww_filepath w1 = p" "fs_files f1 p \<noteq> None"
    using wal_session [OF assms(1,4,2)] by metis
  have "fs_contents ?f p = ?all"
  proof (cases "drop m rs = []")
    case True
    then show ?thesis using m by (simp add: wal_writer_close_def wal_flush_def)
  next
    case False
    with m show ?thesis
      by (simp add: wal_writer_close_def wal_flush_def codec_simps)
  qed
  moreover have "fs_files ?f p \<noteq> None"
    using m by (auto simp: wal_writer_close_def wal_flush_def fs_files_append)
  ultimately show ?thesis
    using wal_reader_drains [of ?f p "rs0 @ rs" "length ?all"] assms(3)
      whole_records_all [of wal_write_record "rs0 @ rs" "length ?all"] by (metis le_refl take_all)
qed

theorem wal_write_read_roundtrip_witness:
  "\<exists>f0 w0 f1 w1 r. wal_writer_open wal_demo_fs ''w'' 2 = Inr (f0, w0) \<and>
     wal_append_all f0 w0 wal_demo_records = (f1, w1) \<and>
     wal_reader_open (wal_writer_close f1 w1) ''w'' = Inr r \<and>
     wal_read_all (wal_writer_close f1 w1) r = Some wal_demo_records"
proof -
  obtain f0 w0 where "wal_writer_open wal_demo_fs ''w'' 2 = Inr (f0, w0)"
    by (simp add: wal_writer_open_def wal_demo_fs_def Let_def)
  moreover obtain f1 w1 where "wal_append_all f0 w0 wal_demo_records = (f1, w1)" by force
  moreover have "fs_contents wal_demo_fs ''w'' = concat (map wal_write_record [])"
    by (simp add: fs_contents_def wal_demo_fs_def)
  moreover have "list_all wal_ok ([] @ wal_demo_records)"
    by (simp add: wal_demo_records_def wal_ok_def op_of_code_def)
  ultimately show ?thesis
    using wal_write_read_roundtrip [of wal_demo_fs "''w''" 2 f0 w0 "[]" wal_demo_records f1 w1]
    by auto
qed

text \<open>C13. Crash consistency of the log: if the process stops after any number of appends, without
  a final flush, and only the first n bytes of the file survive (a torn write), the reader
  delivers a prefix of the records that were appended and stops at the torn one. If every byte
  written survives, fewer than a batch of the appended records are missing.\<close>

theorem wal_crash_recovers_prefix:
  assumes "wal_writer_open f p b = Inr (f0, w0)"
    and "fs_contents f p = concat (map wal_write_record rs0)"
    and "list_all wal_ok (rs0 @ rs)"
    and "wal_append_all f0 w0 rs = (f1, w1)"
    and "crashed = fs_write f1 p (take n (fs_contents f1 p))"
  shows "\<exists>r m. wal_reader_open crashed p = Inr r \<and>
     wal_read_all crashed r = Some (take m (rs0 @ rs)) \<and>
     (length (fs_contents f1 p) \<le> n \<longrightarrow> length (rs0 @ rs) < m + max 1 b)"
proof -
  obtain m where m: "fs_contents f1 p = concat (map wal_write_record (rs0 @ take m rs))"
      "length rs - m < max 1 b" "fs_files f1 p \<noteq> None" "m \<le> length rs"
    using wal_session [OF assms(1,4,2)] by metis
  let ?rs = "rs0 @ take m rs"
  have "list_all wal_ok ?rs"
    using assms(3) by (auto simp: list_all_iff dest: in_set_takeD)
  moreover have "fs_files crashed p \<noteq> None" "fs_contents crashed p = take n (fs_contents f1 p)"
    unfolding assms(5) by (simp_all add: fs_write_def) (simp add: fs_contents_def)
  ultimately obtain r where r: "wal_reader_open crashed p = Inr r"
      "wal_read_all crashed r = Some (whole_records wal_write_record n ?rs)"
    using wal_reader_drains [of crashed p ?rs n] unfolding m(1) by blast
  have pre: "?rs = take (length rs0 + m) (rs0 @ rs)" by simp
  show ?thesis
  proof (cases "length (fs_contents f1 p) \<le> n")
    case True
    then have "whole_records wal_write_record n ?rs = take (length rs0 + m) (rs0 @ rs)"
      using whole_records_all [of wal_write_record ?rs n] m(1) by simp
    then show ?thesis
      using r m(2,4) by (intro exI [of _ r] exI [of _ "length rs0 + m"]) auto
  next
    case False
    obtain j where "whole_records wal_write_record n ?rs = take j ?rs"
      using whole_records_take by blast
    then have "whole_records wal_write_record n ?rs = take (min j (length rs0 + m)) (rs0 @ rs)"
      unfolding pre by (simp only: take_take)
    with False r show ?thesis
      by (intro exI [of _ r] exI [of _ "min j (length rs0 + m)"]) simp
  qed
qed

theorem wal_crash_recovers_prefix_witness:
  "\<exists>f0 w0 f1 w1 r m. wal_writer_open wal_demo_fs ''w'' 2 = Inr (f0, w0) \<and>
     wal_append_all f0 w0 wal_demo_records = (f1, w1) \<and>
     wal_reader_open (fs_write f1 ''w'' (take 30 (fs_contents f1 ''w''))) ''w'' = Inr r \<and>
     wal_read_all (fs_write f1 ''w'' (take 30 (fs_contents f1 ''w''))) r =
       Some (take m wal_demo_records)"
proof -
  obtain f0 w0 where "wal_writer_open wal_demo_fs ''w'' 2 = Inr (f0, w0)"
    by (simp add: wal_writer_open_def wal_demo_fs_def Let_def)
  moreover obtain f1 w1 where "wal_append_all f0 w0 wal_demo_records = (f1, w1)" by force
  moreover have "fs_contents wal_demo_fs ''w'' = concat (map wal_write_record [])"
    by (simp add: fs_contents_def wal_demo_fs_def)
  moreover have "list_all wal_ok ([] @ wal_demo_records)"
    by (simp add: wal_demo_records_def wal_ok_def op_of_code_def)
  ultimately show ?thesis
    using wal_crash_recovers_prefix [of wal_demo_fs "''w''" 2 f0 w0 "[]" wal_demo_records f1 w1
        "fs_write f1 ''w'' (take 30 (fs_contents f1 ''w''))" 30]
    by auto
qed

end
