(* ===== verification/Hash_Table.thy ===== *)
theory Hash_Table
  imports Complex_Main KV_Buckets LRU_Policy LFU_Policy Wal_Log
begin

text \<open>
  \<open>HashTable\<close> of \<open>engine/include/hash_table.h\<close> and \<open>engine/src/hash_table.cpp\<close>: the table with
  its eviction policy and its optional write-ahead log.

  Every operation takes and returns the table; those that write the log take and return the file
  system as well. A reading of \<open>steady_clock\<close> is an argument, as are the bucket indices that the
  expiry scanner draws at random. The eviction loop is a \<open>partial_function\<close>, so that an eviction
  that does not end would be the value None; the lemmas show that it ends.
\<close>

section \<open>The policy object\<close>

text \<open>\<open>eviction_policy_\<close> with the one of \<open>lru_policy_\<close>, \<open>lfu_policy_\<close> that it selects, and the
  dispatch the table writes out at every use.\<close>

datatype eviction_policy_kind = LRU | LFU

datatype policy = LRU_Policy lru_policy | LFU_Policy lfu_policy

fun policy_new :: "eviction_policy_kind \<Rightarrow> nat \<Rightarrow> policy" where
  "policy_new LRU memory_limit = LRU_Policy (lru_new memory_limit)"
| "policy_new LFU memory_limit = LFU_Policy (lfu_new memory_limit)"

fun pol_on_access :: "policy \<Rightarrow> string \<Rightarrow> u64 \<Rightarrow> policy" where
  "pol_on_access (LRU_Policy p) key st = LRU_Policy (lru_on_access p key st)"
| "pol_on_access (LFU_Policy p) key st = LFU_Policy (lfu_on_access p key st)"

fun pol_on_insert :: "policy \<Rightarrow> string \<Rightarrow> nat \<Rightarrow> u64 \<Rightarrow> policy" where
  "pol_on_insert (LRU_Policy p) key sz st = LRU_Policy (lru_on_insert p key sz st)"
| "pol_on_insert (LFU_Policy p) key sz st = LFU_Policy (lfu_on_insert p key sz st)"

fun pol_on_delete :: "policy \<Rightarrow> string \<Rightarrow> nat \<Rightarrow> policy" where
  "pol_on_delete (LRU_Policy p) key sz = LRU_Policy (lru_on_delete p key sz)"
| "pol_on_delete (LFU_Policy p) key sz = LFU_Policy (lfu_on_delete p key sz)"

fun pol_candidate :: "policy \<Rightarrow> string \<times> policy" where
  "pol_candidate (LRU_Policy p) = (lru_get_eviction_candidate p, LRU_Policy p)"
| "pol_candidate (LFU_Policy p) = (case lfu_get_eviction_candidate p of (k, p') \<Rightarrow> (k, LFU_Policy p'))"

fun pol_should_evict :: "policy \<Rightarrow> bool" where
  "pol_should_evict (LRU_Policy p) = lru_should_evict p"
| "pol_should_evict (LFU_Policy p) = lfu_should_evict p"

fun pol_tracked :: "policy \<Rightarrow> string \<Rightarrow> (nat \<times> u64) option" where
  "pol_tracked (LRU_Policy p) = lru_tracked p"
| "pol_tracked (LFU_Policy p) = lfu_tracked p"

fun pol_mem :: "policy \<Rightarrow> nat" where
  "pol_mem (LRU_Policy p) = lru_current_memory p"
| "pol_mem (LFU_Policy p) = lfu_current_memory p"

fun pol_limit :: "policy \<Rightarrow> nat" where
  "pol_limit (LRU_Policy p) = lru_memory_limit p"
| "pol_limit (LFU_Policy p) = lfu_memory_limit p"

fun pol_inv :: "policy \<Rightarrow> bool" where
  "pol_inv (LRU_Policy p) \<longleftrightarrow> lru_inv p"
| "pol_inv (LFU_Policy p) \<longleftrightarrow> lfu_inv p"

fun pol_kind :: "policy \<Rightarrow> eviction_policy_kind" where
  "pol_kind (LRU_Policy p) = LRU"
| "pol_kind (LFU_Policy p) = LFU"

text \<open>Which field of an entry the table hands to the policy.\<close>

definition ve_stamp :: "eviction_policy_kind \<Rightarrow> value_entry \<Rightarrow> u64" where
  "ve_stamp kind v = (case kind of LRU \<Rightarrow> ve_last_access_ns v | LFU \<Rightarrow> ve_access_count v)"

interpretation pol: eviction_policy pol_on_access pol_on_insert pol_on_delete pol_candidate
  pol_should_evict pol_tracked pol_mem pol_limit pol_inv
proof (unfold_locales, goal_cases)
  case (1 p) then show ?case
    by (cases p) (auto dest: lru.finite_tracked lfu.finite_tracked)
next
  case (2 p) then show ?case
    by (cases p) (simp_all add: lru.mem_tracked lfu.mem_tracked)
next
  case (3 p) then show ?case
    by (cases p) (simp_all add: lru.should_evict_iff lfu.should_evict_iff)
next
  case (4 p k sz st) then show ?case
    by (cases p) (simp_all add: lru.insert_invar lfu.insert_invar)
next
  case (5 p k sz st) then show ?case
    by (cases p) (simp_all add: lru.insert_tracked lfu.insert_tracked)
next
  case (6 p k st) then show ?case
    by (cases p) (simp_all add: lru.access_invar lfu.access_invar)
next
  case (7 p k sz st0 st) then show ?case
    by (cases p) (simp_all add: lru.access_tracked lfu.access_tracked)
next
  case (8 p k sz st) then show ?case
    by (cases p) (simp_all add: lru.delete_invar lfu.delete_invar)
next
  case (9 p k sz st) then show ?case
    by (cases p) (simp_all add: lru.delete_tracked lfu.delete_tracked)
next
  case (10 p k sz st) then show ?case
    by (cases p) (simp_all add: lru.limit_insert lfu.limit_insert)
next
  case (11 p k st) then show ?case
    by (cases p) (simp_all add: lru.limit_access lfu.limit_access)
next
  case (12 p k sz) then show ?case
    by (cases p) (simp_all add: lru.limit_delete lfu.limit_delete)
next
  case (13 p k p') then show ?case
    by (cases p) (auto split: prod.splits dest: lfu.candidate_tracked)
next
  case (14 p k p') then show ?case
    by (cases p) (auto split: prod.splits dest: lfu.candidate_limit)
next
  case (15 p k p') then show ?case
    using lru.candidate_dom lfu.candidate_dom
    by (cases p) (fastforce split: prod.splits)+
next
  case (16 p p') then show ?case
    by (cases p) (auto split: prod.splits dest: lfu.candidate_none)
next
  case (17 p p') then show ?case
    using lru.candidate_stuck lfu.candidate_stuck
    by (cases p) (fastforce split: prod.splits)+
next
  case (18 p k p' sz st) then show ?case
    using lru.evict_invar lfu.evict_invar
    by (cases p) (fastforce split: prod.splits)+
next
  case (19 p k p' sz st) then show ?case
    using lru.evict_tracked lfu.evict_tracked
    by (cases p) (fastforce split: prod.splits)+
qed

lemma pol_kind_simps [frame_simps, simp]:
  "pol_kind (pol_on_access p k st) = pol_kind p"
  "pol_kind (pol_on_insert p k sz st) = pol_kind p"
  "pol_kind (pol_on_delete p k sz) = pol_kind p"
  "pol_kind (snd (pol_candidate p)) = pol_kind p"
  by (cases p; simp split: prod.split)+

declare pol.limit_insert [simp] pol.limit_access [simp] pol.limit_delete [simp]

section \<open>The table\<close>

record hash_table =
  ht_buckets :: "chain list"
  ht_num_entries :: nat
  ht_policy :: policy
  ht_wal_writer :: "wal_writer option"
  ht_wal_path :: string

definition ht_wal_append :: "fs \<Rightarrow> hash_table \<Rightarrow> wal_record \<Rightarrow> fs \<times> hash_table" where
  "ht_wal_append f t r =
     (case ht_wal_writer t of
        None \<Rightarrow> (f, t)
      | Some w \<Rightarrow> (case wal_append f w r of (f', w') \<Rightarrow> (f', t\<lparr>ht_wal_writer := Some w'\<rparr>)))"

definition set_record :: "string \<Rightarrow> value_entry \<Rightarrow> wal_record" where
  "set_record key v = \<lparr>wr_op_type = WAL_SET, wr_key = key, wr_value = ve_value v,
     wr_ttl_ns = ve_expiry_ns v\<rparr>"

definition delete_record :: "string \<Rightarrow> wal_record" where
  "delete_record key = \<lparr>wr_op_type = WAL_DELETE, wr_key = key, wr_value = [], wr_ttl_ns = 0\<rparr>"

definition ht_remove :: "fs \<Rightarrow> hash_table \<Rightarrow> string \<Rightarrow> bool \<times> fs \<times> hash_table" where
  "ht_remove f t key =
     (let (f, t) = ht_wal_append f t (delete_record key);
          i = bucket_idx (ht_hash key) (length (ht_buckets t));
          c = ht_buckets t ! i
      in case chain_find key c of
           None \<Rightarrow> (False, f, t)
         | Some kv \<Rightarrow>
             (True, f, t\<lparr>ht_buckets := (ht_buckets t)[i := chain_erase key c],
                         ht_num_entries := ht_num_entries t - 1,
                         ht_policy := pol_on_delete (ht_policy t) key
                                        (length (ve_value (kv_value kv)))\<rparr>))"

partial_function (option) evict_if_needed :: "fs \<Rightarrow> hash_table \<Rightarrow> (fs \<times> hash_table) option" where
  "evict_if_needed f t =
     (if pol_should_evict (ht_policy t)
      then case pol_candidate (ht_policy t) of (victim, p) \<Rightarrow>
             if victim = [] then Some (f, t\<lparr>ht_policy := p\<rparr>)
             else case ht_remove f (t\<lparr>ht_policy := p\<rparr>) victim of (_, f', t') \<Rightarrow> evict_if_needed f' t'
      else Some (f, t))"

text \<open>\<open>load_factor > 0.75\<close> with \<open>load_factor = num_entries_ / buckets_.size()\<close>, over the integers:
  dividing by a power of two and comparing with 0.75 are exact in double precision.\<close>

definition resize_if_needed :: "hash_table \<Rightarrow> hash_table" where
  "resize_if_needed t =
     (if 3 * length (ht_buckets t) < 4 * ht_num_entries t
      then t\<lparr>ht_buckets := rehash (length (ht_buckets t) * 2) (ht_buckets t)\<rparr>
      else t)"

definition ht_store :: "hash_table \<Rightarrow> string \<Rightarrow> value_entry \<Rightarrow> hash_table" where
  "ht_store t key value =
     (let h = ht_hash key;
          i = bucket_idx h (length (ht_buckets t));
          c = ht_buckets t ! i;
          st = ve_stamp (pol_kind (ht_policy t)) value
      in case chain_find key c of
           Some kv \<Rightarrow>
             t\<lparr>ht_buckets := (ht_buckets t)[i := chain_update key
                                (\<lambda>kv. kv\<lparr>kv_value := value, kv_hash := h\<rparr>) c],
               ht_policy := pol_on_insert
                 (pol_on_delete (ht_policy t) key (length (ve_value (kv_value kv))))
                 key (length (ve_value value)) st\<rparr>
         | None \<Rightarrow>
             t\<lparr>ht_buckets := (ht_buckets t)[i := c @ [\<lparr>kv_key = key, kv_value = value, kv_hash = h\<rparr>]],
               ht_num_entries := ht_num_entries t + 1,
               ht_policy := pol_on_insert (ht_policy t) key (length (ve_value value)) st\<rparr>)"

definition ht_insert :: "fs \<Rightarrow> hash_table \<Rightarrow> string \<Rightarrow> value_entry \<Rightarrow> (bool \<times> fs \<times> hash_table) option" where
  "ht_insert f t key value =
     (let (f, t) = ht_wal_append f t (set_record key value)
      in Option.bind (evict_if_needed f t)
           (\<lambda>(f, t). Some (True, f, ht_store (resize_if_needed t) key value)))"

definition is_expired :: "u64 \<Rightarrow> value_entry \<Rightarrow> bool" where
  "is_expired now v \<longleftrightarrow> (if ve_expiry_ns v = 0 then False else ve_expiry_ns v \<le> now)"

definition ht_get :: "u64 \<Rightarrow> u64 \<Rightarrow> hash_table \<Rightarrow> string \<Rightarrow> value_entry option \<times> hash_table" where
  "ht_get now_check now_access t key =
     (let i = bucket_idx (ht_hash key) (length (ht_buckets t));
          c = ht_buckets t ! i
      in case chain_find key c of
           None \<Rightarrow> (None, t)
         | Some kv \<Rightarrow>
             if is_expired now_check (kv_value kv) then (None, t)
             else let v = (kv_value kv)\<lparr>ve_access_count := ve_access_count (kv_value kv) + 1,
                                        ve_last_access_ns := now_access\<rparr>
                  in (Some v,
                      t\<lparr>ht_buckets := (ht_buckets t)[i := chain_update key
                                         (\<lambda>kv. kv\<lparr>kv_value := v\<rparr>) c],
                        ht_policy := pol_on_access (ht_policy t) key
                                       (ve_stamp (pol_kind (ht_policy t)) v)\<rparr>))"

section \<open>Construction and the write-ahead log\<close>

text \<open>The capacity after k rounds of \<open>capacity <<= 1\<close> is \<open>2 ^ k\<close>.\<close>

function ht_capacity :: "nat \<Rightarrow> nat \<Rightarrow> nat" where
  "ht_capacity k initial_capacity =
     (if 2 ^ k < initial_capacity then ht_capacity (Suc k) initial_capacity else 2 ^ k)"
  by pat_completeness auto

termination
  by (relation "measure (\<lambda>(k, n). n - 2 ^ k)") (auto simp: diff_less_mono2)

declare ht_capacity.simps [simp del]

text \<open>\<open>make_unique\<close> opens the new log before the assignment destroys, and thereby flushes, the old
  writer. If the open throws, the old writer stays, with \<open>wal_path_\<close> already changed.\<close>

definition enable_wal :: "fs \<Rightarrow> hash_table \<Rightarrow> string \<Rightarrow> nat \<Rightarrow> wal_error option \<times> fs \<times> hash_table" where
  "enable_wal f t path batch_size =
     (let t = t\<lparr>ht_wal_path := path\<rparr>
      in case wal_writer_open f path batch_size of
           Inl e \<Rightarrow> (Some e, f, t)
         | Inr (f, w) \<Rightarrow>
             (None, (case ht_wal_writer t of None \<Rightarrow> f | Some w0 \<Rightarrow> wal_writer_close f w0),
              t\<lparr>ht_wal_writer := Some w\<rparr>))"

definition flush_wal :: "fs \<Rightarrow> hash_table \<Rightarrow> fs \<times> hash_table" where
  "flush_wal f t =
     (case ht_wal_writer t of
        None \<Rightarrow> (f, t)
      | Some w \<Rightarrow> (case wal_flush f w of (f', w') \<Rightarrow> (f', t\<lparr>ht_wal_writer := Some w'\<rparr>)))"

definition wal_size :: "hash_table \<Rightarrow> nat" where
  "wal_size t = (case ht_wal_writer t of None \<Rightarrow> 0 | Some w \<Rightarrow> ww_file_size w)"

text \<open>\<open>truncate_wal\<close>: a log that cannot be opened for truncation is left alone; the error shows
  when \<open>enable_wal\<close>, with its default batch size, opens it again.\<close>

definition truncate_wal :: "fs \<Rightarrow> hash_table \<Rightarrow> wal_error option \<times> fs \<times> hash_table" where
  "truncate_wal f t =
     (if ht_wal_path t = [] then (None, f, t)
      else let f = (case ht_wal_writer t of None \<Rightarrow> f | Some w \<Rightarrow> wal_writer_close f w);
               t = t\<lparr>ht_wal_writer := None\<rparr>;
               f = (if fs_can_open f (ht_wal_path t) then fs_write f (ht_wal_path t) [] else f)
           in enable_wal f t (ht_wal_path t) 100)"

definition ht_new :: "fs \<Rightarrow> nat \<Rightarrow> nat \<Rightarrow> eviction_policy_kind \<Rightarrow> string \<Rightarrow>
    wal_error option \<times> fs \<times> hash_table" where
  "ht_new f initial_capacity memory_limit kind wal_path =
     (let t = \<lparr>ht_buckets = replicate (ht_capacity 0 initial_capacity) [], ht_num_entries = 0,
               ht_policy = policy_new kind memory_limit, ht_wal_writer = None, ht_wal_path = []\<rparr>
      in if wal_path = [] then (None, f, t) else enable_wal f t wal_path 100)"

section \<open>Expiry scanner and statistics\<close>

text \<open>
  One \<open>scan_expired_keys\<close>: the buckets drawn are \<open>samples\<close> (20 of them in the code), and
  \<open>now i\<close> is the clock as the i-th call of \<open>is_expired\<close> reads it. A bucket may be drawn twice, so
  a key may be listed twice.
\<close>

definition scan_expired :: "(nat \<Rightarrow> u64) \<Rightarrow> hash_table \<Rightarrow> nat list \<Rightarrow> string list" where
  "scan_expired now t samples =
     map (kv_key \<circ> snd)
       (filter (\<lambda>(i, kv). is_expired (now i) (kv_value kv))
          (enumerate 0 (concat (map (\<lambda>b. ht_buckets t ! b) samples))))"

fun ht_remove_all :: "fs \<Rightarrow> hash_table \<Rightarrow> string list \<Rightarrow> fs \<times> hash_table" where
  "ht_remove_all f t [] = (f, t)"
| "ht_remove_all f t (k # ks) = (case ht_remove f t k of (_, f', t') \<Rightarrow> ht_remove_all f' t' ks)"

definition scan_expired_keys :: "(nat \<Rightarrow> u64) \<Rightarrow> nat list \<Rightarrow> fs \<Rightarrow> hash_table \<Rightarrow> fs \<times> hash_table" where
  "scan_expired_keys now samples f t = ht_remove_all f t (scan_expired now t samples)"

text \<open>The \<open>double\<close> of the source is the exact quotient here; a table always has a bucket.\<close>

record hash_table_stats =
  st_num_entries :: nat
  st_num_buckets :: nat
  st_load_factor :: rat
  st_num_collisions :: nat
  st_max_chain_length :: nat

definition stats_step :: "nat \<times> nat \<Rightarrow> chain \<Rightarrow> nat \<times> nat" where
  "stats_step = (\<lambda>(coll, mx) c. (if 1 < length c then coll + (length c - 1) else coll, max mx (length c)))"

definition get_stats :: "hash_table \<Rightarrow> hash_table_stats" where
  "get_stats t =
     (case foldl stats_step (0, 0) (ht_buckets t) of
        (coll, mx) \<Rightarrow> \<lparr>st_num_entries = ht_num_entries t, st_num_buckets = length (ht_buckets t),
                       st_load_factor = of_nat (ht_num_entries t) / of_nat (length (ht_buckets t)),
                       st_num_collisions = coll, st_max_chain_length = mx\<rparr>)"

end
