(* ===== verification/Hash_Table_Correct.thy ===== *)
theory Hash_Table_Correct
  imports Hash_Table
begin

text \<open>
  Correctness of the hash table. \<open>ht_map\<close> is the finite map the table stores and \<open>ht_inv\<close> its
  representation invariant: pairs sit in the bucket of their hash, keys are distinct, the counter
  is right, the bucket count is a power of two, and the policy tracks exactly the stored keys with
  their sizes and stamps. The lemmas show the effect of each operation on the map, on the memory
  in use and on the log; the properties at the end are what a client of the table may rely on.
\<close>

section \<open>Abstraction and invariant\<close>

definition ht_map :: "hash_table \<Rightarrow> string \<Rightarrow> value_entry option" where
  "ht_map t = buckets_map (ht_buckets t)"

definition ht_wf :: "hash_table \<Rightarrow> bool" where
  "ht_wf t \<longleftrightarrow> buckets_wf (ht_buckets t) \<and> (\<exists>k. length (ht_buckets t) = 2 ^ k) \<and>
     ht_num_entries t = length (concat (ht_buckets t))"

definition ht_track :: "eviction_policy_kind \<Rightarrow> (string \<Rightarrow> value_entry option) \<Rightarrow>
    string \<Rightarrow> (nat \<times> u64) option" where
  "ht_track kind m = (\<lambda>k. map_option (\<lambda>v. (length (ve_value v), ve_stamp kind v)) (m k))"

definition ht_kind :: "hash_table \<Rightarrow> eviction_policy_kind" where
  "ht_kind t = pol_kind (ht_policy t)"

definition ht_inv :: "hash_table \<Rightarrow> bool" where
  "ht_inv t \<longleftrightarrow> ht_wf t \<and> pol_inv (ht_policy t) \<and>
     pol_tracked (ht_policy t) = ht_track (ht_kind t) (ht_map t)"

text \<open>The bytes of the values of a map: what the memory limit is about.\<close>

definition map_bytes :: "(string \<Rightarrow> value_entry option) \<Rightarrow> nat" where
  "map_bytes m = (\<Sum>k\<in>dom m. length (ve_value (the (m k))))"

definition ht_limit :: "hash_table \<Rightarrow> nat" where
  "ht_limit t = pol_limit (ht_policy t)"

lemma dom_ht_track [simp]: "dom (ht_track kind m) = dom m"
  by (auto simp: ht_track_def)

lemma ht_track_upd [policy_simps]:
  "ht_track kind (m(k \<mapsto> v)) = (ht_track kind m)(k \<mapsto> (length (ve_value v), ve_stamp kind v))"
  by (auto simp: ht_track_def)

lemma ht_track_del [policy_simps]: "ht_track kind (m(k := None)) = (ht_track kind m)(k := None)"
  by (auto simp: ht_track_def)

lemma ht_track_None [policy_simps]: "ht_track kind m k = None \<longleftrightarrow> m k = None"
  by (simp add: ht_track_def)

lemma ht_track_Some: "m k = Some v \<Longrightarrow> ht_track kind m k = Some (length (ve_value v), ve_stamp kind v)"
  by (simp add: ht_track_def)

lemma tracked_size_ht_track: "tracked_size (ht_track kind m) = map_bytes m"
  unfolding tracked_size_def map_bytes_def dom_ht_track
  by (rule sum.cong) (auto simp: ht_track_def)

lemma ht_mem:
  assumes "ht_inv t"
  shows "pol_mem (ht_policy t) = map_bytes (ht_map t)"
  using assms by (simp add: ht_inv_def pol.mem_tracked tracked_size_ht_track)

lemma ht_should_evict:
  assumes "ht_inv t"
  shows "pol_should_evict (ht_policy t) \<longleftrightarrow> ht_limit t < map_bytes (ht_map t)"
  using ht_mem [OF assms] by (simp add: pol.should_evict_iff ht_limit_def)

lemma ht_finite: "ht_inv t \<Longrightarrow> finite (dom (ht_map t))"
  by (simp add: ht_inv_def ht_wf_def ht_map_def buckets_map_card)

lemma ht_size: "ht_inv t \<Longrightarrow> ht_num_entries t = card (dom (ht_map t))"
  by (simp add: ht_inv_def ht_wf_def ht_map_def buckets_map_card)

lemma map_bytes_insert:
  assumes "finite (dom m)" "m k = None"
  shows "map_bytes (m(k \<mapsto> v)) = map_bytes m + length (ve_value v)"
  using tracked_size_insert [of "ht_track LRU m" k] assms
  by (simp add: policy_simps flip: tracked_size_ht_track [of LRU])

lemma map_bytes_remove:
  assumes "finite (dom m)" "m k = Some v"
  shows "map_bytes m = map_bytes (m(k := None)) + length (ve_value v)"
  using tracked_size_remove [of "ht_track LRU m" k] assms
  by (simp add: policy_simps ht_track_Some flip: tracked_size_ht_track [of LRU])

lemma map_bytes_upd_le:
  assumes "finite (dom m)"
  shows "map_bytes (m(k \<mapsto> v)) \<le> map_bytes m + length (ve_value v)"
proof (cases "m k")
  case None
  then show ?thesis by (simp add: map_bytes_insert assms)
next
  case (Some v0)
  have "map_bytes (m(k \<mapsto> v)) = map_bytes (m(k := None)) + length (ve_value v)"
    using map_bytes_insert [of "m(k := None)" k v] assms by simp
  with map_bytes_remove [OF assms Some] show ?thesis by simp
qed

section \<open>What an operation writes to the log\<close>

text \<open>\<open>logs f w rs f' w'\<close>: going from f and the writer w to f' and w' put the records rs behind the
  pending ones, wrote some of them to the file in order, kept the rest pending, and touched no
  other file.\<close>

definition writer_logs :: "fs \<Rightarrow> wal_writer \<Rightarrow> wal_record list \<Rightarrow> fs \<Rightarrow> wal_writer \<Rightarrow> bool" where
  "writer_logs f a rs f' b \<longleftrightarrow>
     ww_filepath b = ww_filepath a \<and> ww_batch_size b = ww_batch_size a \<and>
     (\<exists>xs. ww_buffer a @ rs = xs @ ww_buffer b \<and>
        fs_contents f' (ww_filepath a) =
          fs_contents f (ww_filepath a) @ concat (map wal_write_record xs)) \<and>
     (length (ww_buffer a) < max 1 (ww_batch_size a) \<longrightarrow>
        length (ww_buffer b) < max 1 (ww_batch_size a)) \<and>
     (\<forall>p. p \<noteq> ww_filepath a \<longrightarrow> fs_files f' p = fs_files f p) \<and>
     (fs_files f (ww_filepath a) \<noteq> None \<longrightarrow> fs_files f' (ww_filepath a) \<noteq> None) \<and>
     fs_can_open f' = fs_can_open f"

definition logs :: "fs \<Rightarrow> wal_writer option \<Rightarrow> wal_record list \<Rightarrow> fs \<Rightarrow> wal_writer option \<Rightarrow> bool" where
  "logs f w rs f' w' \<longleftrightarrow>
     (case w of
        None \<Rightarrow> w' = None \<and> f' = f
      | Some a \<Rightarrow> (case w' of None \<Rightarrow> False | Some b \<Rightarrow> writer_logs f a rs f' b))"

lemma writer_logs_refl: "writer_logs f a [] f a"
  by (auto simp: writer_logs_def)

lemma writer_logs_trans:
  assumes "writer_logs f a rs f1 b" "writer_logs f1 b rs' f2 c"
  shows "writer_logs f a (rs @ rs') f2 c"
proof -
  obtain xs where x: "ww_buffer a @ rs = xs @ ww_buffer b" "ww_filepath b = ww_filepath a"
      "fs_contents f1 (ww_filepath a) =
        fs_contents f (ww_filepath a) @ concat (map wal_write_record xs)"
    using assms(1) unfolding writer_logs_def by blast
  obtain ys where y: "ww_buffer b @ rs' = ys @ ww_buffer c"
      "fs_contents f2 (ww_filepath a) =
        fs_contents f1 (ww_filepath a) @ concat (map wal_write_record ys)"
    using assms(2) x(2) unfolding writer_logs_def by metis
  have "ww_buffer a @ rs @ rs' = (xs @ ys) @ ww_buffer c"
    using x(1) y(1) by (metis append.assoc)
  moreover have "fs_contents f2 (ww_filepath a) =
      fs_contents f (ww_filepath a) @ concat (map wal_write_record (xs @ ys))"
    using x(3) y(2) by simp
  ultimately have "\<exists>zs. ww_buffer a @ rs @ rs' = zs @ ww_buffer c \<and>
      fs_contents f2 (ww_filepath a) =
        fs_contents f (ww_filepath a) @ concat (map wal_write_record zs)" by blast
  with assms show ?thesis unfolding writer_logs_def by metis
qed

lemma writer_logs_log:
  assumes "writer_logs f a rs f' b"
  shows "wal_log f' b = wal_log f a @ concat (map wal_write_record rs)"
proof -
  obtain xs where x: "ww_buffer a @ rs = xs @ ww_buffer b" "ww_filepath b = ww_filepath a"
      "fs_contents f' (ww_filepath a) =
        fs_contents f (ww_filepath a) @ concat (map wal_write_record xs)"
    using assms unfolding writer_logs_def by blast
  have "wal_log f' b = fs_contents f (ww_filepath a) @
      concat (map wal_write_record (xs @ ww_buffer b))"
    by (simp add: wal_log_def x(2,3))
  then show ?thesis by (simp add: wal_log_def flip: x(1))
qed

lemma logs_refl: "logs f w [] f w"
  by (simp add: logs_def writer_logs_refl split: option.split)

lemma logs_trans: "logs f w rs f1 w1 \<Longrightarrow> logs f1 w1 rs' f2 w2 \<Longrightarrow> logs f w (rs @ rs') f2 w2"
  by (auto simp: logs_def intro: writer_logs_trans split: option.splits)

lemma wal_append_logs:
  assumes "wal_append f a r = (f', b)"
  shows "writer_logs f a [r] f' b"
proof (cases "ww_batch_size a \<le> Suc (length (ww_buffer a))")
  case True
  then have "f' = fs_append f (ww_filepath a) (concat (map wal_write_record (ww_buffer a @ [r])))"
      "ww_buffer b = []" "ww_filepath b = ww_filepath a" "ww_batch_size b = ww_batch_size a"
    using assms by (auto simp: wal_append_def wal_flush_def Let_def)
  then show ?thesis
    by (auto simp: writer_logs_def fs_files_append intro!: exI [of _ "ww_buffer a @ [r]"])
next
  case False
  then have "f' = f" "b = a\<lparr>ww_buffer := ww_buffer a @ [r]\<rparr>"
    using assms by (auto simp: wal_append_def Let_def)
  with False show ?thesis
    by (auto simp: writer_logs_def)
qed

lemma ht_wal_append_logs:
  obtains f' w where "ht_wal_append f t r = (f', t\<lparr>ht_wal_writer := w\<rparr>)"
    "logs f (ht_wal_writer t) [r] f' w"
proof (cases "ht_wal_writer t")
  case None
  then have "ht_wal_append f t r = (f, t\<lparr>ht_wal_writer := None\<rparr>)"
    by (cases t) (simp add: ht_wal_append_def)
  with that None show thesis by (simp add: logs_def)
next
  case (Some a)
  obtain f' b where s: "wal_append f a r = (f', b)" by force
  then have "ht_wal_append f t r = (f', t\<lparr>ht_wal_writer := Some b\<rparr>)"
    by (simp add: ht_wal_append_def Some)
  moreover have "logs f (Some a) [r] f' (Some b)"
    using wal_append_logs [OF s] by (simp add: logs_def)
  ultimately show thesis using that Some by simp
qed

section \<open>Removing\<close>

lemma ht_wf_writer [simp]: "ht_wf (t\<lparr>ht_wal_writer := w\<rparr>) \<longleftrightarrow> ht_wf t"
  by (simp add: ht_wf_def)

lemma ht_map_writer [simp]: "ht_map (t\<lparr>ht_wal_writer := w\<rparr>) = ht_map t"
  by (simp add: ht_map_def)

lemma ht_inv_writer [simp]: "ht_inv (t\<lparr>ht_wal_writer := w\<rparr>) \<longleftrightarrow> ht_inv t"
  by (simp add: ht_inv_def ht_kind_def)

lemma ht_wf_policy [simp]: "ht_wf (t\<lparr>ht_policy := p\<rparr>) \<longleftrightarrow> ht_wf t"
  by (simp add: ht_wf_def)

lemma ht_map_policy [simp]: "ht_map (t\<lparr>ht_policy := p\<rparr>) = ht_map t"
  by (simp add: ht_map_def)

lemma ht_remove_hit:
  assumes "ht_wf t" "ht_map t key = Some v"
  obtains f' t' where "ht_remove f t key = (True, f', t')" "ht_wf t'"
    "ht_map t' = (ht_map t)(key := None)"
    "ht_policy t' = pol_on_delete (ht_policy t) key (length (ve_value v))"
    "logs f (ht_wal_writer t) [delete_record key] f' (ht_wal_writer t')"
    "length (ht_buckets t') = length (ht_buckets t)"
    "ht_num_entries t = Suc (ht_num_entries t')"
proof -
  obtain f1 w where w: "ht_wal_append f t (delete_record key) = (f1, t\<lparr>ht_wal_writer := w\<rparr>)"
      "logs f (ht_wal_writer t) [delete_record key] f1 w"
    by (rule ht_wal_append_logs)
  let ?bs = "ht_buckets t"
  let ?i = "bucket_idx (ht_hash key) (length ?bs)"
  have wf: "buckets_wf ?bs" using assms(1) by (simp add: ht_wf_def)
  obtain kv where kv: "chain_find key (?bs ! ?i) = Some kv" "kv_value kv = v"
    using buckets_find_Some [OF wf] assms(2) unfolding ht_map_def by blast
  note er = buckets_erase [OF wf refl kv(1)]
  let ?t' = "t\<lparr>ht_wal_writer := w, ht_buckets := ?bs[?i := chain_erase key (?bs ! ?i)],
    ht_num_entries := ht_num_entries t - 1,
    ht_policy := pol_on_delete (ht_policy t) key (length (ve_value v))\<rparr>"
  have a: "ht_remove f t key = (True, f1, ?t')"
    by (simp add: ht_remove_def w(1) kv Let_def)
  have b: "ht_wf ?t'" using er assms(1) by (auto simp: ht_wf_def)
  have c: "ht_map ?t' = (ht_map t)(key := None)" using er by (simp add: ht_map_def)
  have d: "ht_num_entries t = Suc (ht_num_entries ?t')"
    using er(3) assms(1) by (simp add: ht_wf_def)
  show thesis by (rule that [OF a b c _ _ _ d]) (simp_all add: w(2))
qed

lemma ht_remove_miss:
  assumes "ht_wf t" "ht_map t key = None"
  obtains f' w where "ht_remove f t key = (False, f', t\<lparr>ht_wal_writer := w\<rparr>)"
    "logs f (ht_wal_writer t) [delete_record key] f' w"
proof -
  obtain f1 w where w: "ht_wal_append f t (delete_record key) = (f1, t\<lparr>ht_wal_writer := w\<rparr>)"
      "logs f (ht_wal_writer t) [delete_record key] f1 w"
    by (rule ht_wal_append_logs)
  have "chain_find key (ht_buckets t ! bucket_idx (ht_hash key) (length (ht_buckets t))) = None"
    using assms by (intro buckets_find_None) (simp_all add: ht_wf_def ht_map_def)
  then have "ht_remove f t key = (False, f1, t\<lparr>ht_wal_writer := w\<rparr>)"
    by (simp add: ht_remove_def w(1))
  with that w(2) show thesis by simp
qed

lemma ht_inv_remove:
  assumes "ht_inv t" "ht_wf t'" "ht_map t' = (ht_map t)(key := None)" "ht_map t key = Some v"
    "ht_policy t' = pol_on_delete (ht_policy t) key (length (ve_value v))"
  shows "ht_inv t'" "ht_limit t' = ht_limit t" "ht_kind t' = ht_kind t"
proof -
  have "pol_tracked (ht_policy t) key = Some (length (ve_value v), ve_stamp (ht_kind t) v)"
    using assms(1,4) by (simp add: ht_inv_def ht_track_Some)
  with assms show "ht_inv t'" "ht_limit t' = ht_limit t" "ht_kind t' = ht_kind t"
    by (simp_all add: ht_inv_def ht_kind_def ht_limit_def pol.delete_invar pol.delete_tracked
        policy_simps)
qed

section \<open>Evicting\<close>

text \<open>\<open>evicted t ks t'\<close>: from t to t' exactly the keys ks went, each of them was there, none of
  them is the empty key, and the last one was still needed: with its value back, the limit would
  be exceeded.\<close>

definition evicted :: "hash_table \<Rightarrow> string list \<Rightarrow> hash_table \<Rightarrow> bool" where
  "evicted t ks t' \<longleftrightarrow>
     ht_map t' = ht_map t |` (- set ks) \<and> set ks \<subseteq> dom (ht_map t) \<and> distinct ks \<and> [] \<notin> set ks \<and>
     ht_limit t' = ht_limit t \<and> ht_kind t' = ht_kind t \<and>
     length (ht_buckets t') = length (ht_buckets t) \<and>
     (ks \<noteq> [] \<longrightarrow> ht_limit t < map_bytes ((ht_map t')(last ks := ht_map t (last ks))))"

lemma evicted_Nil: "ht_map t' = ht_map t \<Longrightarrow> ht_limit t' = ht_limit t \<Longrightarrow> ht_kind t' = ht_kind t \<Longrightarrow>
    length (ht_buckets t') = length (ht_buckets t) \<Longrightarrow> evicted t [] t'"
  by (simp add: evicted_def restrict_map_def)

lemma evicted_writer [simp]: "evicted (t\<lparr>ht_wal_writer := w\<rparr>) ks t' \<longleftrightarrow> evicted t ks t'"
  by (simp add: evicted_def ht_limit_def ht_kind_def)

lemma evicted_Cons:
  assumes "ht_map t1 = (ht_map t)(k := None)" "k \<in> dom (ht_map t)" "k \<noteq> []"
    and "ht_limit t1 = ht_limit t" "ht_kind t1 = ht_kind t"
    and "length (ht_buckets t1) = length (ht_buckets t)"
    and "ht_limit t < map_bytes (ht_map t)" "evicted t1 ks t'"
  shows "evicted t (k # ks) t'"
proof -
  have m: "ht_map t' = ht_map t |` (- set (k # ks))"
    using assms(1,8) by (auto simp: evicted_def restrict_map_def fun_eq_iff)
  have "set ks \<subseteq> dom (ht_map t) - {k}"
    using assms(1,8) by (auto simp: evicted_def)
  moreover have "ht_limit t < map_bytes ((ht_map t')(last (k # ks) := ht_map t (last (k # ks))))"
  proof (cases "ks = []")
    case True
    then have "(ht_map t')(k := ht_map t k) = ht_map t"
      using m by (auto simp: restrict_map_def fun_eq_iff)
    with True assms(7) show ?thesis by simp
  next
    case False
    then have "last ks \<noteq> k"
      using calculation last_in_set by blast
    moreover have "ht_limit t1 < map_bytes ((ht_map t')(last ks := ht_map t1 (last ks)))"
      using assms(8) False unfolding evicted_def by blast
    ultimately show ?thesis
      using False assms(1,4) by simp
  qed
  ultimately show ?thesis
    using assms m by (auto simp: evicted_def)
qed

lemma ht_evict_step:
  assumes "ht_inv t" "pol_candidate (ht_policy t) = (victim, p)" "victim \<noteq> []"
  obtains f' t' where "ht_remove f (t\<lparr>ht_policy := p\<rparr>) victim = (True, f', t')" "ht_inv t'"
    "ht_map t' = (ht_map t)(victim := None)" "victim \<in> dom (ht_map t)"
    "ht_limit t' = ht_limit t" "ht_kind t' = ht_kind t"
    "length (ht_buckets t') = length (ht_buckets t)" "ht_num_entries t = Suc (ht_num_entries t')"
    "logs f (ht_wal_writer t) [delete_record victim] f' (ht_wal_writer t')"
proof -
  note inv = assms(1) [unfolded ht_inv_def]
  have d: "victim \<in> dom (ht_map t)"
    using pol.candidate_dom [OF _ assms(2,3)] inv by auto
  then obtain v where v: "ht_map t victim = Some v" by auto
  have tr: "pol_tracked (ht_policy t) victim = Some (length (ve_value v), ve_stamp (ht_kind t) v)"
    using inv v by (simp add: ht_track_Some)
  have kind: "pol_kind p = pol_kind (ht_policy t)"
    using assms(2) pol_kind_simps(4) [of "ht_policy t"] by simp
  have lim: "pol_limit p = pol_limit (ht_policy t)"
    using pol.candidate_limit [OF assms(2)] .
  obtain f' t' where r: "ht_remove f (t\<lparr>ht_policy := p\<rparr>) victim = (True, f', t')" "ht_wf t'"
      "ht_map t' = (ht_map t)(victim := None)"
      "ht_policy t' = pol_on_delete p victim (length (ve_value v))"
      "logs f (ht_wal_writer t) [delete_record victim] f' (ht_wal_writer t')"
      "length (ht_buckets t') = length (ht_buckets t)" "ht_num_entries t = Suc (ht_num_entries t')"
    using ht_remove_hit [of "t\<lparr>ht_policy := p\<rparr>" victim v f] inv v by auto
  have k: "ht_kind t' = ht_kind t" using r(4) kind by (simp add: ht_kind_def)
  have "ht_inv t'"
    using pol.evict_invar [OF _ assms(2,3) tr] pol.evict_tracked [OF _ assms(2,3) tr] inv r k
    by (simp add: ht_inv_def policy_simps)
  moreover have "ht_limit t' = ht_limit t" using r(4) lim by (simp add: ht_limit_def)
  ultimately show thesis using that r d k by blast
qed

lemma ht_evict:
  assumes "ht_inv t"
  shows "\<exists>f' t' ks. evict_if_needed f t = Some (f', t') \<and> ht_inv t' \<and> evicted t ks t' \<and>
     logs f (ht_wal_writer t) (map delete_record ks) f' (ht_wal_writer t') \<and>
     (ht_limit t' < map_bytes (ht_map t') \<longrightarrow> [] \<in> dom (ht_map t'))"
  using assms
proof (induction "ht_num_entries t" arbitrary: f t rule: less_induct)
  case less
  show ?case
  proof (cases "pol_should_evict (ht_policy t)")
    case False
    then have "evict_if_needed f t = Some (f, t)"
      by (subst evict_if_needed.simps) simp
    with False less.prems show ?thesis
      using evicted_Nil [of t t] logs_refl ht_should_evict by (metis list.map(1))
  next
    case True
    obtain victim p where c: "pol_candidate (ht_policy t) = (victim, p)" by force
    show ?thesis
    proof (cases "victim = []")
      case True
      note inv = less.prems [unfolded ht_inv_def]
      let ?t = "t\<lparr>ht_policy := p\<rparr>"
      have "evict_if_needed f t = Some (f, ?t)"
        using \<open>pol_should_evict _\<close> c True by (subst evict_if_needed.simps) simp
      moreover have kind: "ht_kind ?t = ht_kind t"
        using c pol_kind_simps(4) [of "ht_policy t"] by (simp add: ht_kind_def)
      moreover have "ht_inv ?t"
        using pol.candidate_none [of "ht_policy t" p] pol.candidate_tracked [OF _ c] c True inv kind
        by (simp add: ht_inv_def)
      moreover have "evicted t [] ?t"
        using kind pol.candidate_limit [OF c] by (intro evicted_Nil) (simp_all add: ht_limit_def)
      moreover have "[] \<in> dom (ht_map t)"
      proof -
        have "ht_map t \<noteq> (\<lambda>_. None)"
          using ht_should_evict [OF less.prems] \<open>pol_should_evict _\<close> by (auto simp: map_bytes_def)
        then have "pol_tracked (ht_policy t) \<noteq> (\<lambda>_. None)"
          using inv by (auto simp: ht_track_def fun_eq_iff)
        with pol.candidate_stuck [of "ht_policy t" p] c True inv show ?thesis by auto
      qed
      ultimately show ?thesis
        using logs_refl [of f "ht_wal_writer ?t"] by (intro exI [of _ f] exI [of _ ?t] exI [of _ "[]"]) auto
    next
      case False
      obtain f1 t1 where r: "ht_remove f (t\<lparr>ht_policy := p\<rparr>) victim = (True, f1, t1)" "ht_inv t1"
          "ht_map t1 = (ht_map t)(victim := None)" "victim \<in> dom (ht_map t)"
          "ht_limit t1 = ht_limit t" "ht_kind t1 = ht_kind t"
          "length (ht_buckets t1) = length (ht_buckets t)" "ht_num_entries t = Suc (ht_num_entries t1)"
          "logs f (ht_wal_writer t) [delete_record victim] f1 (ht_wal_writer t1)"
        by (rule ht_evict_step [OF less.prems c False])
      from r(8) less.hyps [of t1 f1] r(2) obtain f' t' ks where
        ih: "evict_if_needed f1 t1 = Some (f', t')" "ht_inv t'" "evicted t1 ks t'"
          "logs f1 (ht_wal_writer t1) (map delete_record ks) f' (ht_wal_writer t')"
          "ht_limit t' < map_bytes (ht_map t') \<longrightarrow> [] \<in> dom (ht_map t')" by auto
      have "evict_if_needed f t = Some (f', t')"
        using \<open>pol_should_evict _\<close> c False r(1) ih(1) by (subst evict_if_needed.simps) simp
      moreover have "evicted t (victim # ks) t'"
        using evicted_Cons [OF r(3,4) False r(5,6,7) _ ih(3)] ht_should_evict [OF less.prems]
          \<open>pol_should_evict _\<close> by simp
      moreover have "logs f (ht_wal_writer t) (map delete_record (victim # ks)) f' (ht_wal_writer t')"
        using logs_trans [OF r(9) ih(4)] by simp
      ultimately show ?thesis using ih(2,5) by blast
    qed
  qed
qed

section \<open>Resizing and storing\<close>

lemma ht_resize:
  assumes "ht_inv t"
  shows "ht_inv (resize_if_needed t)" "ht_map (resize_if_needed t) = ht_map t"
    "ht_policy (resize_if_needed t) = ht_policy t"
    "ht_num_entries (resize_if_needed t) = ht_num_entries t"
    "ht_wal_writer (resize_if_needed t) = ht_wal_writer t"
proof -
  have wf: "buckets_wf (ht_buckets t)" and "0 < length (ht_buckets t)"
    using assms by (auto simp: ht_inv_def ht_wf_def buckets_wf_def)
  then have n: "0 < length (ht_buckets t) * 2" by simp
  note re = rehash_wf [OF wf n]
  show m: "ht_map (resize_if_needed t) = ht_map t"
    by (simp add: resize_if_needed_def ht_map_def re)
  obtain k where "length (ht_buckets t) = 2 ^ k"
    using assms by (auto simp: ht_inv_def ht_wf_def)
  then have "\<exists>j. length (ht_buckets t) * 2 = 2 ^ j"
    by (intro exI [of _ "Suc k"]) simp
  then have "ht_wf (resize_if_needed t)"
    using assms re by (auto simp: resize_if_needed_def ht_inv_def ht_wf_def)
  moreover show p: "ht_policy (resize_if_needed t) = ht_policy t"
    by (simp add: resize_if_needed_def)
  ultimately show "ht_inv (resize_if_needed t)"
    using assms m by (simp add: ht_inv_def ht_kind_def)
qed (simp_all add: resize_if_needed_def)

lemma ht_store_hit:
  assumes "ht_inv t" "ht_map t key = Some v0"
  shows "ht_inv (ht_store t key v)" "ht_map (ht_store t key v) = (ht_map t)(key \<mapsto> v)"
    "ht_num_entries (ht_store t key v) = ht_num_entries t"
    "length (ht_buckets (ht_store t key v)) = length (ht_buckets t)"
proof -
  note inv = assms(1) [unfolded ht_inv_def ht_wf_def]
  let ?bs = "ht_buckets t" and ?g = "\<lambda>kv. kv\<lparr>kv_value := v, kv_hash := ht_hash key\<rparr>"
  let ?i = "bucket_idx (ht_hash key) (length ?bs)" and ?st = "ve_stamp (pol_kind (ht_policy t)) v"
  obtain kv where kv: "chain_find key (?bs ! ?i) = Some kv" "kv_value kv = v0"
    using buckets_find_Some [of ?bs key v0] inv assms(2) unfolding ht_map_def by blast
  then have "kv_key kv = key" using chain_find_split by metis
  then have up: "buckets_wf (?bs[?i := chain_update key ?g (?bs ! ?i)])"
      "buckets_map (?bs[?i := chain_update key ?g (?bs ! ?i)]) = (buckets_map ?bs)(key \<mapsto> v)"
      "length (concat (?bs[?i := chain_update key ?g (?bs ! ?i)])) = length (concat ?bs)"
    using buckets_update [of ?bs ?i key kv ?g] inv kv(1) by simp_all
  have s: "ht_store t key v = t\<lparr>ht_buckets := ?bs[?i := chain_update key ?g (?bs ! ?i)],
      ht_policy := pol_on_insert (pol_on_delete (ht_policy t) key (length (ve_value v0))) key
        (length (ve_value v)) ?st\<rparr>"
    by (simp add: ht_store_def Let_def kv)
  have tr: "pol_tracked (ht_policy t) key = Some (length (ve_value v0), ve_stamp (ht_kind t) v0)"
    using inv assms(2) by (simp add: ht_track_Some)
  have pi: "pol_inv (ht_policy t)" using inv by simp
  show "ht_map (ht_store t key v) = (ht_map t)(key \<mapsto> v)"
    using up(2) by (simp add: s ht_map_def)
  with up show "ht_inv (ht_store t key v)"
    using inv pol.replace_invar [OF pi tr] pol.replace_tracked [OF pi tr]
    by (simp add: s ht_inv_def ht_wf_def ht_kind_def ht_map_def policy_simps)
  show "ht_num_entries (ht_store t key v) = ht_num_entries t"
    "length (ht_buckets (ht_store t key v)) = length (ht_buckets t)" by (simp_all add: s)
qed

lemma ht_store_miss:
  assumes "ht_inv t" "ht_map t key = None"
  shows "ht_inv (ht_store t key v)" "ht_map (ht_store t key v) = (ht_map t)(key \<mapsto> v)"
    "ht_num_entries (ht_store t key v) = Suc (ht_num_entries t)"
    "length (ht_buckets (ht_store t key v)) = length (ht_buckets t)"
proof -
  note inv = assms(1) [unfolded ht_inv_def ht_wf_def]
  let ?bs = "ht_buckets t" and ?kv = "\<lparr>kv_key = key, kv_value = v, kv_hash = ht_hash key\<rparr>"
  let ?i = "bucket_idx (ht_hash key) (length ?bs)" and ?st = "ve_stamp (pol_kind (ht_policy t)) v"
  have none: "chain_find key (?bs ! ?i) = None"
    using buckets_find_None [of ?bs key] inv assms(2) by (simp add: ht_map_def)
  have ap: "buckets_wf (?bs[?i := ?bs ! ?i @ [?kv]])"
      "buckets_map (?bs[?i := ?bs ! ?i @ [?kv]]) = (buckets_map ?bs)(key \<mapsto> v)"
      "length (concat (?bs[?i := ?bs ! ?i @ [?kv]])) = Suc (length (concat ?bs))"
    using buckets_append [of ?bs key ?kv ?i] inv assms(2) by (simp_all add: ht_map_def)
  have s: "ht_store t key v = t\<lparr>ht_buckets := ?bs[?i := ?bs ! ?i @ [?kv]],
      ht_num_entries := ht_num_entries t + 1,
      ht_policy := pol_on_insert (ht_policy t) key (length (ve_value v)) ?st\<rparr>"
    by (simp add: ht_store_def Let_def none)
  have tr: "pol_tracked (ht_policy t) key = None"
    using inv assms(2) by (simp add: policy_simps)
  have pi: "pol_inv (ht_policy t)" using inv by simp
  show "ht_map (ht_store t key v) = (ht_map t)(key \<mapsto> v)"
    using ap(2) by (simp add: s ht_map_def)
  with ap show "ht_inv (ht_store t key v)"
    using inv pol.insert_invar [OF pi tr] pol.insert_tracked [OF pi tr]
    by (simp add: s ht_inv_def ht_wf_def ht_kind_def ht_map_def policy_simps)
  show "ht_num_entries (ht_store t key v) = Suc (ht_num_entries t)"
    "length (ht_buckets (ht_store t key v)) = length (ht_buckets t)" by (simp_all add: s)
qed

lemma ht_store_inv:
  assumes "ht_inv t"
  shows "ht_inv (ht_store t key v)" "ht_map (ht_store t key v) = (ht_map t)(key \<mapsto> v)"
  using ht_store_hit [OF assms] ht_store_miss [OF assms] by (cases "ht_map t key"; simp)+

lemma ht_store_frame [simp]:
  "ht_limit (ht_store t key v) = ht_limit t" "ht_kind (ht_store t key v) = ht_kind t"
  "ht_wal_writer (ht_store t key v) = ht_wal_writer t"
  by (simp_all add: ht_store_def Let_def ht_limit_def ht_kind_def split: option.split)

section \<open>Inserting\<close>

lemma ht_insert_effect:
  assumes "ht_inv t"
  obtains f' t' ks te where "ht_insert f t key v = Some (True, f', t')" "ht_inv t'"
    "evicted t ks te" "ht_inv te" "ht_map t' = (ht_map te)(key \<mapsto> v)"
    "t' = ht_store (resize_if_needed te) key v"
    "ht_limit te < map_bytes (ht_map te) \<longrightarrow> [] \<in> dom (ht_map te)"
    "logs f (ht_wal_writer t) (set_record key v # map delete_record ks) f' (ht_wal_writer t')"
    "\<exists>fe. case_prod evict_if_needed (ht_wal_append f t (set_record key v)) = Some (fe, te)"
proof -
  obtain f1 w where w: "ht_wal_append f t (set_record key v) = (f1, t\<lparr>ht_wal_writer := w\<rparr>)"
      "logs f (ht_wal_writer t) [set_record key v] f1 w"
    by (rule ht_wal_append_logs)
  let ?t1 = "t\<lparr>ht_wal_writer := w\<rparr>"
  have "ht_inv ?t1" using assms by simp
  from ht_evict [OF this, of f1] obtain f2 te ks where
    ev: "evict_if_needed f1 ?t1 = Some (f2, te)" "ht_inv te" "evicted ?t1 ks te"
      "logs f1 w (map delete_record ks) f2 (ht_wal_writer te)"
      "ht_limit te < map_bytes (ht_map te) \<longrightarrow> [] \<in> dom (ht_map te)" by auto
  let ?t' = "ht_store (resize_if_needed te) key v"
  note re = ht_resize [OF ev(2)]
  have 1: "ht_insert f t key v = Some (True, f2, ?t')"
    by (simp add: ht_insert_def w(1) ev(1))
  have 2: "ht_inv ?t'" "ht_map ?t' = (ht_map te)(key \<mapsto> v)"
    using ht_store_inv [OF re(1)] re(2) by simp_all
  have 3: "evicted t ks te"
    using ev(3) by simp
  have "logs f (ht_wal_writer t) (set_record key v # map delete_record ks) f2 (ht_wal_writer ?t')"
    using logs_trans [OF w(2) ev(4)] re(5) by simp
  with that [OF 1 2(1) 3 ev(2) 2(2) refl ev(5)] w(1) ev(1) show thesis by simp
qed

lemma no_pressure_no_evictions:
  assumes "ht_inv t" "evicted t ks te" "map_bytes (ht_map t) \<le> ht_limit t"
  shows "ks = []"
proof (rule ccontr)
  assume "ks \<noteq> []"
  then have l: "ht_limit t < map_bytes ((ht_map te)(last ks := ht_map t (last ks)))"
    using assms(2) unfolding evicted_def by blast
  let ?m = "(ht_map te)(last ks := ht_map t (last ks))"
  have eq: "?m k = ht_map t k" if "k \<in> dom ?m" for k
    using that assms(2) by (auto simp: evicted_def restrict_map_def split: if_splits)
  then have "dom ?m \<subseteq> dom (ht_map t)" by (metis domIff subsetI)
  then have "map_bytes ?m \<le> map_bytes (ht_map t)"
    unfolding map_bytes_def using eq ht_finite [OF assms(1)]
    by (intro order_trans [OF eq_refl sum_mono2 [of "dom (ht_map t)" "dom ?m"]] sum.cong) auto
  with l assms(3) show False by simp
qed

lemma ht_insert_fits:
  assumes "ht_inv t" "map_bytes (ht_map t) \<le> ht_limit t"
  obtains f' t' where "ht_insert f t key v = Some (True, f', t')" "ht_inv t'"
    "ht_map t' = (ht_map t)(key \<mapsto> v)" "ht_limit t' = ht_limit t"
    "logs f (ht_wal_writer t) [set_record key v] f' (ht_wal_writer t')"
proof -
  obtain f' t' ks te where *: "ht_insert f t key v = Some (True, f', t')" "ht_inv t'"
      "evicted t ks te" "ht_inv te" "ht_map t' = (ht_map te)(key \<mapsto> v)"
      "t' = ht_store (resize_if_needed te) key v"
      "logs f (ht_wal_writer t) (set_record key v # map delete_record ks) f' (ht_wal_writer t')"
    by (rule ht_insert_effect [OF assms(1)]) blast
  have "ks = []" using no_pressure_no_evictions [OF assms(1) *(3) assms(2)] .
  moreover from this have "ht_map te = ht_map t" "ht_limit te = ht_limit t"
    using *(3) by (auto simp: evicted_def restrict_map_def)
  moreover have "ht_limit t' = ht_limit te"
    using ht_resize(3) [OF *(4)] unfolding *(6) ht_store_frame by (simp add: ht_limit_def)
  ultimately show thesis using that * by simp
qed

text \<open>A reader on one file does not see what is logged to another.\<close>

lemma is_rest_cong: "fs_contents f' (is_path s) = fs_contents f (is_path s) \<Longrightarrow> is_rest f' s = is_rest f s"
  by (simp add: is_rest_def)

lemma logs_other_file:
  assumes "logs f w rs f' w'" "\<forall>a. w = Some a \<longrightarrow> ww_filepath a \<noteq> p"
  shows "fs_contents f' p = fs_contents f p" "\<forall>a. w' = Some a \<longrightarrow> ww_filepath a \<noteq> p"
  using assms by (auto simp: logs_def writer_logs_def fs_contents_def split: option.splits)

section \<open>Reading\<close>

definition touch :: "u64 \<Rightarrow> value_entry \<Rightarrow> value_entry" where
  "touch now v = v\<lparr>ve_access_count := ve_access_count v + 1, ve_last_access_ns := now\<rparr>"

lemma ht_get_miss:
  assumes "ht_wf t" "\<forall>v. ht_map t key = Some v \<longrightarrow> is_expired now v"
  shows "ht_get now now' t key = (None, t)"
proof (cases "ht_map t key")
  case None
  then have "chain_find key (ht_buckets t ! bucket_idx (ht_hash key) (length (ht_buckets t))) = None"
    using assms by (intro buckets_find_None) (simp_all add: ht_wf_def ht_map_def)
  then show ?thesis by (simp add: ht_get_def Let_def)
next
  case (Some v)
  then obtain kv where "chain_find key (ht_buckets t ! bucket_idx (ht_hash key) (length (ht_buckets t)))
      = Some kv" "kv_value kv = v"
    using buckets_find_Some [of "ht_buckets t" key v] assms(1) unfolding ht_map_def ht_wf_def by blast
  with Some assms(2) show ?thesis by (simp add: ht_get_def Let_def)
qed

lemma ht_get_hit:
  assumes "ht_inv t" "ht_map t key = Some v" "\<not> is_expired now v"
  obtains t' where "ht_get now now' t key = (Some (touch now' v), t')" "ht_inv t'"
    "ht_map t' = (ht_map t)(key \<mapsto> touch now' v)" "ht_num_entries t' = ht_num_entries t"
    "ht_limit t' = ht_limit t" "ht_wal_writer t' = ht_wal_writer t"
    "length (ht_buckets t') = length (ht_buckets t)"
proof -
  note inv = assms(1) [unfolded ht_inv_def ht_wf_def]
  let ?bs = "ht_buckets t" and ?g = "\<lambda>kv. kv\<lparr>kv_value := touch now' v\<rparr>"
  let ?i = "bucket_idx (ht_hash key) (length ?bs)"
  obtain kv where kv: "chain_find key (?bs ! ?i) = Some kv" "kv_value kv = v"
    using buckets_find_Some [of ?bs key v] inv assms(2) unfolding ht_map_def by blast
  then have k: "kv_key kv = key" "kv \<in> set (?bs ! ?i)" using chain_find_split
    by (metis, metis in_set_conv_decomp)
  moreover have "?i < length ?bs" using inv by (auto simp: buckets_wf_def)
  ultimately have "kv_hash kv = ht_hash key"
    using buckets_placedD(1) [of ?bs ?i kv] inv by (simp add: buckets_wf_def)
  then have up: "buckets_wf (?bs[?i := chain_update key ?g (?bs ! ?i)])"
      "buckets_map (?bs[?i := chain_update key ?g (?bs ! ?i)]) = (buckets_map ?bs)(key \<mapsto> touch now' v)"
      "length (concat (?bs[?i := chain_update key ?g (?bs ! ?i)])) = length (concat ?bs)"
    using buckets_update [of ?bs ?i key kv ?g] inv kv(1) k(1) by simp_all
  let ?t' = "t\<lparr>ht_buckets := ?bs[?i := chain_update key ?g (?bs ! ?i)],
      ht_policy := pol_on_access (ht_policy t) key (ve_stamp (pol_kind (ht_policy t)) (touch now' v))\<rparr>"
  have g: "ht_get now now' t key = (Some (touch now' v), ?t')"
    using assms(3) by (simp add: ht_get_def Let_def kv touch_def)
  have tr: "pol_tracked (ht_policy t) key = Some (length (ve_value v), ve_stamp (ht_kind t) v)"
    using inv assms(2) by (simp add: ht_track_Some)
  have pi: "pol_inv (ht_policy t)" using inv by simp
  have sz: "length (ve_value (touch now' v)) = length (ve_value v)" by (simp add: touch_def)
  have m: "ht_map ?t' = (ht_map t)(key \<mapsto> touch now' v)"
    using up(2) by (simp add: ht_map_def)
  have "ht_inv ?t'"
    using inv up m pol.access_invar [OF pi] pol.access_tracked [OF pi tr] sz
    by (simp add: ht_inv_def ht_wf_def ht_kind_def ht_map_def policy_simps)
  from that [OF g this m] show thesis by (simp add: ht_limit_def)
qed

section \<open>Construction, load factor, expiry\<close>

lemma ht_capacity_bounds:
  "2 ^ k < n \<or> k = 0 \<Longrightarrow> (\<exists>j. ht_capacity k n = 2 ^ j) \<and> n \<le> ht_capacity k n \<and>
    (ht_capacity k n = 1 \<or> ht_capacity k n < 2 * n)"
proof (induction k n rule: ht_capacity.induct)
  case (1 k n)
  show ?case
  proof (cases "2 ^ k < n")
    case small: True
    show ?thesis
    proof (cases "2 ^ Suc k < n")
      case True
      with "1.IH" [OF small] small show ?thesis
        by (simp add: ht_capacity.simps [of k n])
    next
      case False
      then have "ht_capacity k n = 2 ^ Suc k"
        using small by (simp add: ht_capacity.simps [of k n] ht_capacity.simps [of "Suc k" n])
      with small False show ?thesis by (auto intro!: exI [of _ "Suc k"])
    qed
  next
    case False
    then have "ht_capacity k n = 2 ^ k" by (simp add: ht_capacity.simps [of k n])
    with "1.prems" False show ?thesis by (auto intro: exI [of _ "0::nat"])
  qed
qed

lemma policy_new_simps [simp]:
  "pol_tracked (policy_new kind m) = (\<lambda>_. None)" "pol_inv (policy_new kind m)"
  "pol_limit (policy_new kind m) = m" "pol_kind (policy_new kind m) = kind"
  by (cases kind; simp add: lru_inv_new lfu_inv_new; simp add: lru_tracked_def lru_new_def
      lfu_tracked_def lfu_new_def)+

lemma enable_wal_frame:
  assumes "enable_wal f t path b = (e, f', t')"
  shows "ht_buckets t' = ht_buckets t" "ht_num_entries t' = ht_num_entries t"
    "ht_policy t' = ht_policy t"
  using assms by (auto simp: enable_wal_def Let_def split: sum.splits)

lemma truncate_wal_frame:
  assumes "truncate_wal f t = (e, f', t')"
  shows "ht_buckets t' = ht_buckets t" "ht_num_entries t' = ht_num_entries t"
    "ht_policy t' = ht_policy t"
  using assms by (auto simp: truncate_wal_def Let_def split: if_splits dest: enable_wal_frame)

lemma ht_inv_cong:
  assumes "ht_buckets t' = ht_buckets t" "ht_num_entries t' = ht_num_entries t"
    "ht_policy t' = ht_policy t"
  shows "ht_inv t' \<longleftrightarrow> ht_inv t" "ht_map t' = ht_map t" "ht_limit t' = ht_limit t"
  using assms by (simp_all add: ht_inv_def ht_wf_def ht_map_def ht_kind_def ht_limit_def)

lemma ht_new_state:
  assumes "ht_new f cap limit kind wal_path = (e, f', t)"
  shows "ht_buckets t = replicate (ht_capacity 0 cap) []" "ht_num_entries t = 0"
    "ht_policy t = policy_new kind limit"
  using assms by (auto simp: ht_new_def Let_def split: if_splits dest: enable_wal_frame)

lemma ht_new_inv:
  assumes "ht_new f cap limit kind wal_path = (e, f', t)"
  shows "ht_inv t" "ht_map t = (\<lambda>_. None)" "ht_limit t = limit" "ht_kind t = kind"
proof -
  note s = ht_new_state [OF assms]
  have c: "0 < ht_capacity 0 cap" "\<exists>j. ht_capacity 0 cap = 2 ^ j"
    using ht_capacity_bounds [of 0 cap] by auto
  have "concat (replicate n []) = []" for n by (induction n) auto
  then show "ht_map t = (\<lambda>_. None)" by (simp add: ht_map_def buckets_map_def s)
  with c s show "ht_inv t"
    by (simp add: ht_inv_def ht_wf_def buckets_wf_def buckets_placed_def ht_track_def ht_kind_def)
  show "ht_limit t = limit" "ht_kind t = kind" by (simp_all add: ht_limit_def ht_kind_def s)
qed

definition ht_load_ok :: "hash_table \<Rightarrow> bool" where
  "ht_load_ok t \<longleftrightarrow> 4 * ht_num_entries t \<le> 3 * length (ht_buckets t) + 4"

lemma evicted_entries:
  assumes "ht_inv t" "ht_inv te" "evicted t ks te"
  shows "ht_num_entries te \<le> ht_num_entries t"
proof -
  have "dom (ht_map te) \<subseteq> dom (ht_map t)"
    using assms(3) by (auto simp: evicted_def)
  then show ?thesis
    using assms ht_finite [OF assms(1)] by (simp add: ht_size card_mono)
qed

lemma ht_store_load:
  assumes "ht_inv t" "ht_load_ok t"
  shows "ht_load_ok (ht_store (resize_if_needed t) key v)"
proof -
  let ?t = "resize_if_needed t"
  note re = ht_resize [OF assms(1)]
  have n: "0 < length (ht_buckets t)"
    using assms(1) by (auto simp: ht_inv_def ht_wf_def buckets_wf_def)
  have e: "ht_num_entries (ht_store ?t key v) \<le> Suc (ht_num_entries t)"
    using ht_store_hit(3) [OF re(1), of key _ v] ht_store_miss(3) [OF re(1), of key v] re(4)
    by (cases "ht_map ?t key") auto
  have l: "length (ht_buckets (ht_store ?t key v)) = length (ht_buckets ?t)"
    using ht_store_hit(4) [OF re(1), of key _ v] ht_store_miss(4) [OF re(1), of key v]
    by (cases "ht_map ?t key") auto
  show ?thesis
  proof (cases "3 * length (ht_buckets t) < 4 * ht_num_entries t")
    case True
    then have "length (ht_buckets ?t) = length (ht_buckets t) * 2"
      using rehash_wf(3) [of "ht_buckets t" "length (ht_buckets t) * 2"] assms(1) n
      by (simp add: resize_if_needed_def ht_inv_def ht_wf_def)
    with e l assms(2) n show ?thesis unfolding ht_load_ok_def by presburger
  next
    case False
    then have "?t = t" by (simp add: resize_if_needed_def)
    with e l False show ?thesis by (simp add: ht_load_ok_def)
  qed
qed

lemma ht_remove_effect:
  assumes "ht_inv t"
  obtains f' t' where "ht_remove f t key = (ht_map t key \<noteq> None, f', t')" "ht_inv t'"
    "ht_map t' = (ht_map t)(key := None)" "ht_limit t' = ht_limit t"
    "length (ht_buckets t') = length (ht_buckets t)" "ht_num_entries t' \<le> ht_num_entries t"
    "logs f (ht_wal_writer t) [delete_record key] f' (ht_wal_writer t')"
proof (cases "ht_map t key")
  case None
  have "ht_wf t" using assms by (simp add: ht_inv_def)
  then obtain f' w where r: "ht_remove f t key = (False, f', t\<lparr>ht_wal_writer := w\<rparr>)"
      "logs f (ht_wal_writer t) [delete_record key] f' w"
    using ht_remove_miss None by metis
  have "(ht_map t)(key := None) = ht_map t" using None by auto
  with r None assms that [of f' "t\<lparr>ht_wal_writer := w\<rparr>"] show thesis by (simp add: ht_limit_def)
next
  case (Some v)
  have wf: "ht_wf t" using assms by (simp add: ht_inv_def)
  obtain f' t' where r: "ht_remove f t key = (True, f', t')" "ht_wf t'"
      "ht_map t' = (ht_map t)(key := None)"
      "ht_policy t' = pol_on_delete (ht_policy t) key (length (ve_value v))"
      "logs f (ht_wal_writer t) [delete_record key] f' (ht_wal_writer t')"
      "length (ht_buckets t') = length (ht_buckets t)" "ht_num_entries t = Suc (ht_num_entries t')"
    by (rule ht_remove_hit [OF wf Some])
  note i = ht_inv_remove [OF assms r(2,3) Some r(4)]
  show thesis by (rule that [OF _ i(1) r(3) i(2) r(6) _ r(5)]) (simp_all add: r(1,7) Some)
qed

lemma ht_remove_all_effect:
  assumes "ht_inv t"
  shows "\<exists>f' t'. ht_remove_all f t ks = (f', t') \<and> ht_inv t' \<and> ht_map t' = ht_map t |` (- set ks) \<and>
     ht_limit t' = ht_limit t \<and> length (ht_buckets t') = length (ht_buckets t) \<and>
     ht_num_entries t' \<le> ht_num_entries t \<and>
     logs f (ht_wal_writer t) (map delete_record ks) f' (ht_wal_writer t')"
  using assms
proof (induction ks arbitrary: f t)
  case Nil
  then show ?case using logs_refl by (simp add: restrict_map_def)
next
  case (Cons k ks)
  obtain f1 t1 where r: "ht_remove f t k = (ht_map t k \<noteq> None, f1, t1)" "ht_inv t1"
      "ht_map t1 = (ht_map t)(k := None)" "ht_limit t1 = ht_limit t"
      "length (ht_buckets t1) = length (ht_buckets t)" "ht_num_entries t1 \<le> ht_num_entries t"
      "logs f (ht_wal_writer t) [delete_record k] f1 (ht_wal_writer t1)"
    by (rule ht_remove_effect [OF Cons.prems])
  from Cons.IH [OF r(2), of f1] obtain f' t' where
    i: "ht_remove_all f1 t1 ks = (f', t')" "ht_inv t'" "ht_map t' = ht_map t1 |` (- set ks)"
      "ht_limit t' = ht_limit t1" "length (ht_buckets t') = length (ht_buckets t1)"
      "ht_num_entries t' \<le> ht_num_entries t1"
      "logs f1 (ht_wal_writer t1) (map delete_record ks) f' (ht_wal_writer t')" by blast
  have "ht_map t' = ht_map t |` (- set (k # ks))"
    using i(3) r(3) by (auto simp: restrict_map_def fun_eq_iff)
  moreover have "ht_remove_all f t (k # ks) = (f', t')" using r(1) i(1) by simp
  moreover have "logs f (ht_wal_writer t) (map delete_record (k # ks)) f' (ht_wal_writer t')"
    using logs_trans [OF r(7) i(7)] by simp
  ultimately show ?case using i r by auto
qed

lemma scan_expired_sound:
  assumes "k \<in> set (scan_expired now t samples)" "ht_inv t" "set samples \<subseteq> {..<length (ht_buckets t)}"
  obtains v i where "ht_map t k = Some v" "is_expired (now i) v"
proof -
  let ?kvs = "concat (map (\<lambda>b. ht_buckets t ! b) samples)"
  from assms(1) obtain i where "i < length ?kvs" "kv_key (?kvs ! i) = k"
      "is_expired (now i) (kv_value (?kvs ! i))"
    by (auto simp: scan_expired_def in_set_enumerate_eq)
  then obtain kv where kv: "kv_key kv = k" "is_expired (now i) (kv_value kv)" "kv \<in> set ?kvs"
    using nth_mem by metis
  then have "kv \<in> set (concat (ht_buckets t))"
    using assms(3) by fastforce
  moreover have "distinct (map kv_key (concat (ht_buckets t)))"
    using assms(2) by (simp add: ht_inv_def ht_wf_def buckets_wf_def)
  ultimately have "ht_map t k = Some (kv_value kv)"
    using kv(1) pairs_map_in unfolding ht_map_def buckets_map_def by metis
  with that kv(2) show thesis by blast
qed

end
