(* ===== verification/Recovery.thy ===== *)
theory Recovery
  imports Hash_Table_Correct
begin

text \<open>
  Crash recovery: \<open>HashTable::replay_wal\<close> (\<open>engine/src/hash_table.cpp\<close>) applied to the logs that
  the table itself writes. The replay loop reads from the live file while the table it fills may
  be writing a log of its own, so it is a \<open>partial_function\<close>: None stands for a replay that does
  not end, which is what happens when the two logs are the same file.

  \<open>apply_record\<close> is the meaning of one record on the abstract map; \<open>clk i\<close> gives the two clock
  readings a \<open>get\<close> makes while the i-th record is replayed.
\<close>

section \<open>Replaying\<close>

definition replay_record :: "u64 \<times> u64 \<Rightarrow> fs \<Rightarrow> hash_table \<Rightarrow> wal_record \<Rightarrow> (fs \<times> hash_table) option" where
  "replay_record now f t r =
     (case wr_op_type r of
        WAL_SET \<Rightarrow>
          map_option snd (ht_insert f t (wr_key r) (value_entry_new (wr_value r) (wr_ttl_ns r)))
      | WAL_DELETE \<Rightarrow> Some (snd (ht_remove f t (wr_key r)))
      | WAL_EXPIRE \<Rightarrow>
          (case ht_get (fst now) (snd now) t (wr_key r) of
             (None, t) \<Rightarrow> Some (f, t)
           | (Some v, t) \<Rightarrow> map_option snd (ht_insert f t (wr_key r) (v\<lparr>ve_expiry_ns := wr_ttl_ns r\<rparr>)))
      | WAL_OTHER _ \<Rightarrow> Some (f, t))"

partial_function (option) replay_loop :: "(nat \<Rightarrow> u64 \<times> u64) \<Rightarrow> fs \<Rightarrow> hash_table \<Rightarrow> wal_reader \<Rightarrow> nat \<Rightarrow>
    (nat \<times> fs \<times> hash_table) option" where
  "replay_loop clk f t rd replayed =
     (case wal_read_next f rd of
        (None, _) \<Rightarrow> Some (replayed, f, t)
      | (Some r, rd') \<Rightarrow>
          Option.bind (replay_record (clk replayed) f t r)
            (\<lambda>(f', t'). replay_loop clk f' t' rd' (Suc replayed)))"

definition replay_wal :: "(nat \<Rightarrow> u64 \<times> u64) \<Rightarrow> fs \<Rightarrow> hash_table \<Rightarrow> string \<Rightarrow>
    (wal_error + nat \<times> fs \<times> hash_table) option" where
  "replay_wal clk f t path =
     (case wal_reader_open f path of
        Inl e \<Rightarrow> Some (Inl e)
      | Inr rd \<Rightarrow> map_option Inr (replay_loop clk f t rd 0))"

section \<open>The meaning of a log\<close>

definition apply_record :: "u64 \<times> u64 \<Rightarrow> (string \<Rightarrow> value_entry option) \<Rightarrow> wal_record \<Rightarrow>
    string \<Rightarrow> value_entry option" where
  "apply_record now m r =
     (case wr_op_type r of
        WAL_SET \<Rightarrow> m(wr_key r \<mapsto> value_entry_new (wr_value r) (wr_ttl_ns r))
      | WAL_DELETE \<Rightarrow> m(wr_key r := None)
      | WAL_EXPIRE \<Rightarrow>
          (case m (wr_key r) of
             None \<Rightarrow> m
           | Some v \<Rightarrow> if is_expired (fst now) v then m
                       else m(wr_key r \<mapsto> (touch (snd now) v)\<lparr>ve_expiry_ns := wr_ttl_ns r\<rparr>))
      | WAL_OTHER _ \<Rightarrow> m)"

fun apply_records :: "(nat \<Rightarrow> u64 \<times> u64) \<Rightarrow> nat \<Rightarrow> (string \<Rightarrow> value_entry option) \<Rightarrow> wal_record list \<Rightarrow>
    string \<Rightarrow> value_entry option" where
  "apply_records clk i m [] = m"
| "apply_records clk i m (r # rs) = apply_records clk (Suc i) (apply_record (clk i) m r) rs"

text \<open>The bytes the SET records of a log store.\<close>

fun set_bytes :: "wal_record list \<Rightarrow> nat" where
  "set_bytes [] = 0"
| "set_bytes (r # rs) = (if wr_op_type r = WAL_SET then length (wr_value r) else 0) + set_bytes rs"

lemma map_bytes_same_size:
  assumes "finite (dom m)" "m k = Some v" "length (ve_value v') = length (ve_value v)"
  shows "map_bytes (m(k \<mapsto> v')) = map_bytes m"
  using map_bytes_insert [of "m(k := None)" k v'] map_bytes_remove [OF assms(1,2)] assms by simp

text \<open>Replaying one record into a table with room for it: the map changes as the record says, and
  only the table's own log is written.\<close>

lemma replay_record_applies:
  assumes "ht_inv t" "map_bytes (ht_map t) + set_bytes [r] \<le> ht_limit t"
  obtains f' t' rs where "replay_record now f t r = Some (f', t')" "ht_inv t'"
    "ht_map t' = apply_record now (ht_map t) r" "ht_limit t' = ht_limit t"
    "map_bytes (ht_map t') \<le> map_bytes (ht_map t) + set_bytes [r]"
    "logs f (ht_wal_writer t) rs f' (ht_wal_writer t')"
proof -
  note fin = ht_finite [OF assms(1)]
  have fits: "map_bytes (ht_map t) \<le> ht_limit t" using assms(2) by simp
  show thesis
  proof (cases "wr_op_type r")
    case WAL_SET
    let ?v = "value_entry_new (wr_value r) (wr_ttl_ns r)"
    obtain f' t' where i: "ht_insert f t (wr_key r) ?v = Some (True, f', t')" "ht_inv t'"
        "ht_map t' = (ht_map t)(wr_key r \<mapsto> ?v)" "ht_limit t' = ht_limit t"
        "logs f (ht_wal_writer t) [set_record (wr_key r) ?v] f' (ht_wal_writer t')"
      by (rule ht_insert_fits [OF assms(1) fits])
    have "length (ve_value ?v) = length (wr_value r)" by (simp add: value_entry_new_def)
    with that [of f' t' "[set_record (wr_key r) ?v]"] WAL_SET i map_bytes_upd_le [OF fin, of "wr_key r" ?v]
    show thesis by (simp add: replay_record_def apply_record_def)
  next
    case WAL_DELETE
    obtain f' t' where d: "ht_remove f t (wr_key r) = (ht_map t (wr_key r) \<noteq> None, f', t')" "ht_inv t'"
        "ht_map t' = (ht_map t)(wr_key r := None)" "ht_limit t' = ht_limit t"
        "logs f (ht_wal_writer t) [delete_record (wr_key r)] f' (ht_wal_writer t')"
      by (rule ht_remove_effect [OF assms(1)])
    have "map_bytes (ht_map t') \<le> map_bytes (ht_map t)"
      using map_bytes_remove [OF fin, of "wr_key r"] d(3)
      by (cases "ht_map t (wr_key r)") (simp_all add: fun_upd_idem)
    with that [of f' t'] WAL_DELETE d show thesis
      by (simp add: replay_record_def apply_record_def)
  next
    case WAL_EXPIRE
    show thesis
    proof (cases "\<exists>v. ht_map t (wr_key r) = Some v \<and> \<not> is_expired (fst now) v")
      case True
      then obtain v where v: "ht_map t (wr_key r) = Some v" "\<not> is_expired (fst now) v" by blast
      obtain t1 where g: "ht_get (fst now) (snd now) t (wr_key r) = (Some (touch (snd now) v), t1)"
          "ht_inv t1" "ht_map t1 = (ht_map t)(wr_key r \<mapsto> touch (snd now) v)"
          "ht_limit t1 = ht_limit t" "ht_wal_writer t1 = ht_wal_writer t"
        by (rule ht_get_hit [OF assms(1) v])
      let ?v = "(touch (snd now) v)\<lparr>ve_expiry_ns := wr_ttl_ns r\<rparr>"
      have b: "map_bytes (ht_map t1) = map_bytes (ht_map t)"
        using map_bytes_same_size [OF fin v(1)] g(3) by (simp add: touch_def)
      obtain f' t' where "ht_insert f t1 (wr_key r) ?v = Some (True, f', t')" "ht_inv t'"
          "ht_map t' = (ht_map t1)(wr_key r \<mapsto> ?v)" "ht_limit t' = ht_limit t1"
          "logs f (ht_wal_writer t1) [set_record (wr_key r) ?v] f' (ht_wal_writer t')"
        by (rule ht_insert_fits [OF g(2)]) (use b fits g(4) in simp_all)
      moreover have "map_bytes ((ht_map t)(wr_key r \<mapsto> ?v)) = map_bytes (ht_map t)"
        using map_bytes_same_size [OF fin v(1)] by (simp add: touch_def)
      ultimately show thesis
        using that [of f' t'] WAL_EXPIRE v g by (simp add: replay_record_def apply_record_def)
    next
      case False
      then have "ht_get (fst now) (snd now) t (wr_key r) = (None, t)"
        using ht_get_miss assms(1) by (auto simp: ht_inv_def)
      moreover have "apply_record now (ht_map t) r = ht_map t"
        using False WAL_EXPIRE by (auto simp: apply_record_def split: option.split)
      ultimately show thesis
        using that [of f t "[]"] WAL_EXPIRE assms(1) logs_refl by (simp add: replay_record_def)
    qed
  next
    case (WAL_OTHER b)
    with that [of f t "[]"] assms(1) logs_refl show thesis
      by (simp add: replay_record_def apply_record_def)
  qed
qed

lemma replay_loop_applies:
  assumes "list_all wal_ok rs"
    and "is_at f (wrd_stream rd) (take n (concat (map wal_write_record rs)))"
    and "ht_inv t" "map_bytes (ht_map t) + set_bytes rs \<le> ht_limit t"
    and "\<forall>a. ht_wal_writer t = Some a \<longrightarrow> ww_filepath a \<noteq> is_path (wrd_stream rd)"
  shows "\<exists>f' t'. replay_loop clk f t rd i =
        Some (i + length (whole_records wal_write_record n rs), f', t') \<and> ht_inv t' \<and>
     ht_map t' = apply_records clk i (ht_map t) (whole_records wal_write_record n rs)"
  using assms
proof (induction rs arbitrary: f t rd n i)
  case Nil
  then have "fst (wal_read_next f rd) = None" by (simp add: wal_read_next_end)
  with Nil show ?case by (subst replay_loop.simps) (simp add: case_prod_unfold)
next
  case (Cons r rs)
  show ?case
  proof (cases "length (wal_write_record r) \<le> n")
    case True
    let ?n = "n - length (wal_write_record r)"
    obtain rd' where rd: "wal_read_next f rd = (Some r, rd')"
        "is_at f (wrd_stream rd') (take ?n (concat (map wal_write_record rs)))"
        "is_path (wrd_stream rd') = is_path (wrd_stream rd)"
      using wal_read_next_hit [OF _ Cons.prems(2) True] Cons.prems(1) by auto
    have "map_bytes (ht_map t) + set_bytes [r] \<le> ht_limit t" using Cons.prems(4) by simp
    then obtain f1 t1 rl where s: "replay_record (clk i) f t r = Some (f1, t1)" "ht_inv t1"
        "ht_map t1 = apply_record (clk i) (ht_map t) r" "ht_limit t1 = ht_limit t"
        "map_bytes (ht_map t1) \<le> map_bytes (ht_map t) + set_bytes [r]"
        "logs f (ht_wal_writer t) rl f1 (ht_wal_writer t1)"
      by (rule replay_record_applies [OF Cons.prems(3)])
    note o = logs_other_file [OF s(6) Cons.prems(5)]
    have at: "is_at f1 (wrd_stream rd') (take ?n (concat (map wal_write_record rs)))"
      using rd(2) is_rest_cong [of f1 "wrd_stream rd'" f] o(1) rd(3) by (simp add: is_at_def)
    have "map_bytes (ht_map t1) + set_bytes rs \<le> ht_limit t1" using s(4,5) Cons.prems(4) by simp
    from Cons.IH [OF _ at s(2) this, of "Suc i"] Cons.prems(1) o(2) rd(3)
    show ?thesis using True rd(1) s(1,3) by (subst replay_loop.simps) simp
  next
    case False
    with Cons.prems(1) have "fst (wal_read_next f rd) = None"
      by (intro wal_read_next_torn [OF _ Cons.prems(2)]) simp_all
    with False Cons.prems(3) show ?thesis by (subst replay_loop.simps) (simp add: case_prod_unfold)
  qed
qed

section \<open>What the table logs is what it does\<close>

text \<open>A client's operations, and what a log can carry of an entry: the value and the expiry.\<close>

datatype kv_op =
    KInsert string value_entry
  | KRemove string
  | KGet u64 u64 string

fun run_op :: "fs \<Rightarrow> hash_table \<Rightarrow> kv_op \<Rightarrow> (fs \<times> hash_table) option" where
  "run_op f t (KInsert k v) = map_option snd (ht_insert f t k v)"
| "run_op f t (KRemove k) = Some (snd (ht_remove f t k))"
| "run_op f t (KGet now now' k) = Some (f, snd (ht_get now now' t k))"

fun run_ops :: "fs \<Rightarrow> hash_table \<Rightarrow> kv_op list \<Rightarrow> (fs \<times> hash_table) option" where
  "run_ops f t [] = Some (f, t)"
| "run_ops f t (x # xs) = Option.bind (run_op f t x) (\<lambda>(f, t). run_ops f t xs)"

definition durable :: "value_entry \<Rightarrow> value_entry" where
  "durable v = value_entry_new (ve_value v) (ve_expiry_ns v)"

definition durable_map :: "(string \<Rightarrow> value_entry option) \<Rightarrow> string \<Rightarrow> value_entry option" where
  "durable_map m = (\<lambda>k. map_option durable (m k))"

text \<open>An insert evicts the very key it is about: the old value of the key goes as a victim, after
  the SET record of the new value is already in the log.\<close>

definition self_evicts :: "fs \<Rightarrow> hash_table \<Rightarrow> string \<Rightarrow> bool" where
  "self_evicts f t key \<longleftrightarrow>
     ht_map t key \<noteq> None \<and>
     (case evict_if_needed f t of None \<Rightarrow> True | Some (_, t') \<Rightarrow> ht_map t' key = None)"

fun no_self_evict :: "fs \<Rightarrow> hash_table \<Rightarrow> kv_op list \<Rightarrow> bool" where
  "no_self_evict f t [] \<longleftrightarrow> True"
| "no_self_evict f t (x # xs) \<longleftrightarrow>
     (case x of KInsert k v \<Rightarrow> \<not> case_prod self_evicts (ht_wal_append f t (set_record k v)) k
              | _ \<Rightarrow> True) \<and>
     (case run_op f t x of None \<Rightarrow> True | Some (f, t) \<Rightarrow> no_self_evict f t xs)"

definition keys_ok :: "(string \<Rightarrow> value_entry option) \<Rightarrow> bool" where
  "keys_ok m \<longleftrightarrow> (\<forall>k \<in> dom m. length k < 2 ^ 32)"

fun op_ok :: "kv_op \<Rightarrow> bool" where
  "op_ok (KInsert k v) \<longleftrightarrow> length k < 2 ^ 32 \<and> length (ve_value v) < 2 ^ 32"
| "op_ok (KRemove k) \<longleftrightarrow> length k < 2 ^ 32"
| "op_ok (KGet now now' k) \<longleftrightarrow> True"

fun op_bytes :: "kv_op list \<Rightarrow> nat" where
  "op_bytes [] = 0"
| "op_bytes (x # xs) = (case x of KInsert k v \<Rightarrow> length (ve_value v) | _ \<Rightarrow> 0) + op_bytes xs"

lemma apply_records_append:
  "apply_records clk i m (rs @ rs') =
     apply_records clk (i + length rs) (apply_records clk i m rs) rs'"
  by (induction rs arbitrary: i m) simp_all

lemma apply_deletes: "apply_records clk i m (map delete_record ks) = m |` (- set ks)"
proof (induction ks arbitrary: i m)
  case (Cons k ks)
  have "apply_record (clk i) m (delete_record k) = m(k := None)"
    by (simp add: apply_record_def delete_record_def)
  moreover have "m(k := None) |` (- set ks) = m |` (- set (k # ks))"
    by (rule ext) (simp add: restrict_map_def)
  ultimately show ?case using Cons.IH by (simp only: list.map apply_records.simps)
qed (simp add: restrict_map_def)

lemma set_bytes_append [simp]: "set_bytes (rs @ rs') = set_bytes rs + set_bytes rs'"
  by (induction rs) auto

lemma set_bytes_deletes [simp]: "set_bytes (map delete_record ks) = 0"
  by (induction ks) (auto simp: delete_record_def)

lemma wal_ok_set: "length k < 2 ^ 32 \<Longrightarrow> length (ve_value v) < 2 ^ 32 \<Longrightarrow> wal_ok (set_record k v)"
  by (simp add: wal_ok_def set_record_def op_of_code_def)

lemma wal_ok_delete: "length k < 2 ^ 32 \<Longrightarrow> wal_ok (delete_record k)"
  by (simp add: wal_ok_def delete_record_def op_of_code_def)

definition logged :: "wal_record \<Rightarrow> bool" where
  "logged r \<longleftrightarrow> wal_ok r \<and> (wr_op_type r = WAL_SET \<or> wr_op_type r = WAL_DELETE)"

lemma logged_set: "length k < 2 ^ 32 \<Longrightarrow> length (ve_value v) < 2 ^ 32 \<Longrightarrow> logged (set_record k v)"
  using wal_ok_set [of k v] by (simp add: logged_def set_record_def)

lemma logged_delete: "length k < 2 ^ 32 \<Longrightarrow> logged (delete_record k)"
  using wal_ok_delete [of k] by (simp add: logged_def delete_record_def)

lemma logged_wal_ok: "list_all logged rs \<Longrightarrow> list_all wal_ok rs"
  by (auto simp: list_all_iff logged_def)

lemma logged_deletes:
  assumes "keys_ok m" "set ks \<subseteq> dom m"
  shows "list_all logged (map delete_record ks)"
  unfolding list_all_iff
proof
  fix r assume "r \<in> set (map delete_record ks)"
  then obtain k where "r = delete_record k" "k \<in> set ks" by auto
  with assms have "length k < 2 ^ 32" unfolding keys_ok_def by blast
  with \<open>r = delete_record k\<close> show "logged r" by (simp only: logged_delete)
qed

lemma durable_map_upd [simp]: "durable_map (m(k \<mapsto> v)) = (durable_map m)(k \<mapsto> durable v)"
  by (auto simp: durable_map_def)

lemma durable_map_restrict [simp]: "durable_map (m |` A) = durable_map m |` A"
  by (auto simp: durable_map_def restrict_map_def)

lemma durable_map_del [simp]: "durable_map (m(k := None)) = (durable_map m)(k := None)"
  by (auto simp: durable_map_def)

lemma durable_touch: "m k = Some v \<Longrightarrow> durable_map (m(k \<mapsto> touch now v)) = durable_map m"
  by (auto simp: durable_map_def durable_def touch_def)

text \<open>\<open>run_logs t f f' t' rs b\<close>: a run from t to t' logs records rs that carry b value bytes, fit the
  record format, and have the meaning of the run on the durable part of the map.\<close>

definition run_logs :: "fs \<Rightarrow> hash_table \<Rightarrow> wal_record list \<Rightarrow> nat \<Rightarrow> fs \<Rightarrow> hash_table \<Rightarrow> bool" where
  "run_logs f t rs b f' t' \<longleftrightarrow>
     ht_inv t' \<and> keys_ok (ht_map t') \<and> logs f (ht_wal_writer t) rs f' (ht_wal_writer t') \<and>
     list_all logged rs \<and> set_bytes rs = b \<and>
     (\<forall>clk i. durable_map (ht_map t') = apply_records clk i (durable_map (ht_map t)) rs)"

lemma run_logs_trans:
  "run_logs f t rs b f1 t1 \<Longrightarrow> run_logs f1 t1 rs' b' f2 t2 \<Longrightarrow> run_logs f t (rs @ rs') (b + b') f2 t2"
  unfolding run_logs_def by (auto simp: apply_records_append intro: logs_trans)

lemma run_insert_logs:
  assumes "ht_inv t" "keys_ok (ht_map t)" "op_ok (KInsert k v)"
    and "\<not> case_prod self_evicts (ht_wal_append f t (set_record k v)) k"
  shows "\<exists>f' t' rs. run_op f t (KInsert k v) = Some (f', t') \<and>
    run_logs f t rs (length (ve_value v)) f' t'"
proof -
  obtain f' t' ks te where *: "ht_insert f t k v = Some (True, f', t')" "ht_inv t'"
      "evicted t ks te" "ht_map t' = (ht_map te)(k \<mapsto> v)"
      "logs f (ht_wal_writer t) (set_record k v # map delete_record ks) f' (ht_wal_writer t')"
    and ev: "\<exists>fe. case_prod evict_if_needed (ht_wal_append f t (set_record k v)) = Some (fe, te)"
    by (rule ht_insert_effect [OF assms(1)]) blast
  let ?rs = "set_record k v # map delete_record ks"
  have te: "ht_map te = ht_map t |` (- set ks)" "set ks \<subseteq> dom (ht_map t)"
    using *(3) by (simp_all add: evicted_def)
  obtain f1 w where "ht_wal_append f t (set_record k v) = (f1, t\<lparr>ht_wal_writer := w\<rparr>)"
    by (rule ht_wal_append_logs)
  with ev assms(4) have "ht_map t k = None \<or> ht_map te k \<noteq> None"
    by (auto simp: self_evicts_def)
  with te have "k \<notin> set ks" by (auto simp: restrict_map_def)
  then have "((durable_map (ht_map t))(k \<mapsto> durable v)) |` (- set ks) =
      (durable_map (ht_map t) |` (- set ks))(k \<mapsto> durable v)"
    by (auto simp: restrict_map_def fun_eq_iff)
  then have "durable_map (ht_map t') = apply_records clk i (durable_map (ht_map t)) ?rs" for clk i
    using *(4) te(1) by (simp add: apply_record_def set_record_def apply_deletes durable_def)
  moreover have "keys_ok (ht_map t')"
    using assms(2,3) *(4) te(1) by (auto simp: keys_ok_def)
  moreover have "list_all logged ?rs"
    using assms(3) logged_set logged_deletes [OF assms(2) te(2)] by simp
  moreover have "set_bytes ?rs = length (ve_value v)"
    by (simp add: set_record_def)
  ultimately show ?thesis
    using *(1,2,5) unfolding run_logs_def by fastforce
qed

lemma run_op_logs:
  assumes "ht_inv t" "keys_ok (ht_map t)" "op_ok x" "no_self_evict f t [x]"
  shows "\<exists>f' t' rs. run_op f t x = Some (f', t') \<and> run_logs f t rs (op_bytes [x]) f' t'"
proof (cases x)
  case (KInsert k v)
  with assms run_insert_logs [OF assms(1,2), of k v f] show ?thesis by simp
next
  case (KRemove k)
  obtain f' t' where r: "ht_remove f t k = (ht_map t k \<noteq> None, f', t')" "ht_inv t'"
      "ht_map t' = (ht_map t)(k := None)"
      "logs f (ht_wal_writer t) [delete_record k] f' (ht_wal_writer t')"
    by (rule ht_remove_effect [OF assms(1)])
  have "run_logs f t [delete_record k] 0 f' t'"
    using r assms KRemove logged_delete
    by (auto simp: run_logs_def keys_ok_def apply_record_def delete_record_def)
  with r(1) KRemove show ?thesis by auto
next
  case (KGet now now' k)
  have "run_logs f t [] 0 f (snd (ht_get now now' t k))"
  proof (cases "\<exists>v. ht_map t k = Some v \<and> \<not> is_expired now v")
    case True
    then obtain v where v: "ht_map t k = Some v" "\<not> is_expired now v" by blast
    obtain t' where "ht_get now now' t k = (Some (touch now' v), t')" "ht_inv t'"
        "ht_map t' = (ht_map t)(k \<mapsto> touch now' v)" "ht_wal_writer t' = ht_wal_writer t"
      by (rule ht_get_hit [OF assms(1) v])
    with assms(2) v(1) durable_touch [of "ht_map t" k v now'] logs_refl [of f "ht_wal_writer t"] show ?thesis
      by (auto simp: run_logs_def keys_ok_def)
  next
    case False
    then have "ht_get now now' t k = (None, t)"
      using ht_get_miss assms(1) by (auto simp: ht_inv_def)
    with assms logs_refl show ?thesis by (simp add: run_logs_def)
  qed
  with KGet show ?thesis by auto
qed

lemma run_ops_logs:
  assumes "ht_inv t" "keys_ok (ht_map t)" "list_all op_ok xs" "no_self_evict f t xs"
  shows "\<exists>f' t' rs. run_ops f t xs = Some (f', t') \<and> run_logs f t rs (op_bytes xs) f' t'"
  using assms
proof (induction xs arbitrary: f t)
  case Nil
  then have "run_logs f t [] 0 f t" using logs_refl by (simp add: run_logs_def)
  then show ?case by auto
next
  case (Cons x xs)
  have "no_self_evict f t [x]" using Cons.prems(4) by (auto split: option.splits)
  then obtain f1 t1 rs where s: "run_op f t x = Some (f1, t1)" "run_logs f t rs (op_bytes [x]) f1 t1"
    using run_op_logs Cons.prems by (metis list.pred_inject(2))
  then have "ht_inv t1" "keys_ok (ht_map t1)" by (simp_all add: run_logs_def)
  with Cons s(1) obtain f' t' rs' where r: "run_ops f1 t1 xs = Some (f', t')"
      "run_logs f1 t1 rs' (op_bytes xs) f' t'" by fastforce
  from run_logs_trans [OF s(2) r(2)] s(1) r(1) show ?case by auto
qed

lemma ht_new_writer:
  assumes "ht_new f cap limit kind path = (None, f', t)" "path \<noteq> []"
  obtains w where "ht_wal_writer t = Some w" "ww_filepath w = path" "ww_batch_size w = 100"
    "ww_buffer w = []" "f' = fs_append f path []"
  using assms that
  by (auto simp: ht_new_def enable_wal_def wal_writer_open_def Let_def split: if_splits)

lemma flush_wal_log:
  assumes "flush_wal f t = (f', t')" "ht_wal_writer t = Some w" "fs_files f (ww_filepath w) \<noteq> None"
  shows "fs_files f' (ww_filepath w) = Some (wal_log f w)"
proof -
  obtain f1 w1 where w1: "wal_flush f w = (f1, w1)" by force
  then have "f' = f1" using assms(1,2) by (simp add: flush_wal_def)
  moreover have "wal_log f1 w1 = wal_log f w" "ww_buffer w1 = []" "ww_filepath w1 = ww_filepath w"
    using wal_flush_log [OF w1] by auto
  moreover have "fs_files f1 (ww_filepath w) \<noteq> None"
    using wal_flush_files [OF assms(3), of w] w1 by simp
  ultimately show ?thesis by (auto simp: wal_log_def fs_contents_def)
qed

text \<open>A run followed by a flush leaves exactly its records in a log that was empty.\<close>

lemma run_flush_file:
  assumes "run_logs f0 t0 rs b f1 t1" "ht_wal_writer t0 = Some w" "ww_filepath w = path"
    and "wal_log f0 w = []" "fs_files f0 path \<noteq> None" "flush_wal f1 t1 = (f2, t2)"
  shows "fs_files f2 path = Some (concat (map wal_write_record rs))"
proof -
  obtain w1 where w1: "ht_wal_writer t1 = Some w1" "writer_logs f0 w rs f1 w1"
    using assms(1,2) by (auto simp: run_logs_def logs_def split: option.splits)
  have "ww_filepath w1 = path" "fs_files f1 path \<noteq> None"
    using w1(2) assms(3,5) by (auto simp: writer_logs_def)
  moreover have "wal_log f1 w1 = concat (map wal_write_record rs)"
    using writer_logs_log [OF w1(2)] assms(4) by simp
  ultimately show ?thesis using flush_wal_log [OF assms(6) w1(1)] by simp
qed

lemma run_flush_other:
  assumes "run_logs f0 t0 rs b f1 t1" "ht_wal_writer t0 = Some w" "ww_filepath w \<noteq> q"
    and "flush_wal f1 t1 = (f2, t2)"
  shows "fs_files f2 q = fs_files f0 q"
proof -
  obtain w1 where w1: "ht_wal_writer t1 = Some w1" "writer_logs f0 w rs f1 w1"
    using assms(1,2) by (auto simp: run_logs_def logs_def split: option.splits)
  then have "fs_files f1 q = fs_files f0 q" "ww_filepath w1 \<noteq> q"
    using assms(3) by (auto simp: writer_logs_def)
  with w1(1) assms(4) show ?thesis
    by (auto simp: flush_wal_def wal_flush_def fs_files_append split: if_splits)
qed

lemma replay_wal_applies:
  assumes "fs_files f path = Some (take n (concat (map wal_write_record rs)))"
    and "list_all wal_ok rs" "ht_inv t" "map_bytes (ht_map t) + set_bytes rs \<le> ht_limit t"
    and "\<forall>w. ht_wal_writer t = Some w \<longrightarrow> ww_filepath w \<noteq> path"
  shows "\<exists>f' t'. replay_wal clk f t path =
       Some (Inr (length (whole_records wal_write_record n rs), f', t')) \<and> ht_inv t' \<and>
     ht_map t' = apply_records clk 0 (ht_map t) (whole_records wal_write_record n rs)"
proof -
  let ?rd = "\<lparr>wrd_stream = is_open path, wrd_records_read = 0\<rparr>"
  have o: "wal_reader_open f path = Inr ?rd" using assms(1) by (simp add: wal_reader_open_def)
  have "is_at f (wrd_stream ?rd) (take n (concat (map wal_write_record rs)))"
    using is_at_open [of f path] assms(1) by (simp add: fs_contents_def)
  from replay_loop_applies [OF assms(2) this assms(3,4), of clk 0] assms(5) o show ?thesis
    by (simp add: replay_wal_def is_open_def)
qed

section \<open>Properties\<close>

text \<open>Replay of a log that may end in a torn record terminates and does exactly what the whole
  records say: into a table with room for the values, whose own log (if any) is another file, it
  returns the number of whole records, and the resulting map is the old one with those records
  applied in order.\<close>

theorem replay_applies_log:
  assumes "fs_files f path = Some (take n (concat (map wal_write_record rs)))"
    and "list_all wal_ok rs" "ht_inv t" "map_bytes (ht_map t) + set_bytes rs \<le> ht_limit t"
    and "\<forall>w. ht_wal_writer t = Some w \<longrightarrow> ww_filepath w \<noteq> path"
  shows "\<exists>f' t'. replay_wal clk f t path =
       Some (Inr (length (whole_records wal_write_record n rs), f', t')) \<and> ht_inv t' \<and>
     ht_map t' = apply_records clk 0 (ht_map t) (whole_records wal_write_record n rs)"
  by (rule replay_wal_applies [OF assms])

theorem replay_applies_log_witness:
  "\<exists>f' t'. replay_wal (\<lambda>_. (0, 0)) (fs_write wal_demo_fs ''w''
       (take 50 (concat (map wal_write_record wal_demo_records))))
     (snd (snd (ht_new wal_demo_fs 4 100 LRU []))) ''w'' =
     Some (Inr (length (whole_records wal_write_record 50 wal_demo_records), f', t'))"
proof -
  let ?f = "fs_write wal_demo_fs ''w'' (take 50 (concat (map wal_write_record wal_demo_records)))"
  obtain e f t where n: "ht_new wal_demo_fs 4 100 LRU [] = (e, f, t)" by (metis prod.collapse)
  note i = ht_new_inv [OF n]
  have 1: "fs_files ?f ''w'' = Some (take 50 (concat (map wal_write_record wal_demo_records)))"
    by (simp add: fs_write_def)
  have 2: "list_all wal_ok wal_demo_records"
    by (simp add: wal_demo_records_def wal_ok_def op_of_code_def)
  have 3: "map_bytes (ht_map t) + set_bytes wal_demo_records \<le> ht_limit t"
    using i by (simp add: map_bytes_def wal_demo_records_def)
  have 4: "\<forall>w. ht_wal_writer t = Some w \<longrightarrow> ww_filepath w \<noteq> ''w''"
    using n by (auto simp: ht_new_def)
  from replay_applies_log [OF 1 2 i(1) 3 4, of "\<lambda>_. (0, 0)"] n show ?thesis by auto
qed



text \<open>When a key is evicted by its own insert, its DELETE follows the SET in the log.\<close>

lemma self_evicting_insert_records:
  assumes "ht_inv t" "keys_ok (ht_map t)" "op_ok (KInsert k v)"
    and "case_prod self_evicts (ht_wal_append f t (set_record k v)) k"
  obtains f' t' rs where "ht_insert f t k v = Some (True, f', t')" "ht_map t' k = Some v"
    "logs f (ht_wal_writer t) rs f' (ht_wal_writer t')" "list_all logged rs"
    "set_bytes rs = length (ve_value v)" "\<forall>clk i m. apply_records clk i m rs k = None"
proof -
  obtain f' t' ks te where *: "ht_insert f t k v = Some (True, f', t')" "evicted t ks te"
      "ht_map t' = (ht_map te)(k \<mapsto> v)"
      "logs f (ht_wal_writer t) (set_record k v # map delete_record ks) f' (ht_wal_writer t')"
    and ev: "\<exists>fe. case_prod evict_if_needed (ht_wal_append f t (set_record k v)) = Some (fe, te)"
    by (rule ht_insert_effect [OF assms(1)]) blast
  have te: "ht_map te = ht_map t |` (- set ks)" "set ks \<subseteq> dom (ht_map t)"
    using *(2) by (simp_all add: evicted_def)
  obtain f1 w where "ht_wal_append f t (set_record k v) = (f1, t\<lparr>ht_wal_writer := w\<rparr>)"
    by (rule ht_wal_append_logs)
  with ev assms(4) have "ht_map t k \<noteq> None" "ht_map te k = None" by (auto simp: self_evicts_def)
  with te(1) have "k \<in> set ks" by (auto simp: restrict_map_def split: if_splits)
  then have "apply_records clk i m (set_record k v # map delete_record ks) k = None" for clk i m
    by (simp add: apply_deletes)
  moreover have "list_all logged (set_record k v # map delete_record ks)"
    using assms(3) logged_set logged_deletes [OF assms(2) te(2)] by simp
  moreover have "set_bytes (set_record k v # map delete_record ks) = length (ve_value v)"
    by (simp add: set_record_def)
  ultimately show thesis using that [OF *(1) _ *(4)] *(3) by simp
qed

lemma only_key_self_evicts:
  assumes "ht_inv t" "dom (ht_map t) = {k}" "k \<noteq> []" "ht_limit t < map_bytes (ht_map t)"
  shows "case_prod self_evicts (ht_wal_append f t (set_record k v)) k"
proof -
  obtain ks te where *: "evicted t ks te" "ht_limit te < map_bytes (ht_map te) \<longrightarrow> [] \<in> dom (ht_map te)"
    and ev: "\<exists>fe. case_prod evict_if_needed (ht_wal_append f t (set_record k v)) = Some (fe, te)"
    by (rule ht_insert_effect [OF assms(1)]) blast
  have te: "ht_map te = ht_map t |` (- set ks)" "set ks \<subseteq> {k}" "ht_limit te = ht_limit t"
    using *(1) assms(2) by (simp_all add: evicted_def)
  have "ks \<noteq> []"
  proof
    assume "ks = []"
    then have "ht_map te = ht_map t" using te(1) by (simp add: restrict_map_def)
    with *(2) te(3) assms(2-4) show False by auto
  qed
  with te(2) have "k \<in> set ks" by (cases ks) auto
  then have "ht_map te k = None" using te(1) by simp
  moreover obtain f1 w where "ht_wal_append f t (set_record k v) = (f1, t\<lparr>ht_wal_writer := w\<rparr>)"
    by (rule ht_wal_append_logs)
  moreover have "ht_map t k \<noteq> None" using assms(2) by auto
  ultimately show ?thesis using ev by (auto simp: self_evicts_def)
qed



section \<open>Replaying a table's own log\<close>

lemma replay_record_logs:
  assumes "ht_inv t" "keys_ok (ht_map t)" "logged r"
  obtains f' t' rs where "replay_record now f t r = Some (f', t')" "ht_inv t'" "keys_ok (ht_map t')"
    "logs f (ht_wal_writer t) rs f' (ht_wal_writer t')" "rs \<noteq> []" "list_all logged rs"
proof (cases "wr_op_type r = WAL_SET")
  case True
  let ?v = "value_entry_new (wr_value r) (wr_ttl_ns r)"
  obtain f' t' ks te where *: "ht_insert f t (wr_key r) ?v = Some (True, f', t')" "ht_inv t'"
      "evicted t ks te" "ht_map t' = (ht_map te)(wr_key r \<mapsto> ?v)"
      "logs f (ht_wal_writer t) (set_record (wr_key r) ?v # map delete_record ks) f' (ht_wal_writer t')"
    by (rule ht_insert_effect [OF assms(1)]) blast
  have te: "ht_map te = ht_map t |` (- set ks)" "set ks \<subseteq> dom (ht_map t)"
    using *(3) by (simp_all add: evicted_def)
  have l: "length (wr_key r) < 2 ^ 32" "length (ve_value ?v) < 2 ^ 32"
    using assms(3) by (simp_all add: logged_def wal_ok_def value_entry_new_def)
  have "keys_ok (ht_map t')"
    using assms(2) *(4) te(1) l(1) by (auto simp: keys_ok_def)
  moreover have "list_all logged (map delete_record ks)"
    by (rule logged_deletes [OF assms(2) te(2)])
  ultimately show thesis
    using that * True logged_set [OF l] by (fastforce simp: replay_record_def)
next
  case False
  then have d: "wr_op_type r = WAL_DELETE" "length (wr_key r) < 2 ^ 32"
    using assms(3) by (auto simp: logged_def wal_ok_def)
  obtain f' t' where "ht_remove f t (wr_key r) = (ht_map t (wr_key r) \<noteq> None, f', t')" "ht_inv t'"
      "ht_map t' = (ht_map t)(wr_key r := None)"
      "logs f (ht_wal_writer t) [delete_record (wr_key r)] f' (ht_wal_writer t')"
    by (rule ht_remove_effect [OF assms(1)])
  with that [of f' t' "[delete_record (wr_key r)]"] d logged_delete assms(2) show thesis
    by (auto simp: replay_record_def keys_ok_def)
qed

text \<open>The reader never catches up: the unread records of the file and the pending ones together
  are at least a batch, and fewer than a batch are pending, so there is always one more to read.\<close>

definition chasing :: "fs \<Rightarrow> hash_table \<Rightarrow> wal_reader \<Rightarrow> bool" where
  "chasing f t rd \<longleftrightarrow> ht_inv t \<and> keys_ok (ht_map t) \<and>
     (\<exists>w qs. ht_wal_writer t = Some w \<and> ww_filepath w = is_path (wrd_stream rd) \<and>
        length (ww_buffer w) < max 1 (ww_batch_size w) \<and> list_all logged (ww_buffer w) \<and>
        is_at f (wrd_stream rd) (concat (map wal_write_record qs)) \<and> list_all logged qs \<and>
        max 1 (ww_batch_size w) \<le> length qs + length (ww_buffer w))"

lemma is_at_grow:
  assumes "is_at f s bs" "is_pos s \<le> length (fs_contents f (is_path s))"
    and "fs_contents f' (is_path s) = fs_contents f (is_path s) @ cs"
  shows "is_at f' s (bs @ cs)"
  using assms by (simp add: is_at_def is_rest_def)

lemma chasing_step:
  assumes "chasing f t rd"
  obtains r rd' f' t' where "wal_read_next f rd = (Some r, rd')"
    "replay_record now f t r = Some (f', t')" "chasing f' t' rd'"
proof -
  obtain w qs where w: "ht_wal_writer t = Some w" "ww_filepath w = is_path (wrd_stream rd)"
      "length (ww_buffer w) < max 1 (ww_batch_size w)" "list_all logged (ww_buffer w)"
      "is_at f (wrd_stream rd) (concat (map wal_write_record qs))" "list_all logged qs"
      "max 1 (ww_batch_size w) \<le> length qs + length (ww_buffer w)"
    and t: "ht_inv t" "keys_ok (ht_map t)"
    using assms unfolding chasing_def by blast
  from w(3,7) obtain q qs' where qs: "qs = q # qs'" by (cases qs) auto
  have q: "wal_ok q" "logged q" "list_all logged qs'" using w(6) qs by (auto simp: logged_def)
  let ?n = "length (concat (map wal_write_record (q # qs')))"
  have at: "is_at f (wrd_stream rd) (take ?n (concat (map wal_write_record (q # qs'))))"
    using w(5) qs by simp
  obtain rd' where rd': "wal_read_next f rd = (Some q, rd')"
      "is_at f (wrd_stream rd') (concat (map wal_write_record qs'))"
      "is_path (wrd_stream rd') = is_path (wrd_stream rd)"
      "is_pos (wrd_stream rd') = is_pos (wrd_stream rd) + length (wal_write_record q)"
    by (rule wal_read_next_hit [OF q(1) at]) simp_all
  let ?p = "is_path (wrd_stream rd)"
  have "length (drop (is_pos (wrd_stream rd)) (fs_contents f ?p)) \<ge> length (wal_write_record q)"
    using at by (simp add: is_at_def is_rest_def)
  then have pos: "is_pos (wrd_stream rd') \<le> length (fs_contents f ?p)"
    using rd'(4) wal_write_record_nonempty [of q, folded length_greater_0_conv] by (simp only: length_drop)
  obtain f' t' rs where r: "replay_record now f t q = Some (f', t')" "ht_inv t'" "keys_ok (ht_map t')"
      "logs f (ht_wal_writer t) rs f' (ht_wal_writer t')" "rs \<noteq> []" "list_all logged rs"
    by (rule replay_record_logs [OF t q(2)])
  obtain w' where w': "ht_wal_writer t' = Some w'" "writer_logs f w rs f' w'"
    using r(4) w(1) by (auto simp: logs_def split: option.splits)
  obtain xs where xs: "ww_buffer w @ rs = xs @ ww_buffer w'"
      "fs_contents f' ?p = fs_contents f ?p @ concat (map wal_write_record xs)"
    using w'(2) w(2) unfolding writer_logs_def by metis
  have "is_at f' (wrd_stream rd') (concat (map wal_write_record (qs' @ xs)))"
    using is_at_grow [OF rd'(2)] pos xs(2) rd'(3) by simp
  moreover have "list_all logged (xs @ ww_buffer w')"
    using w(4) r(6) xs(1) by (metis list_all_append)
  moreover have "length xs + length (ww_buffer w') = length (ww_buffer w) + length rs"
    using xs(1) by (metis length_append)
  then have "max 1 (ww_batch_size w) \<le> length (qs' @ xs) + length (ww_buffer w')"
    using w(7) qs r(5) by (cases rs) auto
  moreover have "ww_filepath w' = ?p" "ww_batch_size w' = ww_batch_size w"
      "length (ww_buffer w') < max 1 (ww_batch_size w)"
    using w'(2) w(2,3) by (auto simp: writer_logs_def)
  ultimately have "chasing f' t' rd'"
    unfolding chasing_def using r(2,3) w'(1) rd'(3) q(3)
    by (intro conjI exI [of _ w'] exI [of _ "qs' @ xs"]) (simp_all only: list_all_append)
  with that rd'(1) r(1) show thesis by blast
qed

lemma chasing_diverges: "chasing f t rd \<Longrightarrow> replay_loop clk f t rd i = None"
proof -
  have "\<not> chasing f t rd" if "replay_loop clk f t rd i = Some y" for y
    using that
  proof (rule replay_loop.raw_induct [rotated, of clk f t rd i y "\<lambda>clk f t rd i y. \<not> chasing f t rd"])
    fix loop clk f t rd i y
    assume ih: "\<And>clk f t rd i y. loop clk f t rd i = Some y \<Longrightarrow> \<not> chasing f t rd"
      and eq: "(case wal_read_next f rd of (None, _) \<Rightarrow> Some (i, f, t)
        | (Some r, rd') \<Rightarrow> Option.bind (replay_record (clk i) f t r)
            (\<lambda>(f', t'). loop clk f' t' rd' (Suc i))) = Some y"
    show "\<not> chasing f t rd"
    proof
      assume "chasing f t rd"
      then obtain r rd' f' t' where s: "wal_read_next f rd = (Some r, rd')"
          "replay_record (clk i) f t r = Some (f', t')" "chasing f' t' rd'"
        by (rule chasing_step)
      then have "loop clk f' t' rd' (Suc i) = Some y" using eq by simp
      from ih [OF this] s(3) show False by blast
    qed
  qed
  then show "chasing f t rd \<Longrightarrow> ?thesis" by (cases "replay_loop clk f t rd i") auto
qed

text \<open>C37. Replaying a log into the table that is writing that very log does not end, as soon as
  the log holds a batch of records: every record replayed is logged again behind the reader.\<close>

theorem replay_own_log_diverges:
  assumes "ht_inv t" "keys_ok (ht_map t)" "ht_wal_writer t = Some w" "ww_filepath w = path"
    and "ww_buffer w = []" "max 1 (ww_batch_size w) \<le> length rs"
    and "fs_contents f path = concat (map wal_write_record rs)" "list_all logged rs"
  shows "replay_wal clk f t path = None"
proof -
  let ?rd = "\<lparr>wrd_stream = is_open path, wrd_records_read = 0\<rparr>"
  obtain r rs' where "rs = r # rs'" using assms(6) by (cases rs) auto
  then have "fs_contents f path \<noteq> []"
    using assms(7) wal_write_record_nonempty [of r] by simp
  then have "wal_reader_open f path = Inr ?rd"
    by (auto simp: wal_reader_open_def fs_contents_def split: option.splits)
  moreover have "chasing f t ?rd"
    unfolding chasing_def using assms is_at_open [of f path]
    by (intro conjI exI [of _ w] exI [of _ rs]) (simp_all add: is_open_def)
  ultimately show ?thesis
    using chasing_diverges by (simp add: replay_wal_def)
qed

theorem replay_own_log_diverges_witness:
  "\<exists>f t w. ht_wal_writer t = Some w \<and> ww_filepath w = ''w'' \<and> ww_batch_size w = 2 \<and>
     replay_wal (\<lambda>_. (0, 0)) f t ''w'' = None"
proof -
  let ?f = "fs_write wal_demo_fs ''w'' (concat (map wal_write_record wal_demo_records))"
  obtain e f0 t0 where n: "ht_new ?f 4 100 LRU [] = (e, f0, t0)" by (metis prod.collapse)
  note i = ht_new_inv [OF n]
  let ?w = "\<lparr>ww_filepath = ''w'', ww_batch_size = 2, ww_buffer = [], ww_file_size = 0\<rparr>"
  let ?t = "t0\<lparr>ht_wal_writer := Some ?w\<rparr>"
  have "list_all logged wal_demo_records" "length wal_demo_records = 3"
    by (simp_all add: wal_demo_records_def logged_def wal_ok_def op_of_code_def)
  then have "replay_wal (\<lambda>_. (0, 0)) ?f ?t ''w'' = None"
    using i by (intro replay_own_log_diverges [of ?t ?w "''w''" wal_demo_records]) (simp_all add: keys_ok_def)
  then show ?thesis by (intro exI [of _ ?f] exI [of _ ?t] exI [of _ ?w]) simp
qed

end
