(* ===== verification/Table_Properties.thy ===== *)
theory Table_Properties
  imports Hash_Table_Correct
begin

text \<open>
  The hash table as a state machine and the properties a client relies on: what inserting, getting,
  removing and scanning do to the stored map and to the memory in use, and that every state
  reachable from a fresh table satisfies the invariant, for both eviction policies and with or
  without a log.
\<close>

section \<open>The table as a state machine\<close>

inductive ht_step :: "fs \<times> hash_table \<Rightarrow> fs \<times> hash_table \<Rightarrow> bool" where
  ht_step_insert: "ht_insert f t key v = Some (r, f', t') \<Longrightarrow> ht_step (f, t) (f', t')"
| ht_step_remove: "ht_remove f t key = (r, f', t') \<Longrightarrow> ht_step (f, t) (f', t')"
| ht_step_get: "ht_get now now' t key = (r, t') \<Longrightarrow> ht_step (f, t) (f, t')"
| ht_step_scan: "set samples \<subseteq> {..<length (ht_buckets t)} \<Longrightarrow>
    scan_expired_keys clock samples f t = (f', t') \<Longrightarrow> ht_step (f, t) (f', t')"
| ht_step_flush: "flush_wal f t = (f', t') \<Longrightarrow> ht_step (f, t) (f', t')"
| ht_step_enable: "enable_wal f t path b = (e, f', t') \<Longrightarrow> ht_step (f, t) (f', t')"
| ht_step_truncate: "truncate_wal f t = (e, f', t') \<Longrightarrow> ht_step (f, t) (f', t')"

lemma flush_wal_frame:
  assumes "flush_wal f t = (f', t')"
  shows "ht_buckets t' = ht_buckets t" "ht_num_entries t' = ht_num_entries t"
    "ht_policy t' = ht_policy t"
  using assms by (auto simp: flush_wal_def split: option.splits prod.splits)

lemma ht_insert_step:
  assumes "ht_inv t" "ht_load_ok t" "ht_insert f t key v = Some (r, f', t')"
  shows "ht_inv t' \<and> ht_load_ok t' \<and> ht_limit t' = ht_limit t"
proof -
  obtain ks te where *: "ht_inv t'" "evicted t ks te" "ht_inv te"
      "t' = ht_store (resize_if_needed te) key v"
    using ht_insert_effect [OF assms(1), of f key v] assms(3) by (metis option.inject prod.inject)
  have "ht_load_ok te"
    using assms(2) evicted_entries [OF assms(1) *(3,2)] *(2)
    by (auto simp: ht_load_ok_def evicted_def)
  then have "ht_load_ok t'" unfolding *(4) by (rule ht_store_load [OF *(3)])
  moreover have "ht_limit t' = ht_limit t"
    using *(2) ht_resize(3) [OF *(3)] unfolding *(4) ht_store_frame
    by (simp add: evicted_def ht_limit_def)
  ultimately show ?thesis using *(1) by simp
qed

lemma ht_get_step:
  assumes "ht_inv t" "ht_get now now' t key = (r, t')"
  shows "ht_inv t' \<and> ht_limit t' = ht_limit t \<and> ht_num_entries t' = ht_num_entries t \<and>
    length (ht_buckets t') = length (ht_buckets t)"
proof (cases "\<forall>v. ht_map t key = Some v \<longrightarrow> is_expired now v")
  case True
  have "ht_wf t" using assms(1) by (simp add: ht_inv_def)
  from ht_get_miss [OF this True] assms show ?thesis by simp
next
  case False
  then obtain v where "ht_map t key = Some v" "\<not> is_expired now v" by blast
  from ht_get_hit [OF assms(1) this, of now'] assms(2) show ?thesis by (metis prod.inject)
qed

lemma ht_step_inv:
  assumes "ht_step (f, t) (f', t')" "ht_inv t" "ht_load_ok t"
  shows "ht_inv t' \<and> ht_load_ok t' \<and> ht_limit t' = ht_limit t"
  using assms(1)
proof (cases rule: ht_step.cases)
  case (ht_step_insert key v r)
  then show ?thesis using ht_insert_step assms by blast
next
  case (ht_step_remove key r)
  with ht_remove_effect [OF assms(2), of f key] assms(3) show ?thesis
    by (metis (no_types, lifting) ht_load_ok_def mult_le_mono2 order_trans prod.inject)
next
  case (ht_step_get now now' key r)
  with ht_get_step [OF assms(2)] assms(3) show ?thesis by (simp add: ht_load_ok_def)
next
  case (ht_step_scan samples clock)
  with ht_remove_all_effect [OF assms(2), of f "scan_expired clock t samples"] assms(3) show ?thesis
    by (auto simp: scan_expired_keys_def ht_load_ok_def)
next
  case ht_step_flush
  with flush_wal_frame ht_inv_cong assms show ?thesis unfolding ht_load_ok_def by metis
next
  case (ht_step_enable path b e)
  with enable_wal_frame ht_inv_cong assms show ?thesis unfolding ht_load_ok_def by metis
next
  case (ht_step_truncate e)
  with truncate_wal_frame ht_inv_cong assms show ?thesis unfolding ht_load_ok_def by metis
qed

lemma ht_steps_inv:
  assumes "rtranclp ht_step (f, t) (f', t')" "ht_inv t" "ht_load_ok t"
  shows "ht_inv t' \<and> ht_load_ok t' \<and> ht_limit t' = ht_limit t"
  using assms
proof (induction "(f', t')" arbitrary: f' t' rule: rtranclp_induct)
  case (step s)
  obtain f1 t1 where "s = (f1, t1)" by force
  with step ht_step_inv [of f1 t1 f' t'] show ?case by simp
qed simp

section \<open>A sample table for the witnesses\<close>

definition sample_table :: hash_table where
  "sample_table =
     ht_store (ht_store (snd (snd (ht_new wal_demo_fs 3 4 LRU []))) ''a'' (value_entry_new ''one'' 0))
       ''b'' (value_entry_new ''two'' 9)"

lemma sample_table_inv: "ht_inv sample_table"
  and sample_table_map: "ht_map sample_table =
        [''a'' \<mapsto> value_entry_new ''one'' 0, ''b'' \<mapsto> value_entry_new ''two'' 9]"
  and sample_table_limit: "ht_limit sample_table = 4"
proof -
  obtain e f t where n: "ht_new wal_demo_fs 3 4 LRU [] = (e, f, t)" by (metis prod.collapse)
  note i = ht_new_inv [OF n]
  note a = ht_store_inv [OF i(1), of "''a''" "value_entry_new ''one'' 0"]
  note b = ht_store_inv [OF a(1), of "''b''" "value_entry_new ''two'' 9"]
  show "ht_inv sample_table" using b(1) by (simp add: sample_table_def n)
  show "ht_map sample_table =
        [''a'' \<mapsto> value_entry_new ''one'' 0, ''b'' \<mapsto> value_entry_new ''two'' 9]"
    using a(2) b(2) i(2) by (simp add: sample_table_def n)
  show "ht_limit sample_table = 4" using i(3) by (simp add: sample_table_def n)
qed

section \<open>Properties\<close>

text \<open>C2. Every table reachable from a fresh one by any interleaving of inserts, reads, removals,
  expiry scans and log operations, under either policy, satisfies the representation invariant and
  has at most 0.75 * buckets + 1 entries, and its memory limit is the one it was created with.\<close>

theorem ht_reachable_inv:
  assumes "ht_new f0 cap limit kind path = (e, f1, t1)" "rtranclp ht_step (f1, t1) (f, t)"
  shows "ht_inv t \<and> 4 * ht_num_entries t \<le> 3 * length (ht_buckets t) + 4 \<and> ht_limit t = limit"
  using ht_steps_inv [OF assms(2)] ht_new_inv [OF assms(1)] ht_new_state [OF assms(1)]
  by (simp add: ht_load_ok_def)

theorem ht_reachable_inv_witness:
  "\<exists>e f t f' t'. ht_new wal_demo_fs 3 4 LFU ''w'' = (e, f, t) \<and>
     rtranclp ht_step (f, t) (f', t') \<and> ht_map t' ''k'' \<noteq> None \<and> ht_inv t'"
proof -
  obtain e f t where n: "ht_new wal_demo_fs 3 4 LFU ''w'' = (e, f, t)" by (metis prod.collapse)
  obtain f' t' where i: "ht_insert f t ''k'' (value_entry_new ''v'' 0) = Some (True, f', t')"
      "ht_map t' ''k'' = Some (value_entry_new ''v'' 0)"
    using ht_insert_effect [OF ht_new_inv(1) [OF n], of f "''k''" "value_entry_new ''v'' 0"]
    by (metis fun_upd_same)
  have "rtranclp ht_step (f, t) (f', t')"
    using ht_step_insert [OF i(1)] by (rule r_into_rtranclp)
  with ht_reachable_inv [OF n this] n i(2) show ?thesis by blast
qed

text \<open>C1. Insert terminates, succeeds and refines a map update: from a table in its invariant it
  returns true in a table in its invariant whose map is the old one without some evicted keys, which
  were all present, with the key bound to the value; and if the table was within its memory limit,
  nothing is evicted.\<close>

theorem ht_insert_refines:
  assumes "ht_inv t"
  shows "\<exists>f' t' ks. ht_insert f t key v = Some (True, f', t') \<and> ht_inv t' \<and>
     ht_map t' = (ht_map t |` (- set ks))(key \<mapsto> v) \<and> set ks \<subseteq> dom (ht_map t) \<and>
     (map_bytes (ht_map t) \<le> ht_limit t \<longrightarrow> ks = [])"
proof -
  obtain f' t' ks te where *: "ht_insert f t key v = Some (True, f', t')" "ht_inv t'"
      "evicted t ks te" "ht_map t' = (ht_map te)(key \<mapsto> v)"
    by (rule ht_insert_effect [OF assms]) blast
  with no_pressure_no_evictions [OF assms *(3)] show ?thesis
    unfolding evicted_def by metis
qed

theorem ht_insert_refines_witness:
  "\<exists>f' t' ks. ht_insert wal_demo_fs sample_table ''c'' (value_entry_new ''x'' 0) = Some (True, f', t') \<and>
     ht_map t' = (ht_map sample_table |` (- set ks))(''c'' \<mapsto> value_entry_new ''x'' 0)"
  using ht_insert_refines [OF sample_table_inv, of wal_demo_fs "''c''" "value_entry_new ''x'' 0"] by blast

text \<open>C11. Memory bound and minimal eviction: unless the empty string is stored as a key, after an
  insert the values take at most the limit plus the size of the value just inserted; and eviction
  stops as soon as the limit is met: with the value of the last victim put back the table would be
  over the limit.\<close>

theorem ht_insert_memory_bound:
  assumes "ht_inv t" "ht_map t [] = None"
  shows "\<exists>f' t' ks. ht_insert f t key v = Some (True, f', t') \<and>
     map_bytes (ht_map t') \<le> ht_limit t + length (ve_value v) \<and>
     ht_map t' = (ht_map t |` (- set ks))(key \<mapsto> v) \<and>
     (ks \<noteq> [] \<longrightarrow>
        ht_limit t < map_bytes ((ht_map t |` (- set ks))(last ks := ht_map t (last ks))))"
proof -
  obtain f' t' ks te where *: "ht_insert f t key v = Some (True, f', t')" "ht_inv te"
      "evicted t ks te" "ht_map t' = (ht_map te)(key \<mapsto> v)"
      "ht_limit te < map_bytes (ht_map te) \<longrightarrow> [] \<in> dom (ht_map te)"
    by (rule ht_insert_effect [OF assms(1)]) blast
  have te: "ht_map te = ht_map t |` (- set ks)" "ht_limit te = ht_limit t"
    using *(3) by (simp_all add: evicted_def)
  then have "[] \<notin> dom (ht_map te)" using assms(2) by (auto simp: restrict_map_def split: if_splits)
  with *(5) te(2) have "map_bytes (ht_map te) \<le> ht_limit t" by (metis not_le)
  with map_bytes_upd_le [OF ht_finite [OF *(2)], of key v] *(4)
  have "map_bytes (ht_map t') \<le> ht_limit t + length (ve_value v)" by simp
  with *(1,3,4) te(1) show ?thesis unfolding evicted_def by metis
qed

theorem ht_insert_memory_bound_witness:
  "\<exists>f' t'. ht_insert wal_demo_fs sample_table ''c'' (value_entry_new ''x'' 0) = Some (True, f', t') \<and>
     map_bytes (ht_map t') \<le> 5"
proof -
  have "ht_map sample_table [] = None" by (simp add: sample_table_map)
  from ht_insert_memory_bound [OF sample_table_inv this, of wal_demo_fs "''c''" "value_entry_new ''x'' 0"]
  show ?thesis by (auto simp: sample_table_limit value_entry_new_def)
qed



text \<open>C10. Remove refines deletion: it returns whether the key was stored, afterwards the key is gone
  and every other key is as before, and the values take exactly the removed size less.\<close>

theorem ht_remove_refines:
  assumes "ht_inv t"
  shows "\<exists>f' t'. ht_remove f t key = (ht_map t key \<noteq> None, f', t') \<and> ht_inv t' \<and>
     ht_map t' = (ht_map t)(key := None) \<and>
     map_bytes (ht_map t) =
       map_bytes (ht_map t') + (case ht_map t key of None \<Rightarrow> 0 | Some v \<Rightarrow> length (ve_value v))"
proof -
  obtain f' t' where *: "ht_remove f t key = (ht_map t key \<noteq> None, f', t')" "ht_inv t'"
      "ht_map t' = (ht_map t)(key := None)"
    by (rule ht_remove_effect [OF assms]) blast
  have "map_bytes (ht_map t) =
      map_bytes (ht_map t') + (case ht_map t key of None \<Rightarrow> 0 | Some v \<Rightarrow> length (ve_value v))"
  proof (cases "ht_map t key")
    case None
    then have "(ht_map t)(key := None) = ht_map t" by auto
    with None *(3) show ?thesis by simp
  next
    case (Some v)
    with map_bytes_remove [OF ht_finite [OF assms] Some] *(3) show ?thesis by simp
  qed
  with * show ?thesis by blast
qed

theorem ht_remove_refines_witness:
  "\<exists>f' t'. ht_remove wal_demo_fs sample_table ''a'' = (True, f', t') \<and> ht_map t' ''a'' = None \<and>
     ht_map t' ''b'' = Some (value_entry_new ''two'' 9)"
proof -
  obtain f' t' where "ht_remove wal_demo_fs sample_table ''a'' =
      (ht_map sample_table ''a'' \<noteq> None, f', t')" "ht_map t' = (ht_map sample_table)(''a'' := None)"
    using ht_remove_refines [OF sample_table_inv, of wal_demo_fs "''a''"] by blast
  then show ?thesis by (simp add: sample_table_map)
qed

text \<open>The constructor gives an empty table in its invariant for every initial capacity, 0
  included: the number of buckets is a power of two, at least the requested capacity and less
  than twice it (or 1).\<close>

theorem ht_new_empty:
  assumes "ht_new f cap limit kind path = (e, f', t)"
  shows "ht_inv t \<and> ht_map t = (\<lambda>_. None) \<and> ht_num_entries t = 0 \<and>
     (\<exists>j. length (ht_buckets t) = 2 ^ j) \<and> cap \<le> length (ht_buckets t) \<and>
     (length (ht_buckets t) = 1 \<or> length (ht_buckets t) < 2 * cap)"
  using ht_new_inv [OF assms] ht_new_state [OF assms] ht_capacity_bounds [of 0 cap] by simp

theorem ht_new_empty_witness:
  "\<exists>e f t. ht_new wal_demo_fs 5 100 LFU ''w'' = (e, f, t) \<and> 5 \<le> length (ht_buckets t) \<and>
     length (ht_buckets t) < 10"
proof -
  obtain e f t where n: "ht_new wal_demo_fs 5 100 LFU ''w'' = (e, f, t)" by (metis prod.collapse)
  from ht_new_empty [OF n] n show ?thesis by auto
qed

lemma scan_expired_complete:
  assumes "ht_inv t" "ht_map t k = Some v" "ve_expiry_ns v \<noteq> 0" "\<forall>i. ve_expiry_ns v \<le> now i"
    and "bucket_idx (ht_hash k) (length (ht_buckets t)) \<in> set samples"
  shows "k \<in> set (scan_expired now t samples)"
proof -
  let ?b = "bucket_idx (ht_hash k) (length (ht_buckets t))"
  let ?kvs = "concat (map (\<lambda>b. ht_buckets t ! b) samples)"
  have "buckets_wf (ht_buckets t)" using assms(1) by (simp add: ht_inv_def ht_wf_def)
  then obtain kv where kv: "chain_find k (ht_buckets t ! ?b) = Some kv" "kv_value kv = v"
    using buckets_find_Some assms(2) unfolding ht_map_def by blast
  then have "kv \<in> set (ht_buckets t ! ?b)" "kv_key kv = k"
    using chain_find_split by (metis in_set_conv_decomp, metis)
  then have "kv \<in> set ?kvs" using assms(5) by auto
  then obtain i where i: "i < length ?kvs" "?kvs ! i = kv" by (metis in_set_conv_nth)
  then have "(i, kv) \<in> set (enumerate 0 ?kvs)" by (simp add: in_set_enumerate_eq)
  moreover have "is_expired (now i) (kv_value kv)"
    using assms(3,4) kv(2) by (simp add: is_expired_def)
  ultimately show ?thesis
    using \<open>kv_key kv = k\<close> unfolding scan_expired_def by force
qed

text \<open>C24. One round of the expiry scanner, whatever buckets it draws: it keeps every entry without
  expiry and every entry that expires after the last clock reading, changes no entry it keeps, and
  removes every expired entry in the buckets it draws.\<close>

theorem scan_removes_exactly_expired:
  assumes "ht_inv t" "set samples \<subseteq> {..<length (ht_buckets t)}" "\<forall>i. now i \<le> latest"
  shows "\<exists>f' t'. scan_expired_keys now samples f t = (f', t') \<and> ht_inv t' \<and>
     (\<forall>k v. ht_map t' k = Some v \<longrightarrow> ht_map t k = Some v) \<and>
     (\<forall>k v. ht_map t k = Some v \<longrightarrow> ve_expiry_ns v = 0 \<or> latest < ve_expiry_ns v \<longrightarrow>
        ht_map t' k = Some v) \<and>
     (\<forall>k v. ht_map t k = Some v \<longrightarrow> ve_expiry_ns v \<noteq> 0 \<longrightarrow> (\<forall>i. ve_expiry_ns v \<le> now i) \<longrightarrow>
        bucket_idx (ht_hash k) (length (ht_buckets t)) \<in> set samples \<longrightarrow> ht_map t' k = None)"
proof -
  let ?ks = "scan_expired now t samples"
  obtain f' t' where *: "scan_expired_keys now samples f t = (f', t')" "ht_inv t'"
      "ht_map t' = ht_map t |` (- set ?ks)"
    using ht_remove_all_effect [OF assms(1), of f ?ks] by (auto simp: scan_expired_keys_def)
  have keep: "k \<notin> set ?ks" if "ht_map t k = Some v" "ve_expiry_ns v = 0 \<or> latest < ve_expiry_ns v" for k v
  proof
    assume "k \<in> set ?ks"
    then obtain v' i where "ht_map t k = Some v'" "is_expired (now i) v'"
      by (rule scan_expired_sound [OF _ assms(1,2)])
    with that(1) have "is_expired (now i) v" by simp
    with that(2) assms(3) show False
      by (metis is_expired_def leD order_trans)
  qed
  have "\<forall>k v. ht_map t k = Some v \<longrightarrow> ve_expiry_ns v = 0 \<or> latest < ve_expiry_ns v \<longrightarrow>
      ht_map t' k = Some v"
    using keep *(3) by (simp add: restrict_map_def)
  moreover have "\<forall>k v. ht_map t' k = Some v \<longrightarrow> ht_map t k = Some v"
    using *(3) by (simp add: restrict_map_def)
  moreover have "\<forall>k v. ht_map t k = Some v \<longrightarrow> ve_expiry_ns v \<noteq> 0 \<longrightarrow>
      (\<forall>i. ve_expiry_ns v \<le> now i) \<longrightarrow>
      bucket_idx (ht_hash k) (length (ht_buckets t)) \<in> set samples \<longrightarrow> ht_map t' k = None"
    using scan_expired_complete [OF assms(1)] *(3) by (simp add: restrict_map_def)
  ultimately show ?thesis using * by blast
qed

theorem scan_removes_exactly_expired_witness:
  "\<exists>f' t'. scan_expired_keys (\<lambda>_. 20) [bucket_idx (ht_hash ''b'') (length (ht_buckets sample_table))]
      wal_demo_fs sample_table = (f', t') \<and>
     ht_map t' ''a'' = Some (value_entry_new ''one'' 0) \<and> ht_map t' ''b'' = None"
proof -
  let ?b = "bucket_idx (ht_hash ''b'') (length (ht_buckets sample_table))"
  have "ht_buckets sample_table \<noteq> []"
    using sample_table_inv by (simp add: ht_inv_def ht_wf_def buckets_wf_def)
  then have "set [?b] \<subseteq> {..<length (ht_buckets sample_table)}" by simp
  then obtain f' t' where r: "scan_expired_keys (\<lambda>_. 20) [?b] wal_demo_fs sample_table = (f', t')"
    and keep: "\<forall>k v. ht_map sample_table k = Some v \<longrightarrow>
      ve_expiry_ns v = 0 \<or> 20 < ve_expiry_ns v \<longrightarrow> ht_map t' k = Some v"
    and drop: "\<forall>k v. ht_map sample_table k = Some v \<longrightarrow> ve_expiry_ns v \<noteq> 0 \<longrightarrow>
      (\<forall>i::nat. ve_expiry_ns v \<le> 20) \<longrightarrow>
      bucket_idx (ht_hash k) (length (ht_buckets sample_table)) \<in> set [?b] \<longrightarrow> ht_map t' k = None"
    using scan_removes_exactly_expired [OF sample_table_inv, of "[?b]" "\<lambda>_. 20" 20 wal_demo_fs] by blast
  have "ht_map t' ''a'' = Some (value_entry_new ''one'' 0)"
    by (rule keep [rule_format]) (simp_all add: sample_table_map value_entry_new_def)
  moreover have "ht_map t' ''b'' = None"
    by (rule drop [rule_format, of _ "value_entry_new ''two'' 9"])
      (simp_all add: sample_table_map value_entry_new_def)
  ultimately show ?thesis using r by blast
qed

lemma lru_candidate_last: "lru_keys p \<noteq> [] \<Longrightarrow> lru_get_eviction_candidate p = last (lru_keys p)"
  by (auto simp: lru_get_eviction_candidate_def lru_keys_def last_map)

lemma last_remove1: "distinct xs \<Longrightarrow> xs \<noteq> [] \<Longrightarrow> last xs \<noteq> x \<Longrightarrow>
    remove1 x xs \<noteq> [] \<and> last (remove1 x xs) = last xs"
  by (induction xs) (auto split: if_splits)

text \<open>C38. A stored empty key that is least recently used switches LRU eviction off: its name doubles
  as "no candidate", so an insert of any other key evicts nothing, however far the table is above
  its limit, and the empty key stays the least recently used one.\<close>

theorem empty_key_blocks_eviction:
  assumes "ht_inv t" "ht_policy t = LRU_Policy p" "lru_keys p \<noteq> []" "last (lru_keys p) = []"
    and "key \<noteq> []"
  shows "\<exists>f' t' p'. ht_insert f t key v = Some (True, f', t') \<and> ht_map t' = (ht_map t)(key \<mapsto> v) \<and>
     ht_policy t' = LRU_Policy p' \<and> lru_keys p' \<noteq> [] \<and> last (lru_keys p') = []"
proof -
  obtain f1 w where w: "ht_wal_append f t (set_record key v) = (f1, t\<lparr>ht_wal_writer := w\<rparr>)"
    by (rule ht_wal_append_logs)
  let ?t = "t\<lparr>ht_wal_writer := w\<rparr>"
  have inv: "ht_inv ?t" "lru_inv p" using assms(1,2) by (simp_all add: ht_inv_def ht_kind_def)
  have d: "distinct (lru_keys p)" using inv(2) by (simp add: lru_inv_def)
  have "?t\<lparr>ht_policy := LRU_Policy p\<rparr> = ?t" using assms(2) by (cases t) simp
  then have "evict_if_needed f1 ?t = Some (f1, ?t)"
    using lru_candidate_last [OF assms(3)] assms(2,4) by (subst evict_if_needed.simps) simp
  then have i: "ht_insert f t key v = Some (True, f1, ht_store (resize_if_needed ?t) key v)"
    by (simp add: ht_insert_def w)
  note re = ht_resize [OF inv(1)]
  have "ht_map (ht_store (resize_if_needed ?t) key v) = (ht_map t)(key \<mapsto> v)"
    using ht_store_inv(2) [OF re(1), of key v] re(2) by simp
  moreover have "\<exists>p'. ht_policy (ht_store (resize_if_needed ?t) key v) = LRU_Policy p' \<and>
      lru_keys p' \<noteq> [] \<and> last (lru_keys p') = []"
    using re(3) assms(2-5) lru_keys_delete [OF inv(2)] last_remove1 [OF d assms(3), of key]
    by (auto simp: ht_store_def Let_def lru_keys_insert split: option.split)
  ultimately show ?thesis using i by blast
qed

theorem empty_key_blocks_eviction_witness:
  "\<exists>t. ht_inv t \<and> ht_limit t = 1 \<and> (\<exists>f' t'.
     ht_insert wal_demo_fs t ''k'' (value_entry_new ''22'' 0) = Some (True, f', t') \<and>
     ht_map t' = [[] \<mapsto> value_entry_new ''4444'' 0, ''k'' \<mapsto> value_entry_new ''22'' 0])"
proof -
  obtain e f t0 where n: "ht_new wal_demo_fs 2 1 LRU [] = (e, f, t0)" by (metis prod.collapse)
  note i = ht_new_inv [OF n] and s = ht_new_state [OF n]
  let ?t = "ht_store t0 [] (value_entry_new ''4444'' 0)"
  let ?p = "lru_on_insert (lru_new 1) [] 4 0"
  have none: "chain_find [] (ht_buckets t0 ! bucket_idx (ht_hash []) (length (ht_buckets t0))) = None"
    using i(1,2) by (intro buckets_find_None) (simp_all add: ht_inv_def ht_wf_def ht_map_def)
  have p: "ht_policy ?t = LRU_Policy ?p"
    using none s by (simp add: ht_store_def Let_def value_entry_new_def ve_stamp_def eval_nat_numeral)
  have k: "lru_keys ?p = [[]]"
    unfolding lru_keys_insert by (simp add: lru_keys_def lru_new_def)
  note st = ht_store_inv [OF i(1), of "[]" "value_entry_new ''4444'' 0"]
  obtain f' t' where "ht_insert wal_demo_fs ?t ''k'' (value_entry_new ''22'' 0) = Some (True, f', t')"
      "ht_map t' = (ht_map ?t)(''k'' \<mapsto> value_entry_new ''22'' 0)"
    using empty_key_blocks_eviction [OF st(1) p, of "''k''" wal_demo_fs "value_entry_new ''22'' 0"] k
    by auto
  moreover have "ht_limit ?t = 1" using i(3) by simp
  ultimately show ?thesis
    using st i(2) by (intro exI [of _ ?t]) simp
qed

end
