(* ===== verification/CRC64.thy ===== *)
theory CRC64
  imports KV_Prelude
begin

text \<open>
  \<open>CRC64\<close> of \<open>engine/include/snapshot.h\<close> and \<open>engine/src/snapshot.cpp\<close>: the table-driven checksum of
  snapshot files. \<open>crc_shift\<close> is the inner step of \<open>init_table\<close>; the table and \<open>update\<close> follow the
  code. The lemmas show that the step is linear for exclusive or and that the table-driven update
  is the bit-serial one, from which the error detection guarantees follow.
\<close>

section \<open>The checksum\<close>

definition crc_poly :: u64 where
  "crc_poly = 0x42F0E1EBA9EA3693"

definition crc_shift :: "u64 \<Rightarrow> u64" where
  "crc_shift crc = (if crc AND 1 \<noteq> 0 then drop_bit 1 crc XOR crc_poly else drop_bit 1 crc)"

definition crc_table_entry :: "nat \<Rightarrow> u64" where
  "crc_table_entry i = (crc_shift ^^ 8) (word_of_nat i)"

definition crc_table :: "u64 list" where
  "crc_table = map crc_table_entry [0..<256]"

definition crc_init :: u64 where
  "crc_init = 0xFFFFFFFFFFFFFFFF"

definition crc_byte :: "u64 \<Rightarrow> char \<Rightarrow> u64" where
  "crc_byte crc b =
     drop_bit 8 crc XOR crc_table ! unat ((crc XOR word_of_nat (of_char b)) AND 0xFF)"

definition crc_update :: "u64 \<Rightarrow> string \<Rightarrow> u64" where
  "crc_update crc bs = foldl crc_byte crc bs"

section \<open>Linearity\<close>

lemma xor_eq_0_u64: "x XOR y = 0 \<longleftrightarrow> x = (y :: u64)"
proof
  assume "x XOR y = 0"
  then have "(x XOR y) XOR y = 0 XOR y" by simp
  then show "x = y" by (simp add: xor.assoc)
qed simp

lemma small_word_bit:
  assumes "u < 2 ^ m" "m \<le> n"
  shows "\<not> bit (word_of_nat u :: u64) n"
proof -
  have "take_bit m (word_of_nat u :: u64) = word_of_nat u"
    using assms(1) by (simp add: take_bit_nat_eq_self flip: of_nat_take_bit)
  then show ?thesis
    using assms(2) by (metis bit_take_bit_iff not_le)
qed

lemma and_1_xor: "(a XOR b) AND 1 \<noteq> (0::u64) \<longleftrightarrow> (a AND 1 \<noteq> 0) \<noteq> (b AND 1 \<noteq> 0)"
  by (simp add: and_one_eq flip: even_iff_mod_2_eq_zero) (simp add: even_xor_iff mod_2_eq_odd)

lemma crc_shift_xor: "crc_shift (a XOR b) = crc_shift a XOR crc_shift b"
  unfolding crc_shift_def and_1_xor
  by (auto simp: drop_bit_xor xor.assoc xor.commute xor.left_commute)

lemma crc_shifts_xor: "(crc_shift ^^ n) (a XOR b) = (crc_shift ^^ n) a XOR (crc_shift ^^ n) b"
  by (induction n) (simp_all add: crc_shift_xor)

lemma crc_shift_0 [simp]: "crc_shift 0 = 0"
  by (simp add: crc_shift_def)

lemma crc_shifts_0 [simp]: "(crc_shift ^^ n) 0 = 0"
  by (induction n) simp_all

text \<open>With its low n bits clear, n steps only shift.\<close>

lemma crc_shifts_high:
  assumes "take_bit n x = (0::u64)"
  shows "(crc_shift ^^ n) x = drop_bit n x"
  using assms
proof (induction n arbitrary: x)
  case (Suc n)
  have b: "\<not> bit x k" if "k < Suc n" "k < 64" for k
    using Suc.prems that by (metis bit_0_eq bit_take_bit_iff bot_apply bot_bool_def)
  then have "\<not> bit x 0" by simp
  then have "crc_shift x = drop_bit 1 x"
    by (simp add: crc_shift_def and_one_eq bit_0 mod_2_eq_odd)
  moreover have "take_bit n (drop_bit 1 x) = 0"
  proof (rule bit_eqI)
    fix j
    have "\<not> (j < n \<and> bit x (Suc j))" using b [of "Suc j"] bit_imp_le_length [of x "Suc j"] by auto
    then show "bit (take_bit n (drop_bit 1 x)) j \<longleftrightarrow> bit 0 j"
      by (simp add: bit_take_bit_iff bit_drop_bit_eq)
  qed
  then have "(crc_shift ^^ n) (drop_bit 1 x) = drop_bit n (drop_bit 1 x)" by (rule Suc.IH)
  ultimately show ?case by (simp add: funpow_swap1 add.commute)
qed simp

lemma crc_byte_bitserial: "crc_byte crc b = (crc_shift ^^ 8) (crc XOR word_of_nat (of_char b))"
proof -
  let ?x = "crc XOR word_of_nat (of_char b) :: u64"
  let ?lo = "?x AND 0xFF" and ?hi = "push_bit 8 (drop_bit 8 ?x)"
  have m: "(0xFF :: u64) = mask 8" by (simp add: mask_eq_exp_minus_1)
  have lo: "?lo = take_bit 8 ?x" unfolding m by (simp add: take_bit_eq_mask)
  have "?x = ?hi XOR ?lo"
    unfolding lo by (intro bit_eqI)
      (auto simp: bit_xor_iff bit_push_bit_iff bit_drop_bit_eq bit_take_bit_iff possible_bit_word)
  then have "(crc_shift ^^ 8) ?x = (crc_shift ^^ 8) ?hi XOR (crc_shift ^^ 8) ?lo"
    using crc_shifts_xor by metis
  moreover have "take_bit 8 ?hi = 0"
    by (simp only: take_bit_push_bit) simp
  then have "(crc_shift ^^ 8) ?hi = drop_bit 8 ?hi" by (rule crc_shifts_high)
  moreover have "drop_bit 8 ?hi = drop_bit 8 crc"
  proof -
    have b: "\<not> bit (word_of_nat (of_char b) :: u64) (8 + n)" for n
      by (rule small_word_bit [of _ 8]) simp_all
    show ?thesis
      using b by (intro bit_eqI)
        (auto simp: bit_drop_bit_eq bit_push_bit_iff bit_xor_iff possible_bit_word dest: bit_imp_le_length)
  qed
  moreover have "crc_table ! unat ?lo = (crc_shift ^^ 8) ?lo"
  proof -
    have "unat ?lo < 2 ^ 8"
      unfolding lo unsigned_take_bit_eq by (rule take_bit_nat_less_exp)
    then show ?thesis by (simp add: crc_table_def crc_table_entry_def)
  qed
  ultimately show ?thesis by (simp add: crc_byte_def)
qed

lemma crc_update_Nil [simp]: "crc_update c [] = c"
  by (simp add: crc_update_def)

lemma crc_update_Cons [simp]: "crc_update c (b # bs) = crc_update (crc_byte c b) bs"
  by (simp add: crc_update_def)

lemma crc_update_append: "crc_update c (bs @ cs) = crc_update (crc_update c bs) cs"
  by (simp add: crc_update_def)

text \<open>Two states run over the same bytes: their difference only shifts.\<close>

lemma crc_update_diff:
  "crc_update a bs XOR crc_update b bs = (crc_shift ^^ (8 * length bs)) (a XOR b)"
proof (induction bs arbitrary: a b)
  case (Cons c bs)
  have "crc_byte a c XOR crc_byte b c = (crc_shift ^^ 8) (a XOR b)"
    unfolding crc_byte_bitserial crc_shifts_xor [symmetric]
    by (simp add: xor.assoc xor.left_commute xor.commute [of b])
  moreover have "8 * length (c # bs) = 8 * length bs + 8" by simp
  ultimately show ?case
    using Cons.IH [of "crc_byte a c" "crc_byte b c"]
    by (simp only: crc_update_Cons funpow_add comp_def)
qed simp

section \<open>Short messages as words\<close>

lemma word_le_val_Cons:
  assumes "le_val bs < 2 ^ 56"
  shows "(word_of_nat (le_val (b # bs)) :: u64) =
    word_of_nat (of_char b) XOR push_bit 8 (word_of_nat (le_val bs))"
proof -
  let ?b = "word_of_nat (of_char b) :: u64" and ?v = "word_of_nat (le_val bs) :: u64"
  have "\<not> bit ?b n" if "8 \<le> n" for n
    using that by (intro small_word_bit [of _ 8]) simp_all
  then have "?b AND push_bit 8 ?v = 0"
    by (intro bit_eqI) (auto simp: bit_and_iff bit_push_bit_iff)
  then have "?b + push_bit 8 ?v = ?b XOR push_bit 8 ?v" by (rule disjunctive_add_eq_xor)
  then show ?thesis by (simp add: push_bit_eq_mult mult.commute)
qed

lemma drop_push_word:
  assumes "v < 2 ^ 56"
  shows "drop_bit 8 (push_bit 8 (word_of_nat v :: u64)) = word_of_nat v"
proof (rule bit_eqI)
  fix n
  show "bit (drop_bit 8 (push_bit 8 (word_of_nat v :: u64))) n \<longleftrightarrow> bit (word_of_nat v :: u64) n"
    using small_word_bit [OF assms, of n]
    by (cases "n < 56") (simp_all add: bit_drop_bit_eq bit_push_bit_iff)
qed

lemma crc_update_word:
  assumes "length bs \<le> 8"
  shows "crc_update c bs = (crc_shift ^^ (8 * length bs)) (c XOR word_of_nat (le_val bs))"
  using assms
proof (induction bs arbitrary: c)
  case (Cons b bs)
  let ?b = "word_of_nat (of_char b) :: u64" and ?v = "word_of_nat (le_val bs) :: u64"
  have "le_val bs < 256 ^ length bs" by (rule le_val_less)
  also have "\<dots> \<le> 256 ^ 7" using Cons.prems by (intro power_increasing) simp_all
  finally have v: "le_val bs < 2 ^ 56" by simp
  have "take_bit 8 (push_bit 8 ?v) = 0" by (simp only: take_bit_push_bit) simp
  then have "(crc_shift ^^ 8) (push_bit 8 ?v) = ?v"
    using crc_shifts_high drop_push_word [OF v] by metis
  then have "(crc_shift ^^ 8) (c XOR word_of_nat (le_val (b # bs))) = crc_byte c b XOR ?v"
    unfolding word_le_val_Cons [OF v] crc_byte_bitserial by (simp add: crc_shifts_xor xor.assoc)
  moreover have "8 * length (b # bs) = 8 * length bs + 8" by simp
  ultimately show ?case
    using Cons.IH [of "crc_byte c b"] Cons.prems by (simp only: crc_update_Cons funpow_add comp_def list.size)
qed simp

section \<open>No non-zero difference dies out\<close>

lemma bit_crc_poly: "bit crc_poly 62" "\<not> bit crc_poly 63"
  by (simp_all add: crc_poly_def)

lemma crc_shift_top: "\<not> bit (crc_shift x) 63"
  using bit_crc_poly by (auto simp: crc_shift_def bit_xor_iff bit_drop_bit_eq dest: bit_imp_le_length)

lemma crc_shift_nonzero:
  assumes "\<not> bit z 63" "z \<noteq> 0"
  shows "crc_shift z \<noteq> 0"
proof (cases "z AND 1 \<noteq> 0")
  case True
  show ?thesis
  proof
    assume "crc_shift z = 0"
    then have "drop_bit 1 z = crc_poly" using True by (simp add: crc_shift_def xor_eq_0_u64)
    then have "bit (drop_bit 1 z) 62" using bit_crc_poly(1) by simp
    then have "bit z 63" by (simp add: bit_drop_bit_eq)
    with assms(1) show False by simp
  qed
next
  case False
  then have "\<not> bit z 0" by (simp add: and_one_eq bit_0 mod_2_eq_odd)
  obtain n where n: "bit z n" using assms(2) by (metis bit_eqI bit_0_eq bot_apply bot_bool_def)
  with \<open>\<not> bit z 0\<close> obtain m where "n = Suc m" by (cases n) auto
  with n have "bit (drop_bit 1 z) m" by (simp add: bit_drop_bit_eq)
  with False show ?thesis by (auto simp: crc_shift_def)
qed

lemma crc_shifts_nonzero:
  assumes "\<not> bit z 63" "z \<noteq> 0"
  shows "(crc_shift ^^ n) z \<noteq> 0"
proof -
  have "\<not> bit ((crc_shift ^^ n) z) 63 \<and> (crc_shift ^^ n) z \<noteq> 0"
    using assms by (induction n) (simp_all add: crc_shift_nonzero crc_shift_top)
  then show ?thesis by blast
qed

lemma crc_burst:
  assumes "length bs = length bs'" "length bs \<le> 7" "bs \<noteq> bs'"
  shows "crc_update c (bs @ s) \<noteq> crc_update c (bs' @ s)"
proof -
  let ?w = "word_of_nat (le_val bs) :: u64" and ?w' = "word_of_nat (le_val bs') :: u64"
  have small: "le_val cs < 2 ^ 56" if "length cs \<le> 7" for cs
  proof -
    have "le_val cs < 256 ^ length cs" by (rule le_val_less)
    also have "\<dots> \<le> 256 ^ 7" using that by (intro power_increasing) simp_all
    finally show ?thesis by simp
  qed
  have v: "le_val bs < 2 ^ 56" "le_val bs' < 2 ^ 56" using small assms(1,2) by simp_all
  have "le_val bs \<noteq> le_val bs'"
    using le_bytes_le_val [of bs] le_bytes_le_val [of bs'] assms(1,3) by metis
  then have "?w \<noteq> ?w'" using v by (simp add: word_of_nat_eq_iff take_bit_nat_eq_self)
  then have nz: "?w XOR ?w' \<noteq> 0" by (simp add: xor_eq_0_u64)
  have top: "\<not> bit (?w XOR ?w') 63"
    using small_word_bit [OF v(1), of 63] small_word_bit [OF v(2), of 63] by (simp add: bit_xor_iff)
  have "crc_update c bs XOR crc_update c bs' = (crc_shift ^^ (8 * length bs)) (?w XOR ?w')"
    using assms(1,2) by (simp add: crc_update_word flip: crc_shifts_xor)
      (simp add: xor.assoc xor.left_commute)
  then have "crc_update c (bs @ s) XOR crc_update c (bs' @ s) =
      (crc_shift ^^ (8 * length s + 8 * length bs)) (?w XOR ?w')"
    by (simp add: crc_update_append crc_update_diff funpow_add)
  with crc_shifts_nonzero [OF top nz] show ?thesis by (metis xor_self_eq)
qed

section \<open>Properties\<close>

text \<open>The checksum computed bit by bit, without a table.\<close>

definition crc_bitserial :: "u64 \<Rightarrow> string \<Rightarrow> u64" where
  "crc_bitserial crc bs = foldl (\<lambda>c b. (crc_shift ^^ 8) (c XOR word_of_nat (of_char b))) crc bs"

text \<open>C33. The table-driven update computes the same checksum as the bit-serial one, on every state
  and every message.\<close>

theorem crc_table_driven_equiv: "crc_update crc bs = crc_bitserial crc bs"
  by (simp add: crc_update_def crc_bitserial_def flip: crc_byte_bitserial)

text \<open>C31. Burst errors are always detected: two messages of the same length that differ only inside
  a window of at most seven adjacent bytes have different checksums, whatever comes before and
  after the window.\<close>

theorem crc_detects_bursts:
  assumes "length bs = length bs'" "length bs \<le> 7" "bs \<noteq> bs'"
  shows "crc_update c (pre @ bs @ post) \<noteq> crc_update c (pre @ bs' @ post)"
  using crc_burst [OF assms, of "crc_update c pre" post] by (simp add: crc_update_append)

theorem crc_detects_bursts_witness:
  "crc_update crc_init (''head'' @ ''abcdefg'' @ ''tail'') \<noteq>
     crc_update crc_init (''head'' @ ''gfedcba'' @ ''tail'')"
  by (rule crc_detects_bursts) simp_all

text \<open>The checksum never uses its top bit: the polynomial is applied unreflected in a loop that
  shifts right, so after any byte bit 63 is clear and only 63 bits protect a snapshot.\<close>

theorem crc_top_bit_clear:
  assumes "bs \<noteq> []"
  shows "unat (crc_update c bs) < 2 ^ 63"
proof -
  obtain cs b where bs: "bs = cs @ [b]" using assms by (cases bs rule: rev_cases) auto
  let ?x = "crc_update c bs"
  have "?x = crc_shift ((crc_shift ^^ 7) (crc_update c cs XOR word_of_nat (of_char b)))"
    unfolding bs crc_update_append by (simp add: crc_byte_bitserial eval_nat_numeral)
  then have "\<not> bit ?x 63" using crc_shift_top by simp
  then have "bit ?x n \<Longrightarrow> n < 63" for n
    using bit_imp_le_length [of ?x n] by (cases "n = 63") auto
  then have "take_bit 63 ?x = ?x"
    by (intro bit_eqI) (auto simp: bit_take_bit_iff)
  then have "unat ?x = take_bit 63 (unat ?x)" by (metis unsigned_take_bit_eq)
  then show ?thesis using take_bit_nat_less_exp [of 63 "unat ?x"] by simp
qed

theorem crc_top_bit_clear_witness: "unat (crc_update crc_init ''KVSNAP01'') < 2 ^ 63"
  by (rule crc_top_bit_clear) simp

end
