(* ===== verification/Snapshot.thy ===== *)
theory Snapshot
  imports Table_Properties CRC64
begin

text \<open>
  Snapshots (\<open>engine/include/snapshot.h\<close>, \<open>engine/src/snapshot.cpp\<close>, and \<open>create_snapshot\<close> and
  \<open>load_snapshot\<close> of \<open>engine/src/hash_table.cpp\<close>): the file format, the writer that seeks back to
  fill in the checksum, and the reader that inserts entries as it goes and compares the checksum at
  the end.

  The writer returns whether its stream is still good after the last flush. The parameter \<open>room\<close> is
  the number of bytes the device takes for the file: a write that goes beyond it is cut there and
  makes the stream bad, and a bad stream ignores further writes and seeks.

  The reader does not check that its header reads deliver all bytes. What the local variables
  \<open>magic\<close> and \<open>num_entries\<close> hold when a read comes up short is indeterminate in C++; the model takes
  their previous contents as parameters. A read fills a prefix of the variable and leaves the rest.
\<close>

section \<open>Writing\<close>

definition SNAPSHOT_MAGIC :: u64 where
  "SNAPSHOT_MAGIC = 0x4B56534E41503031"

datatype snapshot_error = Failed_to_open_write string | Failed_to_open_read string

record snapshot_writer =
  sw_filepath :: string
  sw_pos :: nat
  sw_room :: nat
  sw_good :: bool
  sw_crc :: u64

definition snapshot_writer_open :: "nat \<Rightarrow> fs \<Rightarrow> string \<Rightarrow> snapshot_error + (fs \<times> snapshot_writer)" where
  "snapshot_writer_open room f path =
     (if fs_can_open f path
      then Inr (fs_write f path [],
             \<lparr>sw_filepath = path, sw_pos = 0, sw_room = room, sw_good = True, sw_crc = crc_init\<rparr>)
      else Inl (Failed_to_open_write path))"

text \<open>\<open>file_.write\<close> at the put position, the same followed by \<open>crc_.update\<close>, and \<open>file_.seekp\<close>.\<close>

definition sw_write :: "string \<Rightarrow> fs \<times> snapshot_writer \<Rightarrow> fs \<times> snapshot_writer" where
  "sw_write bs = (\<lambda>(f, w).
     if \<not> sw_good w then (f, w)
     else let c = fs_contents f (sw_filepath w);
              bs' = take (sw_room w - sw_pos w) bs
          in (fs_write f (sw_filepath w) (take (sw_pos w) c @ bs' @ drop (sw_pos w + length bs') c),
              w\<lparr>sw_pos := sw_pos w + length bs', sw_good := (length bs' = length bs)\<rparr>))"

definition sw_seek :: "nat \<Rightarrow> fs \<times> snapshot_writer \<Rightarrow> fs \<times> snapshot_writer" where
  "sw_seek pos = (\<lambda>(f, w). (f, if sw_good w then w\<lparr>sw_pos := pos\<rparr> else w))"

definition sw_put :: "string \<Rightarrow> fs \<times> snapshot_writer \<Rightarrow> fs \<times> snapshot_writer" where
  "sw_put bs s = (case sw_write bs s of (f, w) \<Rightarrow> (f, w\<lparr>sw_crc := crc_update (sw_crc w) bs\<rparr>))"

text \<open>The fields of an entry in the order they are written; lengths are truncated to 32 bits.\<close>

definition entry_fields :: "string \<Rightarrow> value_entry \<Rightarrow> string list" where
  "entry_fields key v =
     (let key_len = word_of_nat (length key) :: u32;
          value_len = word_of_nat (length (ve_value v)) :: u32
      in [u32_bytes key_len, take (unat key_len) key,
          u32_bytes value_len, take (unat value_len) (ve_value v),
          u64_bytes (ve_expiry_ns v), u64_bytes (ve_access_count v), u64_bytes (ve_last_access_ns v)])"

definition snapshot_write_entry :: "string \<Rightarrow> value_entry \<Rightarrow> fs \<times> snapshot_writer \<Rightarrow> fs \<times> snapshot_writer" where
  "snapshot_write_entry key v = fold sw_put (entry_fields key v)"

definition for_each :: "(string \<Rightarrow> value_entry \<Rightarrow> 's \<Rightarrow> 's) \<Rightarrow> hash_table \<Rightarrow> 's \<Rightarrow> 's" where
  "for_each func t = fold (fold (\<lambda>kv. func (kv_key kv) (kv_value kv))) (ht_buckets t)"

definition snapshot_write :: "hash_table \<Rightarrow> fs \<times> snapshot_writer \<Rightarrow> bool \<times> fs \<times> snapshot_writer" where
  "snapshot_write t s =
     (let (f, w) = s;
          s = (f, w\<lparr>sw_crc := crc_init\<rparr>);
          s = sw_put (u64_bytes SNAPSHOT_MAGIC) s;
          crc_pos = sw_pos (snd s);
          s = sw_write (u64_bytes 0) s;
          s = sw_put (u64_bytes (word_of_nat (ht_num_entries t))) s;
          s = for_each snapshot_write_entry t s;
          final_crc = sw_crc (snd s);
          s = sw_seek crc_pos s;
          s = sw_write (u64_bytes final_crc) s
      in (sw_good (snd s), s))"

definition create_snapshot :: "nat \<Rightarrow> fs \<Rightarrow> hash_table \<Rightarrow> string \<Rightarrow> snapshot_error + (bool \<times> fs)" where
  "create_snapshot room f t path =
     (case snapshot_writer_open room f path of
        Inl e \<Rightarrow> Inl e
      | Inr s \<Rightarrow> (case snapshot_write t s of (ok, f', _) \<Rightarrow> Inr (ok, f')))"

section \<open>Reading\<close>

definition is_read_into :: "fs \<Rightarrow> string \<Rightarrow> istream \<Rightarrow> string \<times> istream" where
  "is_read_into f var s =
     (case is_read f (length var) s of (bs, s') \<Rightarrow> (bs @ drop (length bs) var, s'))"

text \<open>\<open>read_entry\<close>: the reads with their early returns, and the checksum of the fields read. What
  the checksum is after an early return does not matter: the caller gives up.\<close>

definition snapshot_read_fields :: "fs \<Rightarrow> istream \<Rightarrow> (string \<times> value_entry) option \<times> istream" where
  "snapshot_read_fields f =
     rd_bind (read_exact f 4) (\<lambda>kl.
     rd_bind (read_exact f (unat (u32_of_bytes kl))) (\<lambda>key.
     rd_bind (read_exact f 4) (\<lambda>vl.
     rd_bind (read_exact f (unat (u32_of_bytes vl))) (\<lambda>val.
     rd_bind (read_exact f 8) (\<lambda>ttl.
     rd_bind (read_exact f 8) (\<lambda>cnt.
     rd_bind (read_exact f 8) (\<lambda>acc.
     rd_return (key, \<lparr>ve_value = val, ve_access_count = u64_of_bytes cnt,
       ve_last_access_ns = u64_of_bytes acc, ve_expiry_ns = u64_of_bytes ttl\<rparr>))))))))"

definition snapshot_read_entry :: "fs \<Rightarrow> u64 \<Rightarrow> istream \<Rightarrow> (string \<times> value_entry \<times> u64) option \<times> istream" where
  "snapshot_read_entry f crc s =
     (case snapshot_read_fields f s of
        (None, s') \<Rightarrow> (None, s')
      | (Some (key, v), s') \<Rightarrow> (Some (key, v, fold (\<lambda>bs c. crc_update c bs) (entry_fields key v) crc), s'))"

fun snapshot_read_entries :: "nat \<Rightarrow> u64 \<Rightarrow> fs \<Rightarrow> hash_table \<Rightarrow> istream \<Rightarrow>
    (bool \<times> u64 \<times> fs \<times> hash_table) option" where
  "snapshot_read_entries 0 crc f t s = Some (True, crc, f, t)"
| "snapshot_read_entries (Suc n) crc f t s =
     (case snapshot_read_entry f crc s of
        (None, _) \<Rightarrow> Some (False, crc, f, t)
      | (Some (key, v, crc'), s') \<Rightarrow>
          Option.bind (ht_insert f t key v) (\<lambda>(_, f', t'). snapshot_read_entries n crc' f' t' s'))"

text \<open>The result: what \<open>read\<close> returns, the stored and the computed checksum, files and table.\<close>

definition snapshot_read :: "u64 \<Rightarrow> u64 \<Rightarrow> fs \<Rightarrow> hash_table \<Rightarrow> istream \<Rightarrow>
    (bool \<times> u64 \<times> u64 \<times> fs \<times> hash_table) option" where
  "snapshot_read magic num_entries f t s =
     (let (mb, s) = is_read_into f (u64_bytes magic) s
      in if u64_of_bytes mb \<noteq> SNAPSHOT_MAGIC then Some (False, 0, crc_init, f, t)
         else let crc = crc_update crc_init mb;
                  (cb, s) = is_read_into f (u64_bytes 0) s;
                  (nb, s) = is_read_into f (u64_bytes num_entries) s;
                  crc = crc_update crc nb
              in map_option (\<lambda>(ok, crc, f, t). (ok, u64_of_bytes cb, crc, f, t))
                   (snapshot_read_entries (unat (u64_of_bytes nb)) crc f t s))"

definition verify_checksum :: "u64 \<Rightarrow> u64 \<Rightarrow> bool" where
  "verify_checksum computed stored \<longleftrightarrow> computed = stored"

definition snapshot_size :: "fs \<Rightarrow> string \<Rightarrow> nat" where
  "snapshot_size f path = (case fs_files f path of Some bytes \<Rightarrow> length bytes | None \<Rightarrow> 0)"

definition load_snapshot :: "u64 \<Rightarrow> u64 \<Rightarrow> fs \<Rightarrow> hash_table \<Rightarrow> string \<Rightarrow>
    (snapshot_error + bool \<times> fs \<times> hash_table) option" where
  "load_snapshot magic num_entries f t path =
     (case fs_files f path of
        None \<Rightarrow> Some (Inl (Failed_to_open_read path))
      | Some _ \<Rightarrow>
          map_option (\<lambda>(success, stored, computed, f, t).
              Inr (if success \<and> \<not> verify_checksum computed stored then False else success, f, t))
            (snapshot_read magic num_entries f t (is_open path)))"

section \<open>The format\<close>

type_synonym entry = "string \<times> value_entry"

definition entry_bytes :: "entry \<Rightarrow> string" where
  "entry_bytes e = concat (entry_fields (fst e) (snd e))"

definition entry_ok :: "entry \<Rightarrow> bool" where
  "entry_ok e \<longleftrightarrow> length (fst e) < 2 ^ 32 \<and> length (ve_value (snd e)) < 2 ^ 32"

definition snap_body :: "entry list \<Rightarrow> string" where
  "snap_body es = u64_bytes (word_of_nat (length es)) @ concat (map entry_bytes es)"

definition snap_crc :: "string \<Rightarrow> u64" where
  "snap_crc body = crc_update crc_init (u64_bytes SNAPSHOT_MAGIC @ body)"

definition snap_file :: "u64 \<Rightarrow> string \<Rightarrow> string" where
  "snap_file crc body = u64_bytes SNAPSHOT_MAGIC @ u64_bytes crc @ body"

lemma entry_reads:
  assumes "entry_ok e"
  shows "reads f (snapshot_read_fields f) (entry_bytes e) e"
proof -
  obtain key v where e: "e = (key, v)" by force
  let ?k = "word_of_nat (length key) :: u32" and ?v = "word_of_nat (length (ve_value v)) :: u32"
  have k: "unat ?k = length key" "unat ?v = length (ve_value v)"
    using assms e by (simp_all add: entry_ok_def unat_of_nat_u32)
  have enc: "entry_bytes e = u32_bytes ?k @ key @ u32_bytes ?v @ ve_value v @
      u64_bytes (ve_expiry_ns v) @ u64_bytes (ve_access_count v) @ u64_bytes (ve_last_access_ns v) @ []"
    by (simp add: entry_bytes_def entry_fields_def Let_def e k)
  have ret: "reads f (rd_return (key, \<lparr>ve_value = ve_value v,
      ve_access_count = u64_of_bytes (u64_bytes (ve_access_count v)),
      ve_last_access_ns = u64_of_bytes (u64_bytes (ve_last_access_ns v)),
      ve_expiry_ns = u64_of_bytes (u64_bytes (ve_expiry_ns v))\<rparr>)) [] e"
    using reads_return [of f e] e by (cases v) simp
  show ?thesis
    unfolding enc snapshot_read_fields_def
    by (rule ret reads_exact reads_bind | simp add: k)+
qed

interpretation snap: record_codec entry_bytes snapshot_read_fields entry_ok
proof
  fix e f s rest
  assume "entry_ok e" "is_at f s (entry_bytes e @ rest)"
  then show "\<exists>s'. snapshot_read_fields f s = (Some e, s') \<and> is_at f s' rest \<and> is_path s' = is_path s
      \<and> is_pos s' = is_pos s + length (entry_bytes e)"
    using entry_reads [of e f] unfolding reads_def by blast
next
  fix e n f s
  assume "entry_ok e" "n < length (entry_bytes e)" "is_at f s (take n (entry_bytes e))"
  then have "fst (snapshot_read_fields f s) = None"
    using entry_reads [of e f] unfolding reads_def by blast
  then show "\<exists>s'. snapshot_read_fields f s = (None, s')"
    by (cases "snapshot_read_fields f s") simp
qed

lemma crc_fields: "fold (\<lambda>bs c. crc_update c bs) bss crc = crc_update crc (concat bss)"
  by (induction bss arbitrary: crc) (simp_all add: crc_update_append)

section \<open>What is written\<close>

definition ht_entries :: "hash_table \<Rightarrow> entry list" where
  "ht_entries t = map kv_pair (concat (ht_buckets t))"

lemma map_of_ht_entries: "map_of (ht_entries t) = ht_map t"
  by (simp add: ht_entries_def ht_map_def buckets_map_def pairs_map_def)

text \<open>A writer that was given c so far: the file has what there was room for.\<close>

definition sw_state :: "nat \<Rightarrow> fs \<Rightarrow> string \<Rightarrow> string \<Rightarrow> u64 \<Rightarrow> fs \<times> snapshot_writer" where
  "sw_state room f path c crc = (fs_write f path (take room c),
     \<lparr>sw_filepath = path, sw_pos = min room (length c), sw_room = room, sw_good = (length c \<le> room), sw_crc = crc\<rparr>)"

lemma fs_write_write [simp]: "fs_write (fs_write f p a) p b = fs_write f p b"
  by (simp add: fs_write_def)

lemma sw_write_state: "sw_write bs (sw_state room f path c crc) = sw_state room f path (c @ bs) crc"
  by (auto simp: sw_write_def sw_state_def Let_def min_def)

lemma sw_put_state: "sw_put bs (sw_state room f path c crc) = sw_state room f path (c @ bs) (crc_update crc bs)"
  by (simp add: sw_put_def sw_write_state) (simp add: sw_state_def)

lemma fold_sw_put_state:
  "fold sw_put bss (sw_state room f path c crc) =
     sw_state room f path (c @ concat bss) (crc_update crc (concat bss))"
  by (induction bss arbitrary: c crc) (simp_all add: sw_put_state crc_update_append)

lemma write_entries_state:
  "fold (\<lambda>e. snapshot_write_entry (fst e) (snd e)) es (sw_state room f path c crc) =
     sw_state room f path (c @ concat (map entry_bytes es)) (crc_update crc (concat (map entry_bytes es)))"
  by (induction es arbitrary: c crc)
    (simp_all add: snapshot_write_entry_def fold_sw_put_state entry_bytes_def crc_update_append)

lemma for_each_entries: "for_each func t = fold (\<lambda>e. func (fst e) (snd e)) (ht_entries t)"
proof -
  have "fold (fold g) bs = fold g (concat bs)" for g :: "'b \<Rightarrow> 'c \<Rightarrow> 'c" and bs
    by (induction bs) (simp_all add: fun_eq_iff)
  then show ?thesis by (simp add: for_each_def ht_entries_def fold_map comp_def)
qed

text \<open>Filling in the checksum: in a complete file the eight bytes at position 8 are replaced, and
  nothing happens to an incomplete one.\<close>

lemma sw_finish:
  assumes "length a = 8" "length b = 8" "length bs = 8" "16 + length body \<le> room"
  shows "sw_write bs (sw_seek 8 (sw_state room f path (a @ b @ body) crc)) =
    (fs_write f path (a @ bs @ body),
     \<lparr>sw_filepath = path, sw_pos = 16, sw_room = room, sw_good = True, sw_crc = crc\<rparr>)"
  using assms by (simp add: sw_write_def sw_seek_def sw_state_def Let_def)

lemma sw_finish_bad:
  "room < length c \<Longrightarrow> sw_write bs (sw_seek n (sw_state room f path c crc)) = sw_state room f path c crc"
  by (simp add: sw_write_def sw_seek_def sw_state_def)

lemma snapshot_write_state:
  assumes "ht_num_entries t = length (ht_entries t)" "body = snap_body (ht_entries t)"
    and "c = u64_bytes SNAPSHOT_MAGIC @ u64_bytes 0 @ body"
    and "s = sw_write (u64_bytes (snap_crc body)) (sw_seek (min room 8) (sw_state room f path c (snap_crc body)))"
  shows "snapshot_write t (sw_state room f path [] crc_init) = (sw_good (snd s), s)"
proof -
  have reset: "(case sw_state room f path [] crc_init of (f, w) \<Rightarrow> (f, w\<lparr>sw_crc := crc_init\<rparr>)) =
      sw_state room f path [] crc_init"
    by (simp add: sw_state_def)
  have pos: "sw_pos (snd (sw_state room f path c crc)) = min room (length c)"
      "sw_crc (snd (sw_state room f path c crc)) = crc" for c crc
    by (simp_all add: sw_state_def)
  show ?thesis
    unfolding snapshot_write_def Let_def
    by (simp add: reset [unfolded case_prod_unfold] sw_put_state sw_write_state for_each_entries
        write_entries_state case_prod_unfold pos)
      (simp add: assms snap_crc_def snap_body_def crc_update_append)
qed

definition snapshot_bytes :: "hash_table \<Rightarrow> string" where
  "snapshot_bytes t = snap_file (snap_crc (snap_body (ht_entries t))) (snap_body (ht_entries t))"

lemma create_snapshot_file:
  assumes "ht_wf t" "fs_can_open f path"
  shows "create_snapshot room f t path =
    (if length (snapshot_bytes t) \<le> room then Inr (True, fs_write f path (snapshot_bytes t))
     else Inr (False, fs_write f path (take room (snap_file 0 (snap_body (ht_entries t))))))"
proof -
  let ?body = "snap_body (ht_entries t)"
  let ?c = "u64_bytes SNAPSHOT_MAGIC @ u64_bytes 0 @ ?body"
  have n: "ht_num_entries t = length (ht_entries t)"
    using assms(1) by (simp add: ht_wf_def ht_entries_def)
  have open': "snapshot_writer_open room f path = Inr (sw_state room f path [] crc_init)"
    using assms(2) by (simp add: snapshot_writer_open_def sw_state_def)
  note w = create_snapshot_def open' snapshot_write_state [OF n refl refl refl] snapshot_bytes_def snap_file_def
  show ?thesis
  proof (cases "16 + length ?body \<le> room")
    case True
    then show ?thesis by (simp add: w sw_finish min_def)
  next
    case False
    then show ?thesis by (simp add: w sw_finish_bad) (simp add: sw_state_def)
  qed
qed

section \<open>What is read\<close>

definition upd_entries :: "(string \<Rightarrow> value_entry option) \<Rightarrow> entry list \<Rightarrow> string \<Rightarrow> value_entry option" where
  "upd_entries m es = foldl (\<lambda>m e. m(fst e \<mapsto> snd e)) m es"

definition entries_bytes :: "entry list \<Rightarrow> nat" where
  "entries_bytes es = sum_list (map (length \<circ> ve_value \<circ> snd) es)"

lemma upd_entries_Cons [simp]: "upd_entries m (e # es) = upd_entries (m(fst e \<mapsto> snd e)) es"
  by (simp add: upd_entries_def)

lemma upd_entries_Nil [simp]: "upd_entries m [] = m"
  by (simp add: upd_entries_def)

lemma upd_entries_distinct:
  assumes "distinct (map fst es)"
  shows "upd_entries m es = m ++ map_of es"
  using assms
proof (induction es arbitrary: m)
  case (Cons e es)
  then have "map_of es (fst e) = None" by (simp add: map_of_eq_None_iff)
  with Cons show ?case by (cases e) (auto simp: map_add_def fun_eq_iff split: option.splits)
qed simp

lemma read_entries_effect:
  assumes "list_all entry_ok es" "is_at f s (take n (concat (map entry_bytes es)))"
    and "ht_inv t" "map_bytes (ht_map t) + entries_bytes es \<le> ht_limit t"
    and "\<forall>w. ht_wal_writer t = Some w \<longrightarrow> ww_filepath w \<noteq> is_path s"
  shows "\<exists>f' t' crc'. snapshot_read_entries (length es) crc f t s =
       Some (length (whole_records entry_bytes n es) = length es, crc', f', t') \<and> ht_inv t' \<and>
     ht_map t' = upd_entries (ht_map t) (whole_records entry_bytes n es) \<and>
     ht_limit t' = ht_limit t \<and> (\<exists>rs. logs f (ht_wal_writer t) rs f' (ht_wal_writer t')) \<and>
     (length (concat (map entry_bytes es)) \<le> n \<longrightarrow>
        crc' = crc_update crc (concat (map entry_bytes es)))"
  using assms
proof (induction es arbitrary: f s t n crc)
  case Nil
  then show ?case using logs_refl by auto
next
  case (Cons e es)
  obtain key v where e: "e = (key, v)" by force
  have ok: "entry_ok e" "list_all entry_ok es" using Cons.prems(1) by simp_all
  show ?case
  proof (cases "length (entry_bytes e) \<le> n")
    case True
    let ?n = "n - length (entry_bytes e)"
    obtain s' where s': "snapshot_read_fields f s = (Some e, s')" "is_path s' = is_path s"
        "is_at f s' (take ?n (concat (map entry_bytes es)))"
      by (rule snap.rd_first [OF ok(1) Cons.prems(2) True])
    have rd: "snapshot_read_entry f crc s = (Some (key, v, crc_update crc (entry_bytes e)), s')"
      by (simp add: snapshot_read_entry_def s'(1) e crc_fields entry_bytes_def)
    have "map_bytes (ht_map t) \<le> ht_limit t" using Cons.prems(4) by simp
    then obtain f1 t1 where i: "ht_insert f t key v = Some (True, f1, t1)" "ht_inv t1"
        "ht_map t1 = (ht_map t)(key \<mapsto> v)" "ht_limit t1 = ht_limit t"
        "logs f (ht_wal_writer t) [set_record key v] f1 (ht_wal_writer t1)"
      by (rule ht_insert_fits [OF Cons.prems(3)])
    note o = logs_other_file [OF i(5) Cons.prems(5)]
    have at: "is_at f1 s' (take ?n (concat (map entry_bytes es)))"
      using s'(2,3) is_rest_cong [of f1 s' f] o(1) by (simp add: is_at_def)
    have fits: "map_bytes (ht_map t1) + entries_bytes es \<le> ht_limit t1"
      using map_bytes_upd_le [OF ht_finite [OF Cons.prems(3)], of key v] Cons.prems(4) i(3,4)
      by (simp add: entries_bytes_def e)
    have w': "\<forall>w. ht_wal_writer t1 = Some w \<longrightarrow> ww_filepath w \<noteq> is_path s'"
      using o(2) s'(2) by simp
    obtain f' t' crc' where r: "snapshot_read_entries (length es) (crc_update crc (entry_bytes e)) f1 t1 s' =
          Some (length (whole_records entry_bytes ?n es) = length es, crc', f', t')" "ht_inv t'"
        "ht_map t' = upd_entries (ht_map t1) (whole_records entry_bytes ?n es)"
        "ht_limit t' = ht_limit t1" "\<exists>rs. logs f1 (ht_wal_writer t1) rs f' (ht_wal_writer t')"
        "length (concat (map entry_bytes es)) \<le> ?n \<longrightarrow>
          crc' = crc_update (crc_update crc (entry_bytes e)) (concat (map entry_bytes es))"
      using Cons.IH [OF ok(2) at i(2) fits w', of "crc_update crc (entry_bytes e)"] by blast
    have "whole_records entry_bytes n (e # es) = e # whole_records entry_bytes ?n es"
      using True by simp
    moreover have "snapshot_read_entries (length (e # es)) crc f t s =
        Some (length (whole_records entry_bytes ?n es) = length es, crc', f', t')"
      using rd i(1) r(1) by simp
    moreover have "length (concat (map entry_bytes (e # es))) \<le> n \<longrightarrow>
        crc' = crc_update crc (concat (map entry_bytes (e # es)))"
      using r(6) True by (simp add: crc_update_append)
    moreover have "\<exists>rs. logs f (ht_wal_writer t) rs f' (ht_wal_writer t')"
      using r(5) i(5) logs_trans by blast
    ultimately show ?thesis
      using r(2-4) i(3,4) e by (intro exI [of _ f'] exI [of _ t'] exI [of _ crc']) simp
  next
    case False
    then have "fst (snapshot_read_fields f s) = None"
      by (intro snap.rd_first_torn [OF ok(1) Cons.prems(2)]) simp
    then have "fst (snapshot_read_entry f crc s) = None"
      by (simp add: snapshot_read_entry_def case_prod_unfold)
    with False Cons.prems(3) show ?thesis using logs_refl by (auto simp: case_prod_unfold)
  qed
qed

lemma is_read_into_full:
  assumes "is_at f s (bs @ rest)" "length bs = length var"
  obtains s' where "is_read_into f var s = (bs, s')" "is_at f s' rest" "is_path s' = is_path s"
proof -
  obtain s' where "is_read f (length var) s = (bs, s')" "is_at f s' rest" "is_path s' = is_path s"
    using is_read_full [OF assms(1), of "length var"] assms(2) by metis
  with that assms(2) show thesis by (simp add: is_read_into_def)
qed

lemma snapshot_read_header:
  assumes "is_at f s (snap_file crc (u64_bytes num @ rest))"
  obtains s' where "snapshot_read junk junk' f t s =
      map_option (\<lambda>(ok, computed, f, t). (ok, crc, computed, f, t))
        (snapshot_read_entries (unat num) (snap_crc (u64_bytes num)) f t s')"
    "is_at f s' rest" "is_path s' = is_path s"
proof -
  have "is_at f s (u64_bytes SNAPSHOT_MAGIC @ u64_bytes crc @ u64_bytes num @ rest)"
    using assms by (simp add: snap_file_def)
  then obtain s1 where 1: "is_read_into f (u64_bytes junk) s = (u64_bytes SNAPSHOT_MAGIC, s1)"
      "is_at f s1 (u64_bytes crc @ u64_bytes num @ rest)" "is_path s1 = is_path s"
    by (rule is_read_into_full [where var = "u64_bytes junk"]) simp_all
  from 1(2) obtain s2 where 2: "is_read_into f (u64_bytes 0) s1 = (u64_bytes crc, s2)"
      "is_at f s2 (u64_bytes num @ rest)" "is_path s2 = is_path s1"
    by (rule is_read_into_full [where var = "u64_bytes 0"]) simp_all
  from 2(2) obtain s3 where 3: "is_read_into f (u64_bytes junk') s2 = (u64_bytes num, s3)"
      "is_at f s3 rest" "is_path s3 = is_path s2"
    by (rule is_read_into_full [where var = "u64_bytes junk'"]) simp_all
  have "snapshot_read junk junk' f t s = map_option (\<lambda>(ok, computed, f, t). (ok, crc, computed, f, t))
        (snapshot_read_entries (unat num) (snap_crc (u64_bytes num)) f t s3)"
    by (simp add: snapshot_read_def 1(1) 2(1) 3(1) snap_crc_def crc_update_append)
  with that 1 2 3 show thesis by simp
qed

text \<open>Loading a file whose body is a byte prefix of a well-formed one, cut after the header.\<close>

lemma load_snapshot_effect:
  assumes "fs_files f path = Some (snap_file crc (u64_bytes (word_of_nat (length es)) @
      take n (concat (map entry_bytes es))))"
    and "list_all entry_ok es" "length es < 2 ^ 64"
    and "ht_inv t" "map_bytes (ht_map t) + entries_bytes es \<le> ht_limit t"
    and "\<forall>w. ht_wal_writer t = Some w \<longrightarrow> ww_filepath w \<noteq> path"
  shows "\<exists>f' t' crc'. load_snapshot junk junk' f t path =
       Some (Inr (length (whole_records entry_bytes n es) = length es \<and> crc' = crc, f', t')) \<and>
     ht_inv t' \<and> ht_map t' = upd_entries (ht_map t) (whole_records entry_bytes n es) \<and>
     ht_limit t' = ht_limit t \<and> (\<exists>rs. logs f (ht_wal_writer t) rs f' (ht_wal_writer t')) \<and>
     (length (concat (map entry_bytes es)) \<le> n \<longrightarrow> crc' = snap_crc (snap_body es))"
proof -
  let ?num = "word_of_nat (length es) :: u64"
  have "is_at f (is_open path) (snap_file crc (u64_bytes ?num @ take n (concat (map entry_bytes es))))"
    using is_at_open [of f path] assms(1) by (simp add: fs_contents_def)
  then obtain s' where h: "snapshot_read junk junk' f t (is_open path) =
      map_option (\<lambda>(ok, computed, f, t). (ok, crc, computed, f, t))
        (snapshot_read_entries (unat ?num) (snap_crc (u64_bytes ?num)) f t s')"
    "is_at f s' (take n (concat (map entry_bytes es)))" "is_path s' = is_path (is_open path)"
    by (rule snapshot_read_header)
  have num: "unat ?num = length es" using assms(3) by (rule unat_of_nat_u64)
  have "\<forall>w. ht_wal_writer t = Some w \<longrightarrow> ww_filepath w \<noteq> is_path s'"
    using assms(6) h(3) by (simp add: is_open_def)
  from read_entries_effect [OF assms(2) h(2) assms(4,5) this, of "snap_crc (u64_bytes ?num)"]
  obtain f' t' crc' where "snapshot_read_entries (length es) (snap_crc (u64_bytes ?num)) f t s' =
       Some (length (whole_records entry_bytes n es) = length es, crc', f', t')" "ht_inv t'"
     "ht_map t' = upd_entries (ht_map t) (whole_records entry_bytes n es)"
     "ht_limit t' = ht_limit t" "\<exists>rs. logs f (ht_wal_writer t) rs f' (ht_wal_writer t')"
     "length (concat (map entry_bytes es)) \<le> n \<longrightarrow>
        crc' = crc_update (snap_crc (u64_bytes ?num)) (concat (map entry_bytes es))" by blast
  moreover have "crc_update (snap_crc (u64_bytes ?num)) (concat (map entry_bytes es)) =
      snap_crc (snap_body es)"
    by (simp add: snap_crc_def snap_body_def crc_update_append)
  ultimately show ?thesis
    using assms(1) h(1) num by (auto simp: load_snapshot_def verify_checksum_def)
qed

lemma distinct_ht_entries: "ht_wf t \<Longrightarrow> distinct (map fst (ht_entries t))"
  by (simp add: ht_wf_def buckets_wf_def ht_entries_def)

lemma entries_bytes_map:
  "distinct (map fst es) \<Longrightarrow> entries_bytes es = map_bytes (map_of es)"
proof (induction es)
  case (Cons e es)
  obtain k v where e: "e = (k, v)" by force
  have "map_of es k = None" using Cons.prems e by (simp add: map_of_eq_None_iff)
  then have "map_bytes (map_of (e # es)) = map_bytes (map_of es) + length (ve_value v)"
    by (simp add: e map_bytes_insert finite_dom_map_of)
  moreover have "entries_bytes (e # es) = length (ve_value v) + entries_bytes es"
    by (simp add: entries_bytes_def e)
  ultimately show ?case using Cons by (simp only: list.map distinct.simps add.commute)
qed (simp add: entries_bytes_def map_bytes_def)

definition map_fits_format :: "(string \<Rightarrow> value_entry option) \<Rightarrow> bool" where
  "map_fits_format m \<longleftrightarrow> (\<forall>k v. m k = Some v \<longrightarrow> entry_ok (k, v))"

lemma ht_entries_ok:
  assumes "ht_wf t" "map_fits_format (ht_map t)"
  shows "list_all entry_ok (ht_entries t)"
  unfolding list_all_iff
proof
  fix e assume "e \<in> set (ht_entries t)"
  then have "map_of (ht_entries t) (fst e) = Some (snd e)"
    using distinct_ht_entries [OF assms(1)] by (simp add: map_of_is_SomeI)
  with assms(2) show "entry_ok e"
    unfolding map_of_ht_entries map_fits_format_def by (metis prod.collapse)
qed

text \<open>The size of a snapshot: 24 bytes of header and 32 per entry besides the key and the value.\<close>

definition map_snapshot_size :: "(string \<Rightarrow> value_entry option) \<Rightarrow> nat" where
  "map_snapshot_size m = 24 + (\<Sum>k \<in> dom m. 32 + length k + length (ve_value (the (m k))))"

lemma sum_list_map_of:
  assumes "distinct (map fst es)"
  shows "sum_list (map g es) = (\<Sum>k \<in> dom (map_of es). g (k, the (map_of es k)))"
proof -
  have "map g es = map (\<lambda>k. g (k, the (map_of es k))) (map fst es)"
    using assms by (auto simp: map_of_is_SomeI)
  then show ?thesis
    using assms by (simp only: sum_list_distinct_conv_sum_set set_map dom_map_of_conv_image_fst)
qed

lemma length_snapshot_bytes:
  assumes "ht_wf t" "map_fits_format (ht_map t)"
  shows "length (snapshot_bytes t) = map_snapshot_size (ht_map t)"
proof -
  let ?g = "\<lambda>e. 32 + length (fst e) + length (ve_value (snd e))"
  have len: "length (entry_bytes e) = ?g e" if "entry_ok e" for e
    using that by (simp add: entry_bytes_def entry_fields_def entry_ok_def Let_def unat_of_nat_u32)
  have "length (concat (map entry_bytes es)) = sum_list (map ?g es)" if "list_all entry_ok es" for es
    using that by (induction es) (simp_all add: len)
  from this [OF ht_entries_ok [OF assms]] sum_list_map_of [OF distinct_ht_entries [OF assms(1)], of ?g]
  show ?thesis
    by (simp add: snapshot_bytes_def snap_file_def snap_body_def map_snapshot_size_def map_of_ht_entries)
qed

lemma snapshot_size_created:
  assumes "ht_wf t" "fs_can_open f path" "map_fits_format (ht_map t)"
    and "create_snapshot room f t path = Inr (True, f')"
  shows "snapshot_size f' path = map_snapshot_size (ht_map t)"
  using create_snapshot_file [OF assms(1,2), of room] assms(4) length_snapshot_bytes [OF assms(1,3)]
  by (simp add: snapshot_size_def fs_write_def split: if_splits)

lemma whole_records_cut:
  "n < length (concat (map e xs)) \<Longrightarrow> length (whole_records e n xs) < length xs"
  by (induction xs arbitrary: n) auto

text \<open>Writing a snapshot of t and loading it into an empty table with room for it.\<close>

lemma snapshot_restores:
  assumes "ht_inv t" "map_fits_format (ht_map t)" "ht_num_entries t < 2 ^ 64"
    and "fs_files f path = Some (snapshot_bytes t)"
    and "ht_inv tr" "ht_map tr = (\<lambda>_. None)" "map_bytes (ht_map t) \<le> ht_limit tr"
    and "\<forall>w. ht_wal_writer tr = Some w \<longrightarrow> ww_filepath w \<noteq> path"
  shows "\<exists>f' t'. load_snapshot junk junk' f tr path = Some (Inr (True, f', t')) \<and> ht_inv t' \<and>
    ht_map t' = ht_map t \<and> ht_limit t' = ht_limit tr \<and>
    (\<exists>rs. logs f (ht_wal_writer tr) rs f' (ht_wal_writer t'))"
proof -
  let ?es = "ht_entries t"
  let ?n = "length (concat (map entry_bytes ?es))"
  have wf: "ht_wf t" using assms(1) by (simp add: ht_inv_def)
  have len: "length ?es < 2 ^ 64" using assms(3) wf by (simp add: ht_wf_def ht_entries_def)
  have "map_bytes (ht_map tr) + entries_bytes ?es \<le> ht_limit tr"
    using assms(6,7) entries_bytes_map [OF distinct_ht_entries [OF wf]]
    by (simp add: map_of_ht_entries map_bytes_def)
  then obtain f' t' crc' where l: "load_snapshot junk junk' f tr path =
       Some (Inr (length (whole_records entry_bytes ?n ?es) = length ?es \<and>
         crc' = snap_crc (snap_body ?es), f', t'))"
     "ht_inv t'" "ht_map t' = upd_entries (ht_map tr) (whole_records entry_bytes ?n ?es)"
     "ht_limit t' = ht_limit tr" "\<exists>rs. logs f (ht_wal_writer tr) rs f' (ht_wal_writer t')"
     "crc' = snap_crc (snap_body ?es)"
    using load_snapshot_effect [of f path "snap_crc (snap_body ?es)" ?es ?n tr junk junk']
      assms(4,5,8) ht_entries_ok [OF wf assms(2)] len by (auto simp: snapshot_bytes_def snap_body_def)
  have w: "whole_records entry_bytes ?n ?es = ?es" by (simp add: whole_records_all)
  have "upd_entries (ht_map tr) ?es = ht_map t"
    using assms(6) by (simp add: upd_entries_distinct distinct_ht_entries [OF wf] map_of_ht_entries)
  with l w show ?thesis by simp
qed

section \<open>What a reader consumes\<close>

text \<open>Whatever the bytes are, an entry that is read is written exactly as the bytes it was read from,
  so the checksum the reader computes is that of the bytes it has consumed.\<close>

lemma read_exactE:
  assumes "read_exact f n s = (Some bs, s')" "is_at f s rest"
  obtains rest' where "rest = bs @ rest'" "length bs = n" "is_at f s' rest'" "is_path s' = is_path s"
proof -
  have "is_read f n s = (take n rest, s\<lparr>is_pos := is_pos s + min n (length rest), is_good := n \<le> length rest\<rparr>)"
    using assms(2) by (simp add: is_read_def is_at_def)
  with assms have l: "bs = take n rest" "n \<le> length rest"
      "s' = s\<lparr>is_pos := is_pos s + n, is_good := True\<rparr>"
    by (auto simp: read_exact_def split: if_splits)
  with assms(2) have "is_at f s' (drop n rest)" by (simp add: is_at_def is_rest_advance)
  with that [of "drop n rest"] l show thesis by simp
qed

lemma rd_bindE:
  assumes "rd_bind m k s = (Some y, s')"
  obtains x s1 where "m s = (Some x, s1)" "k x s1 = (Some y, s')"
  using assms that by (auto simp: rd_bind_def split: prod.splits option.splits)

lemma snapshot_read_fields_consumes:
  assumes "snapshot_read_fields f s = (Some e, s')" "is_at f s rest"
  obtains rest' where "rest = entry_bytes e @ rest'" "is_at f s' rest'" "is_path s' = is_path s"
proof -
  from assms(1) obtain kl s1 key s2 vl s3 val s4 ttl s5 cnt s6 acc where
    r: "read_exact f 4 s = (Some kl, s1)" "read_exact f (unat (u32_of_bytes kl)) s1 = (Some key, s2)"
      "read_exact f 4 s2 = (Some vl, s3)" "read_exact f (unat (u32_of_bytes vl)) s3 = (Some val, s4)"
      "read_exact f 8 s4 = (Some ttl, s5)" "read_exact f 8 s5 = (Some cnt, s6)"
      "read_exact f 8 s6 = (Some acc, s')"
    and e: "e = (key, \<lparr>ve_value = val, ve_access_count = u64_of_bytes cnt,
       ve_last_access_ns = u64_of_bytes acc, ve_expiry_ns = u64_of_bytes ttl\<rparr>)"
    unfolding snapshot_read_fields_def
    by (elim rd_bindE) (auto simp: rd_return_def elim: that)
  obtain r1 where 1: "rest = kl @ r1" "length kl = 4" "is_at f s1 r1" "is_path s1 = is_path s"
    by (rule read_exactE [OF r(1) assms(2)])
  obtain r2 where 2: "r1 = key @ r2" "length key = unat (u32_of_bytes kl)" "is_at f s2 r2" "is_path s2 = is_path s1"
    by (rule read_exactE [OF r(2) 1(3)])
  obtain r3 where 3: "r2 = vl @ r3" "length vl = 4" "is_at f s3 r3" "is_path s3 = is_path s2"
    by (rule read_exactE [OF r(3) 2(3)])
  obtain r4 where 4: "r3 = val @ r4" "length val = unat (u32_of_bytes vl)" "is_at f s4 r4" "is_path s4 = is_path s3"
    by (rule read_exactE [OF r(4) 3(3)])
  obtain r5 where 5: "r4 = ttl @ r5" "length ttl = 8" "is_at f s5 r5" "is_path s5 = is_path s4"
    by (rule read_exactE [OF r(5) 4(3)])
  obtain r6 where 6: "r5 = cnt @ r6" "length cnt = 8" "is_at f s6 r6" "is_path s6 = is_path s5"
    by (rule read_exactE [OF r(6) 5(3)])
  obtain r7 where 7: "r6 = acc @ r7" "length acc = 8" "is_at f s' r7" "is_path s' = is_path s6"
    by (rule read_exactE [OF r(7) 6(3)])
  have "entry_bytes e = kl @ key @ vl @ val @ ttl @ cnt @ acc"
    using 1(2) 2(2) 3(2) 4(2) 5(2) 6(2) 7(2)
    by (simp add: entry_bytes_def entry_fields_def Let_def e u32_bytes_of_bytes u64_bytes_of_bytes)
  with that [of r7] 1 2 3 4 5 6 7 show thesis by simp
qed

lemma ht_insert_other_file:
  assumes "ht_inv t" "\<forall>w. ht_wal_writer t = Some w \<longrightarrow> ww_filepath w \<noteq> is_path s"
  obtains f' t' where "ht_insert f t key v = Some (True, f', t')" "ht_inv t'"
    "\<forall>w. ht_wal_writer t' = Some w \<longrightarrow> ww_filepath w \<noteq> is_path s"
    "\<forall>rest. is_at f s rest \<longrightarrow> is_at f' s rest"
proof -
  obtain f' t' ks where i: "ht_insert f t key v = Some (True, f', t')" "ht_inv t'"
      "logs f (ht_wal_writer t) (set_record key v # map delete_record ks) f' (ht_wal_writer t')"
    by (rule ht_insert_effect [OF assms(1)]) blast
  note o = logs_other_file [OF i(3) assms(2)]
  have "\<forall>rest. is_at f s rest \<longrightarrow> is_at f' s rest"
    using is_rest_cong [OF o(1)] by (simp add: is_at_def)
  from that [OF i(1,2) o(2) this] show thesis .
qed

lemma read_entries_consumes:
  assumes "is_at f s rest" "ht_inv t" "\<forall>w. ht_wal_writer t = Some w \<longrightarrow> ww_filepath w \<noteq> is_path s"
  shows "\<exists>ok crc' f' t'. snapshot_read_entries n crc f t s = Some (ok, crc', f', t') \<and> ht_inv t' \<and>
    (ok \<longrightarrow> (\<exists>m \<le> length rest. crc' = crc_update crc (take m rest)))"
  using assms
proof (induction n arbitrary: crc f t s rest)
  case 0
  have "crc = crc_update crc (take 0 rest)" by simp
  with 0(2) show ?case by (intro exI conjI) (simp, assumption, blast)
next
  case (Suc n)
  show ?case
  proof (cases "snapshot_read_fields f s")
    case (Pair r s')
    show ?thesis
    proof (cases r)
      case None
      with Pair Suc.prems(2) show ?thesis
        by (simp add: snapshot_read_entry_def) (rule exI [of _ False], simp)
    next
      case (Some e)
      obtain key v where e: "e = (key, v)" by force
      obtain rest' where r: "rest = entry_bytes e @ rest'" "is_at f s' rest'" "is_path s' = is_path s"
        by (rule snapshot_read_fields_consumes [OF _ Suc.prems(1)]) (use Pair Some in blast)
      have "\<forall>w. ht_wal_writer t = Some w \<longrightarrow> ww_filepath w \<noteq> is_path s'" using Suc.prems(3) r(3) by simp
      then obtain f1 t1 where i: "ht_insert f t key v = Some (True, f1, t1)" "ht_inv t1"
          "\<forall>w. ht_wal_writer t1 = Some w \<longrightarrow> ww_filepath w \<noteq> is_path s'"
          "\<forall>rest. is_at f s' rest \<longrightarrow> is_at f1 s' rest"
        by (rule ht_insert_other_file [OF Suc.prems(2)])
      have at: "is_at f1 s' rest'" using i(4) r(2) by simp
      let ?crc = "crc_update crc (entry_bytes e)"
      obtain ok crc' f' t' where h: "snapshot_read_entries n ?crc f1 t1 s' = Some (ok, crc', f', t')" "ht_inv t'"
          "ok \<longrightarrow> (\<exists>m \<le> length rest'. crc' = crc_update ?crc (take m rest'))"
        using Suc.IH [OF at i(2,3), of ?crc] by blast
      have "snapshot_read_entry f crc s = (Some (key, v, ?crc), s')"
        by (simp add: snapshot_read_entry_def Pair Some e crc_fields entry_bytes_def)
      with i(1) h(1) have "snapshot_read_entries (Suc n) crc f t s = Some (ok, crc', f', t')" by simp
      moreover have "\<exists>m \<le> length rest. crc' = crc_update crc (take m rest)"
        if "m \<le> length rest'" "crc' = crc_update ?crc (take m rest')" for m
        using that r(1)
        by (intro exI [of _ "length (entry_bytes e) + m"]) (simp add: crc_update_append)
      ultimately show ?thesis using h(2,3) by blast
    qed
  qed
qed

lemma read_entries_whole:
  assumes "list_all entry_ok es" "is_at f s (concat (map entry_bytes es))" "ht_inv t"
    and "\<forall>w. ht_wal_writer t = Some w \<longrightarrow> ww_filepath w \<noteq> is_path s"
  shows "\<exists>f' t'. snapshot_read_entries (length es) crc f t s =
    Some (True, crc_update crc (concat (map entry_bytes es)), f', t')"
  using assms
proof (induction es arbitrary: crc f t s)
  case (Cons e es)
  obtain key v where e: "e = (key, v)" by force
  have "is_at f s (entry_bytes e @ concat (map entry_bytes es))" using Cons.prems(2) by simp
  then obtain s' where s': "snapshot_read_fields f s = (Some e, s')" "is_at f s' (concat (map entry_bytes es))"
      "is_path s' = is_path s"
    using entry_reads [of e f] Cons.prems(1) unfolding reads_def by (metis list.pred_inject(2))
  have "\<forall>w. ht_wal_writer t = Some w \<longrightarrow> ww_filepath w \<noteq> is_path s'" using Cons.prems(4) s'(3) by simp
  then obtain f1 t1 where i: "ht_insert f t key v = Some (True, f1, t1)" "ht_inv t1"
      "\<forall>w. ht_wal_writer t1 = Some w \<longrightarrow> ww_filepath w \<noteq> is_path s'"
      "\<forall>rest. is_at f s' rest \<longrightarrow> is_at f1 s' rest"
    by (rule ht_insert_other_file [OF Cons.prems(3)])
  have at: "is_at f1 s' (concat (map entry_bytes es))" using i(4) s'(2) by simp
  have rd: "snapshot_read_entry f crc s = (Some (key, v, crc_update crc (entry_bytes e)), s')"
    by (simp add: snapshot_read_entry_def s'(1) e crc_fields entry_bytes_def)
  have "list_all entry_ok es" using Cons.prems(1) by simp
  from Cons.IH [OF this at i(2,3), of "crc_update crc (entry_bytes e)"] rd i(1) show ?case
    by (auto simp: crc_update_append)
qed simp

text \<open>Loading a file of at least 24 bytes: with a wrong magic number nothing happens to the table, and
  a file is accepted only if the stored checksum is that of the bytes that were consumed.\<close>

lemma load_snapshot_bad_magic:
  assumes "fs_files f path = Some (mb @ rest)" "length mb = 8" "mb \<noteq> u64_bytes SNAPSHOT_MAGIC"
  shows "load_snapshot junk junk' f t path = Some (Inr (False, f, t))"
proof -
  have "is_at f (is_open path) (mb @ rest)"
    using is_at_open [of f path] assms(1) by (simp add: fs_contents_def)
  then obtain s1 where "is_read_into f (u64_bytes junk) (is_open path) = (mb, s1)"
    by (rule is_read_into_full [where var = "u64_bytes junk"]) (use assms(2) in simp_all)
  moreover have "u64_of_bytes mb \<noteq> SNAPSHOT_MAGIC" using u64_bytes_of_bytes [OF assms(2)] assms(3) by auto
  ultimately show ?thesis using assms(1) by (simp add: load_snapshot_def snapshot_read_def)
qed

lemma load_snapshot_consumes:
  assumes "fs_files f path = Some (snap_file crc body)" "8 \<le> length body" "ht_inv t"
    and "\<forall>w. ht_wal_writer t = Some w \<longrightarrow> ww_filepath w \<noteq> path"
  shows "\<exists>ok f' t'. load_snapshot junk junk' f t path = Some (Inr (ok, f', t')) \<and> ht_inv t' \<and>
    (ok \<longrightarrow> (\<exists>m \<le> length body. snap_crc (take m body) = crc))"
proof -
  let ?num = "u64_of_bytes (take 8 body)" and ?rest = "drop 8 body"
  have b: "body = u64_bytes ?num @ ?rest" using assms(2) by (simp add: u64_bytes_of_bytes)
  have "is_at f (is_open path) (snap_file crc (u64_bytes ?num @ ?rest))"
    using is_at_open [of f path] assms(1) b by (simp add: fs_contents_def)
  then obtain s' where h: "snapshot_read junk junk' f t (is_open path) =
      map_option (\<lambda>(ok, computed, f, t). (ok, crc, computed, f, t))
        (snapshot_read_entries (unat ?num) (snap_crc (u64_bytes ?num)) f t s')"
    "is_at f s' ?rest" "is_path s' = is_path (is_open path)"
    by (rule snapshot_read_header)
  have "\<forall>w. ht_wal_writer t = Some w \<longrightarrow> ww_filepath w \<noteq> is_path s'"
    using assms(4) h(3) by (simp add: is_open_def)
  from read_entries_consumes [OF h(2) assms(3) this, of "unat ?num" "snap_crc (u64_bytes ?num)"]
  obtain ok crc' f' t' where
    r: "snapshot_read_entries (unat ?num) (snap_crc (u64_bytes ?num)) f t s' = Some (ok, crc', f', t')" "ht_inv t'"
      "ok \<longrightarrow> (\<exists>m \<le> length ?rest. crc' = crc_update (snap_crc (u64_bytes ?num)) (take m ?rest))" by blast
  have "\<exists>m \<le> length body. snap_crc (take m body) = crc'"
    if "m \<le> length ?rest" "crc' = crc_update (snap_crc (u64_bytes ?num)) (take m ?rest)" for m
  proof (intro exI conjI)
    show "8 + m \<le> length body" using that(1) assms(2) by simp
    have "take (8 + m) body = u64_bytes ?num @ take m ?rest" by (subst b) simp
    then show "snap_crc (take (8 + m) body) = crc'"
      using that(2) by (simp add: snap_crc_def crc_update_append)
  qed
  with r assms(1) h(1) show ?thesis by (auto simp: load_snapshot_def verify_checksum_def)
qed

lemma load_snapshot_whole:
  assumes "fs_files f path = Some (snap_file crc (snap_body es))" "list_all entry_ok es" "length es < 2 ^ 64"
    and "ht_inv t" "\<forall>w. ht_wal_writer t = Some w \<longrightarrow> ww_filepath w \<noteq> path"
  shows "\<exists>f' t'. load_snapshot junk junk' f t path = Some (Inr (snap_crc (snap_body es) = crc, f', t'))"
proof -
  let ?num = "word_of_nat (length es) :: u64"
  have "is_at f (is_open path) (snap_file crc (u64_bytes ?num @ concat (map entry_bytes es)))"
    using is_at_open [of f path] assms(1) by (simp add: fs_contents_def snap_body_def)
  then obtain s' where h: "snapshot_read junk junk' f t (is_open path) =
      map_option (\<lambda>(ok, computed, f, t). (ok, crc, computed, f, t))
        (snapshot_read_entries (unat ?num) (snap_crc (u64_bytes ?num)) f t s')"
    "is_at f s' (concat (map entry_bytes es))" "is_path s' = is_path (is_open path)"
    by (rule snapshot_read_header)
  have "\<forall>w. ht_wal_writer t = Some w \<longrightarrow> ww_filepath w \<noteq> is_path s'"
    using assms(5) h(3) by (simp add: is_open_def)
  from read_entries_whole [OF assms(2) h(2) assms(4) this, of "snap_crc (u64_bytes ?num)"]
    unat_of_nat_u64 [OF assms(3)] h(1) assms(1)
  show ?thesis
    by (auto simp: load_snapshot_def verify_checksum_def snap_crc_def snap_body_def crc_update_append)
qed

section \<open>Properties\<close>

definition snap_demo_entries :: "entry list" where
  "snap_demo_entries = [(''a'', value_entry_new ''one'' 0), (''b'', value_entry_new ''two'' 9)]"

lemma sample_table_snapshot_size: "map_snapshot_size (ht_map sample_table) = 96"
  unfolding sample_table_map map_snapshot_size_def by (simp add: value_entry_new_def)

text \<open>C14. Snapshot round trip: \<open>create_snapshot\<close> reports success exactly if the device has room for the
  whole file, which the sizes of the stored keys and values determine; and then the snapshot, loaded
  into an empty table with room for the values, verifies its checksum and restores exactly the map of
  the original, expiry times and access metadata included.\<close>

theorem snapshot_roundtrip:
  assumes "ht_inv t" "map_fits_format (ht_map t)" "ht_num_entries t < 2 ^ 64" "fs_can_open f path"
    and "ht_inv tr" "ht_map tr = (\<lambda>_. None)" "map_bytes (ht_map t) \<le> ht_limit tr"
    and "\<forall>w. ht_wal_writer tr = Some w \<longrightarrow> ww_filepath w \<noteq> path"
  shows "\<exists>f1. create_snapshot room f t path = Inr (map_snapshot_size (ht_map t) \<le> room, f1) \<and>
     (create_snapshot room f t path = Inr (True, f1) \<longrightarrow>
       (\<exists>f2 t2. load_snapshot junk junk' f1 tr path = Some (Inr (True, f2, t2)) \<and> ht_inv t2 \<and>
          ht_map t2 = ht_map t))"
proof -
  have wf: "ht_wf t" using assms(1) by (simp add: ht_inv_def)
  note c = create_snapshot_file [OF wf assms(4), of room]
  note len = length_snapshot_bytes [OF wf assms(2)]
  show ?thesis
  proof (cases "length (snapshot_bytes t) \<le> room")
    case True
    let ?f1 = "fs_write f path (snapshot_bytes t)"
    have "fs_files ?f1 path = Some (snapshot_bytes t)" by (simp add: fs_write_def)
    from snapshot_restores [OF assms(1-3) this assms(5-8), of junk junk'] c True show ?thesis
      by (auto simp: len)
  next
    case False
    with c show ?thesis by (simp add: len)
  qed
qed

theorem snapshot_roundtrip_witness:
  "\<exists>f1 f2 t2. create_snapshot 1000 wal_demo_fs sample_table ''s'' = Inr (True, f1) \<and>
     load_snapshot 0 0 f1 (snd (snd (ht_new wal_demo_fs 4 50 LFU []))) ''s'' = Some (Inr (True, f2, t2)) \<and>
     ht_map t2 = ht_map sample_table"
proof -
  obtain e f t where n: "ht_new wal_demo_fs 4 50 LFU [] = (e, f, t)" by (metis prod.collapse)
  note i = ht_new_inv [OF n]
  have 1: "map_fits_format (ht_map sample_table)"
    by (auto simp: map_fits_format_def sample_table_map entry_ok_def value_entry_new_def split: if_splits)
  have "card (dom (ht_map sample_table)) = 2" unfolding sample_table_map by simp
  then have 2: "ht_num_entries sample_table < 2 ^ 64"
    using ht_size [OF sample_table_inv] by simp
  have 3: "fs_can_open wal_demo_fs ''s''" by (simp add: wal_demo_fs_def)
  have "map_bytes (ht_map sample_table) = 6"
    unfolding sample_table_map map_bytes_def by (simp add: value_entry_new_def)
  then have 4: "map_bytes (ht_map sample_table) \<le> ht_limit t" using i(3) by simp
  have 5: "\<forall>w. ht_wal_writer t = Some w \<longrightarrow> ww_filepath w \<noteq> ''s''"
    using n by (auto simp: ht_new_def)
  from snapshot_roundtrip [OF sample_table_inv 1 2 3 i(1,2) 4 5, of 1000 0 0] n sample_table_snapshot_size
  show ?thesis by auto
qed

text \<open>A truncated snapshot is rejected, but not undone: a file cut anywhere inside its entries
  makes load_snapshot return false, and by then the complete entries before the cut are in the
  table, overwriting what was stored under their keys.\<close>

theorem truncated_snapshot_rejected:
  assumes "fs_files f path = Some (take (24 + n) (snap_file crc (snap_body es)))"
    and "n < length (concat (map entry_bytes es))"
    and "list_all entry_ok es" "length es < 2 ^ 64" "ht_inv t"
    and "map_bytes (ht_map t) + entries_bytes es \<le> ht_limit t"
    and "\<forall>w. ht_wal_writer t = Some w \<longrightarrow> ww_filepath w \<noteq> path"
  shows "\<exists>f' t'. load_snapshot junk junk' f t path = Some (Inr (False, f', t')) \<and> ht_inv t' \<and>
     ht_map t' = upd_entries (ht_map t) (whole_records entry_bytes n es)"
proof -
  have "take (24 + n) (snap_file crc (snap_body es)) =
      snap_file crc (u64_bytes (word_of_nat (length es)) @ take n (concat (map entry_bytes es)))"
    by (simp add: snap_file_def snap_body_def)
  with assms(1) have cut: "fs_files f path = Some (snap_file crc (u64_bytes (word_of_nat (length es)) @
      take n (concat (map entry_bytes es))))" by simp
  have "length (whole_records entry_bytes n es) \<noteq> length es"
    using whole_records_cut [OF assms(2)] by simp
  with load_snapshot_effect [OF cut assms(3-7), of junk junk'] show ?thesis by auto
qed

theorem truncated_snapshot_rejected_witness:
  "\<exists>f' t'. load_snapshot 0 0 (fs_write wal_demo_fs ''s''
       (take (24 + 45) (snap_file 0 (snap_body snap_demo_entries))))
     (snd (snd (ht_new wal_demo_fs 4 50 LRU []))) ''s'' = Some (Inr (False, f', t')) \<and>
     ht_map t' = upd_entries (\<lambda>_. None) (whole_records entry_bytes 45 snap_demo_entries)"
proof -
  let ?f = "fs_write wal_demo_fs ''s'' (take (24 + 45) (snap_file 0 (snap_body snap_demo_entries)))"
  obtain e f t where n: "ht_new wal_demo_fs 4 50 LRU [] = (e, f, t)" by (metis prod.collapse)
  note i = ht_new_inv [OF n]
  have 1: "fs_files ?f ''s'' = Some (take (24 + 45) (snap_file 0 (snap_body snap_demo_entries)))"
    by (simp add: fs_write_def)
  have 2: "45 < length (concat (map entry_bytes snap_demo_entries))"
    by (simp add: snap_demo_entries_def entry_bytes_def entry_fields_def value_entry_new_def)
  have 3: "list_all entry_ok snap_demo_entries" "length snap_demo_entries < 2 ^ 64"
    "map_bytes (ht_map t) + entries_bytes snap_demo_entries \<le> ht_limit t"
    using i by (simp_all add: snap_demo_entries_def entry_ok_def value_entry_new_def entries_bytes_def
        map_bytes_def)
  have 4: "\<forall>w. ht_wal_writer t = Some w \<longrightarrow> ww_filepath w \<noteq> ''s''"
    using n by (auto simp: ht_new_def)
  obtain f' t' where "load_snapshot 0 0 ?f t ''s'' = Some (Inr (False, f', t'))"
      "ht_map t' = upd_entries (ht_map t) (whole_records entry_bytes 45 snap_demo_entries)"
    using truncated_snapshot_rejected [OF 1 2 3(1,2) i(1) 3(3) 4, of 0 0] by blast
  with n i(2) show ?thesis by simp
qed

text \<open>The two places of a change: among the bytes behind the 16 bytes of magic number and checksum,
  or within those.\<close>

lemma snap_crc_burst:
  assumes "length bs' = length bs" "length bs \<le> 7" "bs' \<noteq> bs"
  shows "snap_crc (pre @ bs' @ post) \<noteq> snap_crc (pre @ bs @ post)"
  using crc_burst [of bs' bs "crc_update crc_init (u64_bytes SNAPSHOT_MAGIC @ pre)" post] assms
  by (simp add: snap_crc_def crc_update_append)

lemma load_snapshot_body_changed:
  assumes "fs_files f path = Some (snap_file (snap_crc body) body')" "8 \<le> length body"
    and "body = pre @ bs @ post" "body' = pre @ bs' @ post" "length bs' = length bs" "length bs \<le> 7" "bs' \<noteq> bs"
    and "ht_inv t" "\<forall>w. ht_wal_writer t = Some w \<longrightarrow> ww_filepath w \<noteq> path"
  shows "\<exists>ok f' t'. load_snapshot junk junk' f t path = Some (Inr (ok, f', t')) \<and> ht_inv t' \<and>
    (ok \<longrightarrow> (\<exists>m < length body. snap_crc (take m body') = snap_crc body)) \<and>
    (\<forall>es'. body' = snap_body es' \<and> list_all entry_ok es' \<and> length es' < 2 ^ 64 \<and>
        map_bytes (ht_map t) + entries_bytes es' \<le> ht_limit t \<longrightarrow>
        \<not> ok \<and> ht_map t' = upd_entries (ht_map t) es')"
proof -
  have len: "length body' = length body" using assms(3-5) by simp
  have ne: "snap_crc body' \<noteq> snap_crc body"
    using snap_crc_burst [OF assms(5-7)] unfolding assms(3,4) .
  have short: "m < length body" if "m \<le> length body'" "snap_crc (take m body') = snap_crc body" for m
    using that len ne by (cases "m = length body") auto
  have "8 \<le> length body'" using assms(2) len by simp
  from load_snapshot_consumes [OF assms(1) this assms(8,9), of junk junk'] obtain ok f' t' where
    l: "load_snapshot junk junk' f t path = Some (Inr (ok, f', t'))" "ht_inv t'"
      "ok \<longrightarrow> (\<exists>m \<le> length body'. snap_crc (take m body') = snap_crc body)" by blast
  have "\<not> ok \<and> ht_map t' = upd_entries (ht_map t) es'"
    if e: "body' = snap_body es'" "list_all entry_ok es'" "length es' < 2 ^ 64"
      "map_bytes (ht_map t) + entries_bytes es' \<le> ht_limit t" for es'
  proof -
    let ?n = "length (concat (map entry_bytes es'))"
    have "fs_files f path = Some (snap_file (snap_crc body)
        (u64_bytes (word_of_nat (length es')) @ take ?n (concat (map entry_bytes es'))))"
      using assms(1) e(1) by (simp add: snap_body_def)
    from load_snapshot_effect [OF this e(2,3) assms(8) e(4) assms(9), of junk junk'] l(1) ne e(1)
      whole_records_all [of entry_bytes es' ?n] show ?thesis by auto
  qed
  with l short show ?thesis by blast
qed

lemma load_snapshot_header_changed:
  assumes "fs_files f path = Some (hd' @ snap_body es)" "length hd' = 16"
    and "hd' \<noteq> u64_bytes SNAPSHOT_MAGIC @ u64_bytes (snap_crc (snap_body es))"
    and "list_all entry_ok es" "length es < 2 ^ 64" "ht_inv t"
    and "\<forall>w. ht_wal_writer t = Some w \<longrightarrow> ww_filepath w \<noteq> path"
  shows "\<exists>f' t'. load_snapshot junk junk' f t path = Some (Inr (False, f', t')) \<and> ht_inv t'"
proof (cases "take 8 hd' = u64_bytes SNAPSHOT_MAGIC")
  case True
  let ?crc = "u64_of_bytes (drop 8 hd')"
  have c: "u64_bytes ?crc = drop 8 hd'" using assms(2) by (simp add: u64_bytes_of_bytes)
  have hd: "hd' = u64_bytes SNAPSHOT_MAGIC @ u64_bytes ?crc" using True c append_take_drop_id [of 8 hd'] by simp
  with assms(1) have fl: "fs_files f path = Some (snap_file ?crc (snap_body es))" by (simp add: snap_file_def)
  have "snap_crc (snap_body es) \<noteq> ?crc" using hd assms(3) by metis
  with load_snapshot_whole [OF fl assms(4-7), of junk junk']
    load_snapshot_consumes [OF fl _ assms(6,7), of junk junk'] show ?thesis by (auto simp: snap_body_def)
next
  case False
  have "fs_files f path = Some (take 8 hd' @ drop 8 hd' @ snap_body es)" using assms(1) by simp
  from load_snapshot_bad_magic [OF this _ False, of junk junk' t] assms(2,6) show ?thesis by simp
qed

text \<open>C32. A corrupted snapshot is not taken for a good one: take the file of a snapshot of es and
  change at most seven adjacent bytes, either within the 16 bytes of magic number and checksum or
  within the bytes behind them (entry count, lengths and data alike); only a change across that border
  is left out. Loading the file terminates with the table in its invariant. It returns false if the
  change is within the first 16 bytes, and leaves table and files alone if the magic number is wrong.
  If the change is behind them, it can return true only if the reader stopped early, having consumed a
  proper prefix of the bytes with the very checksum of the original. In particular, if the changed
  bytes read as other entries es', for which there is room, it returns false, but it does not undo:
  all the entries of es' are in the table.\<close>

theorem corrupted_snapshot_rejected:
  assumes "snap_file (snap_crc (snap_body es)) (snap_body es) = pre @ bs @ post"
    and "length bs' = length bs" "length bs \<le> 7" "bs' \<noteq> bs"
    and "length pre + length bs \<le> 16 \<or> 16 \<le> length pre"
    and "fs_files f path = Some (pre @ bs' @ post)"
    and "list_all entry_ok es" "length es < 2 ^ 64" "ht_inv t"
    and "\<forall>w. ht_wal_writer t = Some w \<longrightarrow> ww_filepath w \<noteq> path"
  shows "\<exists>ok f' t'. load_snapshot junk junk' f t path = Some (Inr (ok, f', t')) \<and> ht_inv t' \<and>
     (length pre < 16 \<longrightarrow> \<not> ok) \<and>
     (take 8 (pre @ bs' @ post) \<noteq> u64_bytes SNAPSHOT_MAGIC \<longrightarrow> f' = f \<and> t' = t) \<and>
     (ok \<longrightarrow> (\<exists>m < length (snap_body es).
        snap_crc (take m (drop 16 (pre @ bs' @ post))) = snap_crc (snap_body es))) \<and>
     (\<forall>es'. drop 16 (pre @ bs' @ post) = snap_body es' \<and> list_all entry_ok es' \<and> length es' < 2 ^ 64 \<and>
        16 \<le> length pre \<and> map_bytes (ht_map t) + entries_bytes es' \<le> ht_limit t \<longrightarrow>
        \<not> ok \<and> ht_map t' = upd_entries (ht_map t) es')"
proof (cases "16 \<le> length pre")
  case True
  let ?b = "snap_body es" and ?b' = "drop 16 pre @ bs' @ post"
  let ?hd = "u64_bytes SNAPSHOT_MAGIC @ u64_bytes (snap_crc ?b)"
  have "?hd @ ?b = take 16 pre @ (drop 16 pre @ bs @ post)" using assms(1) by (simp add: snap_file_def)
  moreover have "length ?hd = length (take 16 pre)" using True by simp
  ultimately have hd: "?hd = take 16 pre" and b: "?b = drop 16 pre @ bs @ post"
    using append_eq_append_conv by blast+
  have new: "pre @ bs' @ post = ?hd @ ?b'" unfolding hd by simp
  then have "fs_files f path = Some (snap_file (snap_crc ?b) ?b')" using assms(6) by (simp add: snap_file_def)
  moreover have "8 \<le> length ?b" by (simp add: snap_body_def)
  ultimately obtain ok f' t' where l: "load_snapshot junk junk' f t path = Some (Inr (ok, f', t'))" "ht_inv t'"
      "ok \<longrightarrow> (\<exists>m < length ?b. snap_crc (take m ?b') = snap_crc ?b)"
      "\<forall>es'. ?b' = snap_body es' \<and> list_all entry_ok es' \<and> length es' < 2 ^ 64 \<and>
        map_bytes (ht_map t) + entries_bytes es' \<le> ht_limit t \<longrightarrow> \<not> ok \<and> ht_map t' = upd_entries (ht_map t) es'"
    using load_snapshot_body_changed [OF _ _ b refl assms(2-4,9,10), of f junk junk'] by blast
  moreover have "drop 16 (pre @ bs' @ post) = ?b'" "take 8 (pre @ bs' @ post) = u64_bytes SNAPSHOT_MAGIC"
    unfolding new by simp_all
  ultimately show ?thesis using True by (intro exI [of _ ok] exI [of _ f'] exI [of _ t']) auto
next
  case False
  let ?b = "snap_body es" and ?k = "16 - length pre - length bs"
  let ?hd = "u64_bytes SNAPSHOT_MAGIC @ u64_bytes (snap_crc ?b)" and ?hd' = "pre @ bs' @ take ?k post"
  have le: "length pre + length bs \<le> 16" using assms(5) False by simp
  have "length (pre @ bs @ post) = 16 + length ?b" unfolding assms(1) [symmetric] by (simp add: snap_file_def)
  then have k: "length (take ?k post) = ?k" by simp
  have "?hd @ ?b = (pre @ bs @ take ?k post) @ drop ?k post" using assms(1) by (simp add: snap_file_def)
  moreover have "length ?hd = length (pre @ bs @ take ?k post)" using le k by simp
  ultimately have hd: "?hd = pre @ bs @ take ?k post" and b: "?b = drop ?k post"
    using append_eq_append_conv by blast+
  have new: "pre @ bs' @ post = ?hd' @ ?b" unfolding b by simp
  have "length ?hd' = 16" using le k assms(2) by simp
  moreover have "?hd' \<noteq> ?hd" unfolding hd using assms(4) by simp
  ultimately obtain f' t' where l: "load_snapshot junk junk' f t path = Some (Inr (False, f', t'))" "ht_inv t'"
    using load_snapshot_header_changed [OF _ _ _ assms(7-10), of f ?hd' junk junk'] assms(6) unfolding new by blast
  let ?new = "pre @ bs' @ post"
  have at: "fs_files f path = Some (take 8 ?new @ drop 8 ?new)" using assms(6) unfolding append_take_drop_id .
  have "length ?new = 16 + length ?b" unfolding new using \<open>length ?hd' = 16\<close> by simp
  then have "length (take 8 ?new) = 8" by simp
  note bad = load_snapshot_bad_magic [OF at this, of junk junk' t]
  have "take 8 ?new \<noteq> u64_bytes SNAPSHOT_MAGIC \<longrightarrow> f' = f \<and> t' = t"
    using bad l(1) by (intro impI) (simp del: take_append)
  with l False show ?thesis by (intro exI [of _ False] exI [of _ f'] exI [of _ t']) simp
qed

theorem corrupted_snapshot_rejected_witness:
  "\<exists>f' t'. load_snapshot 0 0 (fs_write wal_demo_fs ''s''
       (snap_file (snap_crc (snap_body [(''a'', value_entry_new ''one'' 0)]))
          (snap_body [(''a'', value_entry_new ''eno'' 0)])))
     (snd (snd (ht_new wal_demo_fs 4 50 LRU []))) ''s'' = Some (Inr (False, f', t')) \<and>
     ht_map t' = [''a'' \<mapsto> value_entry_new ''eno'' 0]"
proof -
  let ?es = "[(''a'', value_entry_new ''one'' 0)]" and ?es' = "[(''a'', value_entry_new ''eno'' 0)]"
  let ?crc = "snap_crc (snap_body ?es)"
  let ?f = "fs_write wal_demo_fs ''s'' (snap_file ?crc (snap_body ?es'))"
  let ?pre = "u64_bytes SNAPSHOT_MAGIC @ u64_bytes ?crc @ u64_bytes 1 @ u32_bytes 1 @ ''a'' @ u32_bytes 3"
  let ?post = "u64_bytes 0 @ u64_bytes 0 @ u64_bytes 0"
  obtain e f t where n: "ht_new wal_demo_fs 4 50 LRU [] = (e, f, t)" by (metis prod.collapse)
  note i = ht_new_inv [OF n]
  have b: "snap_body ?es = u64_bytes 1 @ u32_bytes 1 @ ''a'' @ u32_bytes 3 @ ''one'' @ ?post"
      "snap_body ?es' = u64_bytes 1 @ u32_bytes 1 @ ''a'' @ u32_bytes 3 @ ''eno'' @ ?post"
    by (simp_all add: snap_body_def entry_bytes_def entry_fields_def value_entry_new_def)
  have 1: "snap_file crc (snap_body ?es) = (u64_bytes SNAPSHOT_MAGIC @ u64_bytes crc @ u64_bytes 1 @ u32_bytes 1 @ ''a'' @ u32_bytes 3) @ ''one'' @ ?post" for crc
    by (simp add: snap_file_def b)
  have 2: "fs_files ?f ''s'' = Some (?pre @ ''eno'' @ ?post)" by (simp add: fs_write_def snap_file_def b(2))
  have 3: "list_all entry_ok ?es" "list_all entry_ok ?es'" "length ?es < 2 ^ 64" "length ?es' < 2 ^ 64"
    "map_bytes (ht_map t) + entries_bytes ?es' \<le> ht_limit t"
    using i by (simp_all add: entry_ok_def value_entry_new_def entries_bytes_def map_bytes_def)
  have 4: "\<forall>w. ht_wal_writer t = Some w \<longrightarrow> ww_filepath w \<noteq> ''s''"
    using n by (auto simp: ht_new_def)
  have 5: "length ''eno'' = length ''one''" "length ''one'' \<le> 7" "''eno'' \<noteq> ''one''"
      "length ?pre + length ''one'' \<le> 16 \<or> 16 \<le> length ?pre" "16 \<le> length ?pre"
    by simp_all
  obtain ok f' t' where l: "load_snapshot 0 0 ?f t ''s'' = Some (Inr (ok, f', t'))"
    and c: "\<forall>es'. drop 16 (?pre @ ''eno'' @ ?post) = snap_body es' \<and> list_all entry_ok es' \<and> length es' < 2 ^ 64 \<and>
        16 \<le> length ?pre \<and> map_bytes (ht_map t) + entries_bytes es' \<le> ht_limit t \<longrightarrow>
        \<not> ok \<and> ht_map t' = upd_entries (ht_map t) es'"
    using corrupted_snapshot_rejected [OF 1 5(1-4) 2 3(1,3) i(1) 4, of 0 0] by blast
  have "drop 16 (?pre @ ''eno'' @ ?post) = snap_body ?es'" unfolding b(2) by simp
  with c 3 5(5) have "\<not> ok \<and> ht_map t' = upd_entries (ht_map t) ?es'" by blast
  with l n i(2) show ?thesis by auto
qed

end
