(* ===== verification/Durability.thy ===== *)
theory Durability
  imports Recovery Snapshot
begin

text \<open>
  The two halves of persistence together: a checkpoint (\<open>HashTable::create_snapshot\<close> followed by
  \<open>HashTable::truncate_wal\<close>), further operations that go to the emptied log, and after a restart
  \<open>HashTable::load_snapshot\<close> followed by \<open>HashTable::replay_wal\<close>.
\<close>

lemma durable_apply_records:
  "list_all logged rs \<Longrightarrow>
    durable_map (apply_records clk i m rs) = apply_records clk i (durable_map m) rs"
proof (induction rs arbitrary: i m)
  case (Cons r rs)
  then have "wr_op_type r = WAL_SET \<or> wr_op_type r = WAL_DELETE" by (simp add: logged_def)
  then have "durable_map (apply_record (clk i) m r) = apply_record (clk i) (durable_map m) r"
    by (auto simp: apply_record_def durable_def value_entry_new_def)
  with Cons show ?case by simp
qed simp

lemma truncate_wal_empties:
  assumes "truncate_wal f t = (None, f', t')" "ht_wal_path t \<noteq> []"
  obtains w where "ht_wal_writer t' = Some w" "ww_filepath w = ht_wal_path t" "wal_log f' w = []"
    "fs_files f' (ht_wal_path t) \<noteq> None"
  using assms that
  by (auto simp: truncate_wal_def enable_wal_def wal_writer_open_def wal_log_def Let_def
      wal_writer_close_def fs_files_append split: if_splits option.splits)

lemma truncate_wal_other:
  assumes "truncate_wal f t = (None, f', t')" "ht_wal_path t \<noteq> q"
    and "\<forall>w. ht_wal_writer t = Some w \<longrightarrow> ww_filepath w \<noteq> q"
  shows "fs_files f' q = fs_files f q"
  using assms
  by (auto simp: truncate_wal_def enable_wal_def wal_writer_open_def Let_def wal_writer_close_def
      wal_flush_def fs_files_append fs_write_def split: if_splits option.splits)

lemma map_fits_format_keys: "map_fits_format m \<Longrightarrow> keys_ok m"
  by (auto simp: map_fits_format_def keys_ok_def entry_ok_def)



end
