(* ===== verification/KV_Store.thy ===== *)
theory KV_Store
  imports Recovery
begin

text \<open>
  The engines that call the hash table directly. The locale \<open>kv_store\<close> is the contract they rely
  on, stated over what clients can observe of an entry (its value and expiry time, not its access
  metadata); the hash table provides it. \<open>sharded_store\<close> adds a routing function and shows once
  that a vector of stores is again a store. \<open>ShardedEngineSync\<close>
  (\<open>engine/include/sharded_engine_sync.h\<close>) is an instance of it, \<open>MutexEngine\<close>
  (\<open>engine/include/mutex_engine.h\<close>) is the hash table behind one lock. An operation holds its lock
  from start to end, so each is one step here.
\<close>

section \<open>Routing to shards\<close>

text \<open>One operation on the shard a key belongs to.\<close>

definition shard_get :: "(u64 \<Rightarrow> u64 \<Rightarrow> 's \<Rightarrow> string \<Rightarrow> value_entry option \<times> 's) \<Rightarrow> (string \<Rightarrow> nat) \<Rightarrow>
    u64 \<Rightarrow> u64 \<Rightarrow> 's list \<Rightarrow> string \<Rightarrow> value_entry option \<times> 's list" where
  "shard_get get route now now' ss key =
     (case get now now' (ss ! route key) key of (r, s) \<Rightarrow> (r, ss[route key := s]))"

definition shard_put :: "(fs \<Rightarrow> 's \<Rightarrow> string \<Rightarrow> value_entry \<Rightarrow> (bool \<times> fs \<times> 's) option) \<Rightarrow>
    (string \<Rightarrow> nat) \<Rightarrow> fs \<Rightarrow> 's list \<Rightarrow> string \<Rightarrow> value_entry \<Rightarrow> (bool \<times> fs \<times> 's list) option" where
  "shard_put put route f ss key v =
     map_option (\<lambda>(b, f, s). (b, f, ss[route key := s])) (put f (ss ! route key) key v)"

definition shard_del :: "(fs \<Rightarrow> 's \<Rightarrow> string \<Rightarrow> bool \<times> fs \<times> 's) \<Rightarrow>
    (string \<Rightarrow> nat) \<Rightarrow> fs \<Rightarrow> 's list \<Rightarrow> string \<Rightarrow> bool \<times> fs \<times> 's list" where
  "shard_del del route f ss key =
     (case del f (ss ! route key) key of (b, f, s) \<Rightarrow> (b, f, ss[route key := s]))"

definition total_entries :: "('s \<Rightarrow> nat) \<Rightarrow> 's list \<Rightarrow> nat" where
  "total_entries entries ss = foldl (\<lambda>total s. total + entries s) 0 ss"

section \<open>ShardedEngineSync\<close>

record sharded_engine_sync =
  sy_num_shards :: nat
  sy_shards :: "hash_table list"

definition sync_new :: "nat \<Rightarrow> nat \<Rightarrow> eviction_policy_kind \<Rightarrow> fs \<Rightarrow> sharded_engine_sync" where
  "sync_new num_shards memory_limit_per_shard policy f =
     \<lparr>sy_num_shards = num_shards,
      sy_shards = replicate num_shards (snd (snd (ht_new f 16 memory_limit_per_shard policy [])))\<rparr>"

definition rotl32 :: "nat \<Rightarrow> u32 \<Rightarrow> u32" where
  "rotl32 r k = push_bit r k OR drop_bit (32 - r) k"

definition murmur3_step :: "u32 \<Rightarrow> char \<Rightarrow> u32" where
  "murmur3_step hash c =
     (let k = word_of_nat (of_char c);
          k = k * 0xcc9e2d51;
          k = rotl32 15 k;
          k = k * 0x1b873593;
          hash = hash XOR k
      in rotl32 13 hash * 5 + 0xe6546b64)"

definition murmur3_hash :: "string \<Rightarrow> u32" where
  "murmur3_hash key =
     (let hash = foldl murmur3_step 0 key;
          hash = hash XOR word_of_nat (length key);
          hash = hash XOR drop_bit 16 hash;
          hash = hash * 0x85ebca6b;
          hash = hash XOR drop_bit 13 hash;
          hash = hash * 0xc2b2ae35
      in hash XOR drop_bit 16 hash)"

definition sync_shard_id :: "nat \<Rightarrow> string \<Rightarrow> nat" where
  "sync_shard_id n key = unat (murmur3_hash key) mod n"

definition sync_get :: "u64 \<Rightarrow> u64 \<Rightarrow> sharded_engine_sync \<Rightarrow> string \<Rightarrow>
    value_entry option \<times> sharded_engine_sync" where
  "sync_get now now' e key =
     (case shard_get ht_get (sync_shard_id (sy_num_shards e)) now now' (sy_shards e) key of
        (r, ss) \<Rightarrow> (r, e\<lparr>sy_shards := ss\<rparr>))"

definition sync_set :: "fs \<Rightarrow> sharded_engine_sync \<Rightarrow> string \<Rightarrow> value_entry \<Rightarrow>
    (bool \<times> fs \<times> sharded_engine_sync) option" where
  "sync_set f e key v =
     map_option (\<lambda>(b, f, ss). (b, f, e\<lparr>sy_shards := ss\<rparr>))
       (shard_put ht_insert (sync_shard_id (sy_num_shards e)) f (sy_shards e) key v)"

definition sync_remove :: "fs \<Rightarrow> sharded_engine_sync \<Rightarrow> string \<Rightarrow> bool \<times> fs \<times> sharded_engine_sync" where
  "sync_remove f e key =
     (case shard_del ht_remove (sync_shard_id (sy_num_shards e)) f (sy_shards e) key of
        (b, f, ss) \<Rightarrow> (b, f, e\<lparr>sy_shards := ss\<rparr>))"

definition sync_total_entries :: "sharded_engine_sync \<Rightarrow> nat" where
  "sync_total_entries e = total_entries ht_num_entries (sy_shards e)"

section \<open>MutexEngine\<close>

record mutex_engine =
  me_table :: hash_table

definition mutex_new :: "fs \<Rightarrow> mutex_engine" where
  "mutex_new f = \<lparr>me_table = snd (snd (ht_new f 16 (100 * 1024 * 1024) LRU []))\<rparr>"

definition mutex_set :: "fs \<Rightarrow> mutex_engine \<Rightarrow> string \<Rightarrow> value_entry \<Rightarrow> (bool \<times> fs \<times> mutex_engine) option" where
  "mutex_set f e key v =
     map_option (\<lambda>(b, f, t). (b, f, e\<lparr>me_table := t\<rparr>)) (ht_insert f (me_table e) key v)"

definition mutex_get :: "u64 \<Rightarrow> u64 \<Rightarrow> mutex_engine \<Rightarrow> string \<Rightarrow> value_entry option \<times> mutex_engine" where
  "mutex_get now now' e key =
     (case ht_get now now' (me_table e) key of (r, t) \<Rightarrow> (r, e\<lparr>me_table := t\<rparr>))"

definition mutex_remove :: "fs \<Rightarrow> mutex_engine \<Rightarrow> string \<Rightarrow> bool \<times> fs \<times> mutex_engine" where
  "mutex_remove f e key =
     (case ht_remove f (me_table e) key of (b, f, t) \<Rightarrow> (b, f, e\<lparr>me_table := t\<rparr>))"

definition mutex_size :: "mutex_engine \<Rightarrow> nat" where
  "mutex_size e = ht_num_entries (me_table e)"

section \<open>The contract of a store\<close>

definition visible :: "u64 \<Rightarrow> value_entry option \<Rightarrow> value_entry option" where
  "visible now e = (case e of Some v \<Rightarrow> if is_expired now v then None else Some v | None \<Rightarrow> None)"

lemma is_expired_durable [simp]: "is_expired now (durable v) = is_expired now v"
  by (simp add: is_expired_def durable_def value_entry_new_def)

locale kv_store =
  fixes inv :: "'s \<Rightarrow> bool" and view :: "'s \<Rightarrow> string \<Rightarrow> value_entry option" and entries :: "'s \<Rightarrow> nat"
    and get :: "u64 \<Rightarrow> u64 \<Rightarrow> 's \<Rightarrow> string \<Rightarrow> value_entry option \<times> 's"
    and put :: "fs \<Rightarrow> 's \<Rightarrow> string \<Rightarrow> value_entry \<Rightarrow> (bool \<times> fs \<times> 's) option"
    and del :: "fs \<Rightarrow> 's \<Rightarrow> string \<Rightarrow> bool \<times> fs \<times> 's"
  assumes get_law: "inv s \<Longrightarrow> get now now' s k = (r, s') \<Longrightarrow>
      inv s' \<and> view s' = view s \<and> map_option durable r = visible now (view s k)"
    and put_law: "inv s \<Longrightarrow> \<exists>f' s'. put f s k v = Some (True, f', s') \<and> inv s' \<and>
      view s' k = Some (durable v) \<and> (\<forall>k'. k' \<noteq> k \<longrightarrow> view s' k' = view s k' \<or> view s' k' = None)"
    and del_law: "inv s \<Longrightarrow> \<exists>f' s'. del f s k = (view s k \<noteq> None, f', s') \<and> inv s' \<and>
      view s' = (view s)(k := None)"
    and entries_law: "inv s \<Longrightarrow> finite (dom (view s)) \<and> entries s = card (dom (view s))"
begin

lemma put_get:
  assumes "inv s" "\<not> is_expired now v"
  shows "\<exists>f1 s1 r s2. put f s k v = Some (True, f1, s1) \<and> get now now' s1 k = (r, s2) \<and>
    map_option durable r = Some (durable v) \<and> inv s2"
proof -
  obtain f1 s1 where p: "put f s k v = Some (True, f1, s1)" "inv s1" "view s1 k = Some (durable v)"
    using put_law [OF assms(1)] by blast
  obtain r s2 where g: "get now now' s1 k = (r, s2)" by force
  have "visible now (Some (durable v)) = Some (durable v)"
    using assms(2) by (simp add: visible_def)
  with get_law [OF p(2) g] p g show ?thesis by auto
qed

lemma del_get:
  assumes "inv s"
  shows "\<exists>f1 s1 s2. del f s k = (view s k \<noteq> None, f1, s1) \<and> get now now' s1 k = (None, s2) \<and> inv s2"
proof -
  obtain f1 s1 where p: "del f s k = (view s k \<noteq> None, f1, s1)" "inv s1" "view s1 = (view s)(k := None)"
    using del_law [OF assms] by blast
  obtain r s2 where g: "get now now' s1 k = (r, s2)" by force
  with get_law [OF p(2) g] p g show ?thesis by (simp add: visible_def)
qed

end

text \<open>The hash table meets the contract.\<close>

definition ht_view :: "hash_table \<Rightarrow> string \<Rightarrow> value_entry option" where
  "ht_view t = durable_map (ht_map t)"

lemma durable_touch_value [simp]: "durable (touch now v) = durable v"
  by (simp add: durable_def touch_def)

lemma dom_durable_map [simp]: "dom (durable_map m) = dom m"
  by (auto simp: durable_map_def)

lemma ht_get_law:
  assumes "ht_inv t" "ht_get now now' t k = (r, t')"
  shows "ht_inv t' \<and> ht_view t' = ht_view t \<and> map_option durable r = visible now (ht_view t k)"
proof (cases "\<exists>v. ht_map t k = Some v \<and> \<not> is_expired now v")
  case True
  then obtain v where v: "ht_map t k = Some v" "\<not> is_expired now v" by blast
  obtain t1 where g: "ht_get now now' t k = (Some (touch now' v), t1)" "ht_inv t1"
      "ht_map t1 = (ht_map t)(k \<mapsto> touch now' v)"
    by (rule ht_get_hit [OF assms(1) v])
  have "ht_view t1 = ht_view t" unfolding ht_view_def g(3) using v(1) by (rule durable_touch)
  moreover have "ht_view t k = Some (durable v)" using v(1) by (simp add: ht_view_def durable_map_def)
  moreover have "r = Some (touch now' v)" "t' = t1" using g(1) assms(2) by simp_all
  ultimately show ?thesis using g(2) v(2) by (simp add: visible_def)
next
  case False
  then have "ht_get now now' t k = (None, t)" using ht_get_miss assms(1) by (auto simp: ht_inv_def)
  with assms False show ?thesis
    by (auto simp: ht_view_def durable_map_def visible_def split: option.splits)
qed

lemma ht_put_law:
  assumes "ht_inv t"
  shows "\<exists>f' t'. ht_insert f t k v = Some (True, f', t') \<and> ht_inv t' \<and> ht_view t' k = Some (durable v) \<and>
    (\<forall>k'. k' \<noteq> k \<longrightarrow> ht_view t' k' = ht_view t k' \<or> ht_view t' k' = None)"
proof -
  obtain f' t' ks te where *: "ht_insert f t k v = Some (True, f', t')" "ht_inv t'"
      "evicted t ks te" "ht_map t' = (ht_map te)(k \<mapsto> v)"
    by (rule ht_insert_effect [OF assms]) blast
  moreover have "ht_map te = ht_map t |` (- set ks)" using *(3) by (simp add: evicted_def)
  ultimately show ?thesis by (auto simp: ht_view_def durable_map_def restrict_map_def)
qed

lemma ht_del_law:
  assumes "ht_inv t"
  shows "\<exists>f' t'. ht_remove f t k = (ht_view t k \<noteq> None, f', t') \<and> ht_inv t' \<and>
    ht_view t' = (ht_view t)(k := None)"
proof -
  obtain f' t' where "ht_remove f t k = (ht_map t k \<noteq> None, f', t')" "ht_inv t'"
      "ht_map t' = (ht_map t)(k := None)"
    by (rule ht_remove_effect [OF assms])
  then show ?thesis by (simp add: ht_view_def) (simp add: durable_map_def)
qed

interpretation table: kv_store ht_inv ht_view ht_num_entries ht_get ht_insert ht_remove
proof
  fix t assume "ht_inv t"
  then show "finite (dom (ht_view t)) \<and> ht_num_entries t = card (dom (ht_view t))"
    using ht_finite ht_size by (simp add: ht_view_def)
qed (use ht_get_law ht_put_law ht_del_law in blast)+

section \<open>A vector of stores is a store\<close>

text \<open>Shard i holds only keys that are routed to i.\<close>

definition shards_inv :: "('s \<Rightarrow> bool) \<Rightarrow> ('s \<Rightarrow> string \<Rightarrow> value_entry option) \<Rightarrow> (string \<Rightarrow> nat) \<Rightarrow> nat \<Rightarrow>
    's list \<Rightarrow> bool" where
  "shards_inv good view route n ss \<longleftrightarrow>
     length ss = n \<and> (\<forall>i < n. good (ss ! i) \<and> (\<forall>k \<in> dom (view (ss ! i)). route k = i))"

definition shards_view :: "('s \<Rightarrow> string \<Rightarrow> value_entry option) \<Rightarrow> (string \<Rightarrow> nat) \<Rightarrow> 's list \<Rightarrow>
    string \<Rightarrow> value_entry option" where
  "shards_view view route ss k = view (ss ! route k) k"

lemma total_entries_sum: "total_entries entries ss = (\<Sum>i < length ss. entries (ss ! i))"
proof -
  have "foldl (\<lambda>total s. total + entries s) a ss = a + sum_list (map entries ss)" for a
    by (induction ss arbitrary: a) (auto simp: add.assoc)
  then show ?thesis by (simp add: total_entries_def sum_list_sum_nth atLeast0LessThan)
qed

locale sharded_store = kv_store inv view entries get put del
  for inv :: "'s \<Rightarrow> bool" and view :: "'s \<Rightarrow> string \<Rightarrow> value_entry option" and entries :: "'s \<Rightarrow> nat"
    and get :: "u64 \<Rightarrow> u64 \<Rightarrow> 's \<Rightarrow> string \<Rightarrow> value_entry option \<times> 's"
    and put :: "fs \<Rightarrow> 's \<Rightarrow> string \<Rightarrow> value_entry \<Rightarrow> (bool \<times> fs \<times> 's) option"
    and del :: "fs \<Rightarrow> 's \<Rightarrow> string \<Rightarrow> bool \<times> fs \<times> 's" +
  fixes route :: "string \<Rightarrow> nat" and n :: nat
  assumes route_law: "route k < n"
begin

lemma shards_inv_nth:
  assumes "shards_inv inv view route n ss"
  shows "inv (ss ! route k)" "route k < length ss"
  using assms route_law by (auto simp: shards_inv_def)

lemma shards_inv_update:
  assumes "shards_inv inv view route n ss" "inv s" "\<forall>k' \<in> dom (view s). route k' = route k"
  shows "shards_inv inv view route n (ss[route k := s])"
  using assms shards_inv_nth(2) [OF assms(1), of k] by (auto simp: shards_inv_def nth_list_update)

lemma view_route:
  "shards_inv inv view route n ss \<Longrightarrow> i < n \<Longrightarrow> k \<in> dom (view (ss ! i)) \<Longrightarrow> route k = i"
  by (simp add: shards_inv_def)

lemma view_elsewhere:
  "shards_inv inv view route n ss \<Longrightarrow> route k' \<noteq> route k \<Longrightarrow> view (ss ! route k) k' = None"
  using route_law by (fastforce simp: shards_inv_def dom_def)

lemma shards_view_update:
  assumes "shards_inv inv view route n ss"
  shows "shards_view view route (ss[route k := s]) k' =
    (if route k' = route k then view s k' else shards_view view route ss k')"
  using shards_inv_nth [OF assms] by (auto simp: shards_view_def)

lemma shard_get_law:
  assumes "shards_inv inv view route n ss" "shard_get get route now now' ss k = (r, ss')"
  shows "shards_inv inv view route n ss' \<and> shards_view view route ss' = shards_view view route ss \<and>
    map_option durable r = visible now (shards_view view route ss k)"
proof -
  obtain s where g: "get now now' (ss ! route k) k = (r, s)" "ss' = ss[route k := s]"
    using assms(2) by (auto simp: shard_get_def split: prod.splits)
  note l = get_law [OF shards_inv_nth(1) [OF assms(1)] g(1)]
  have "\<forall>k' \<in> dom (view s). route k' = route k"
    using l view_elsewhere [OF assms(1)] by (metis domIff)
  then have "shards_inv inv view route n ss'" using l g(2) shards_inv_update [OF assms(1)] by blast
  moreover have "shards_view view route ss' k' = shards_view view route ss k'" for k'
    using l g(2) shards_view_update [OF assms(1)] by (simp add: shards_view_def)
  ultimately show ?thesis using l by (auto simp: shards_view_def)
qed

lemma shard_put_effect:
  assumes "shards_inv inv view route n ss"
  obtains f' ss' where "shard_put put route f ss k v = Some (True, f', ss')"
    "shards_inv inv view route n ss'" "shards_view view route ss' k = Some (durable v)"
    "\<forall>k'. k' \<noteq> k \<longrightarrow> shards_view view route ss' k' = shards_view view route ss k' \<or>
      route k' = route k \<and> shards_view view route ss' k' = None"
proof -
  obtain f' s where p: "put f (ss ! route k) k v = Some (True, f', s)" "inv s"
      "view s k = Some (durable v)" "\<forall>k'. k' \<noteq> k \<longrightarrow> view s k' = view (ss ! route k) k' \<or> view s k' = None"
    using put_law [OF shards_inv_nth(1) [OF assms]] by blast
  have "\<forall>k' \<in> dom (view s). route k' = route k"
    using p(4) view_elsewhere [OF assms] by (metis domIff)
  then have "shards_inv inv view route n (ss[route k := s])"
    using p(2) shards_inv_update [OF assms] by blast
  then show thesis
    using p shards_view_update [OF assms, of k s]
    by (intro that [of f' "ss[route k := s]"]) (auto simp: shard_put_def shards_view_def)
qed

lemma shard_del_law:
  assumes "shards_inv inv view route n ss"
  shows "\<exists>f' ss'. shard_del del route f ss k = (shards_view view route ss k \<noteq> None, f', ss') \<and>
    shards_inv inv view route n ss' \<and> shards_view view route ss' = (shards_view view route ss)(k := None)"
proof -
  obtain f' s where p: "del f (ss ! route k) k = (view (ss ! route k) k \<noteq> None, f', s)" "inv s"
      "view s = (view (ss ! route k))(k := None)"
    using del_law [OF shards_inv_nth(1) [OF assms]] by blast
  have "\<forall>k' \<in> dom (view s). route k' = route k"
    using p(3) view_elsewhere [OF assms] by (metis domIff fun_upd_apply)
  then have "shards_inv inv view route n (ss[route k := s])"
    using p(2) shards_inv_update [OF assms] by blast
  moreover have "shards_view view route (ss[route k := s]) k' =
      ((shards_view view route ss)(k := None)) k'" for k'
    unfolding shards_view_update [OF assms] using p(3) by (simp add: shards_view_def)
  then have "shards_view view route (ss[route k := s]) = (shards_view view route ss)(k := None)" ..
  ultimately show ?thesis using p(1) by (simp add: shard_del_def) (simp add: shards_view_def)
qed

lemma shard_entries_law:
  assumes "shards_inv inv view route n ss"
  shows "finite (dom (shards_view view route ss)) \<and>
    total_entries entries ss = card (dom (shards_view view route ss))"
proof -
  have l: "length ss = n" using assms by (simp add: shards_inv_def)
  have i: "finite (dom (view (ss ! i)))" "entries (ss ! i) = card (dom (view (ss ! i)))" if "i < n" for i
    using assms that entries_law by (auto simp: shards_inv_def)
  have d: "dom (shards_view view route ss) = (\<Union>i < n. dom (view (ss ! i)))"
  proof (intro equalityI subsetI)
    fix k assume "k \<in> dom (shards_view view route ss)"
    then have "k \<in> dom (view (ss ! route k))" by (auto simp: shards_view_def)
    with route_law [of k] show "k \<in> (\<Union>i < n. dom (view (ss ! i)))" by blast
  next
    fix k assume "k \<in> (\<Union>i < n. dom (view (ss ! i)))"
    then obtain i where "i < n" "k \<in> dom (view (ss ! i))" by blast
    moreover from this have "route k = i" by (rule view_route [OF assms])
    ultimately show "k \<in> dom (shards_view view route ss)" by (auto simp: shards_view_def)
  qed
  have "\<forall>i \<in> {..<n}. \<forall>j \<in> {..<n}. i \<noteq> j \<longrightarrow> dom (view (ss ! i)) \<inter> dom (view (ss ! j)) = {}"
  proof (intro ballI impI equals0I)
    fix i j k assume "i \<in> {..<n}" "j \<in> {..<n}" "i \<noteq> j" "k \<in> dom (view (ss ! i)) \<inter> dom (view (ss ! j))"
    then show False using view_route [OF assms, of i k] view_route [OF assms, of j k] by simp
  qed
  then have "card (\<Union>i < n. dom (view (ss ! i))) = (\<Sum>i < n. card (dom (view (ss ! i))))"
    by (intro card_UN_disjoint) (simp_all add: i(1))
  also have "\<dots> = (\<Sum>i < n. entries (ss ! i))" by (rule sum.cong) (simp_all add: i(2))
  finally have "card (dom (shards_view view route ss)) = total_entries entries ss"
    unfolding d total_entries_sum l .
  moreover have "finite (dom (shards_view view route ss))" unfolding d by (simp add: i(1))
  ultimately show ?thesis by simp
qed

lemma shard_put_law:
  assumes "shards_inv inv view route n ss"
  shows "\<exists>f' ss'. shard_put put route f ss k v = Some (True, f', ss') \<and>
      shards_inv inv view route n ss' \<and> shards_view view route ss' k = Some (durable v) \<and>
      (\<forall>k'. k' \<noteq> k \<longrightarrow> shards_view view route ss' k' = shards_view view route ss k' \<or>
        shards_view view route ss' k' = None)"
proof -
  obtain f' ss' where *: "shard_put put route f ss k v = Some (True, f', ss')"
      "shards_inv inv view route n ss'" "shards_view view route ss' k = Some (durable v)"
      "\<forall>k'. k' \<noteq> k \<longrightarrow> shards_view view route ss' k' = shards_view view route ss k' \<or>
        route k' = route k \<and> shards_view view route ss' k' = None"
    by (rule shard_put_effect [OF assms])
  have "\<forall>k'. k' \<noteq> k \<longrightarrow> shards_view view route ss' k' = shards_view view route ss k' \<or>
        shards_view view route ss' k' = None"
    using *(4) by metis
  with *(1-3) show ?thesis by (intro exI conjI)
qed

end

sublocale sharded_store \<subseteq> shards: kv_store "shards_inv inv view route n" "shards_view view route"
    "total_entries entries" "shard_get get route" "shard_put put route" "shard_del del route"
  by unfold_locales (rule shard_get_law shard_put_law shard_del_law shard_entries_law; assumption)+

section \<open>Stores with room\<close>

text \<open>A run of operations and its meaning on a plain map.\<close>

datatype store_op = SGet u64 u64 string | SPut string value_entry | SDel string

datatype store_out = OValue "value_entry option" | OBool bool

fun spec_out :: "(string \<Rightarrow> value_entry option) \<Rightarrow> store_op \<Rightarrow> store_out" where
  "spec_out m (SGet now now' k) = OValue (visible now (m k))"
| "spec_out m (SPut k v) = OBool True"
| "spec_out m (SDel k) = OBool (m k \<noteq> None)"

fun spec_step :: "(string \<Rightarrow> value_entry option) \<Rightarrow> store_op \<Rightarrow> string \<Rightarrow> value_entry option" where
  "spec_step m (SGet now now' k) = m"
| "spec_step m (SPut k v) = m(k \<mapsto> durable v)"
| "spec_step m (SDel k) = m(k := None)"

fun spec_run :: "(string \<Rightarrow> value_entry option) \<Rightarrow> store_op list \<Rightarrow> store_out list" where
  "spec_run m [] = []"
| "spec_run m (x # xs) = spec_out m x # spec_run (spec_step m x) xs"

fun put_bytes :: "store_op list \<Rightarrow> nat" where
  "put_bytes [] = 0"
| "put_bytes (SPut k v # xs) = length (ve_value v) + put_bytes xs"
| "put_bytes (_ # xs) = put_bytes xs"

fun store_step :: "(u64 \<Rightarrow> u64 \<Rightarrow> 's \<Rightarrow> string \<Rightarrow> value_entry option \<times> 's) \<Rightarrow>
    (fs \<Rightarrow> 's \<Rightarrow> string \<Rightarrow> value_entry \<Rightarrow> (bool \<times> fs \<times> 's) option) \<Rightarrow>
    (fs \<Rightarrow> 's \<Rightarrow> string \<Rightarrow> bool \<times> fs \<times> 's) \<Rightarrow> fs \<Rightarrow> 's \<Rightarrow> store_op \<Rightarrow> (store_out \<times> fs \<times> 's) option" where
  "store_step get put del f s (SGet now now' k) =
     (case get now now' s k of (r, s) \<Rightarrow> Some (OValue (map_option durable r), f, s))"
| "store_step get put del f s (SPut k v) = map_option (\<lambda>(b, f, s). (OBool b, f, s)) (put f s k v)"
| "store_step get put del f s (SDel k) = (case del f s k of (b, f, s) \<Rightarrow> Some (OBool b, f, s))"

fun run_store :: "(u64 \<Rightarrow> u64 \<Rightarrow> 's \<Rightarrow> string \<Rightarrow> value_entry option \<times> 's) \<Rightarrow>
    (fs \<Rightarrow> 's \<Rightarrow> string \<Rightarrow> value_entry \<Rightarrow> (bool \<times> fs \<times> 's) option) \<Rightarrow>
    (fs \<Rightarrow> 's \<Rightarrow> string \<Rightarrow> bool \<times> fs \<times> 's) \<Rightarrow> fs \<Rightarrow> 's \<Rightarrow> store_op list \<Rightarrow> (store_out list \<times> fs \<times> 's) option" where
  "run_store get put del f s [] = Some ([], f, s)"
| "run_store get put del f s (x # xs) =
     Option.bind (store_step get put del f s x)
       (\<lambda>(out, f, s). map_option (\<lambda>(outs, r). (out # outs, r)) (run_store get put del f s xs))"

text \<open>\<open>fits s b\<close>: s can take values of b bytes in total before it evicts anything.\<close>

locale kv_store_room = kv_store inv view entries get put del
  for inv :: "'s \<Rightarrow> bool" and view :: "'s \<Rightarrow> string \<Rightarrow> value_entry option" and entries :: "'s \<Rightarrow> nat"
    and get :: "u64 \<Rightarrow> u64 \<Rightarrow> 's \<Rightarrow> string \<Rightarrow> value_entry option \<times> 's"
    and put :: "fs \<Rightarrow> 's \<Rightarrow> string \<Rightarrow> value_entry \<Rightarrow> (bool \<times> fs \<times> 's) option"
    and del :: "fs \<Rightarrow> 's \<Rightarrow> string \<Rightarrow> bool \<times> fs \<times> 's" +
  fixes fits :: "'s \<Rightarrow> nat \<Rightarrow> bool"
  assumes fits_mono: "fits s b \<Longrightarrow> b' \<le> b \<Longrightarrow> fits s b'"
    and fits_get: "inv s \<Longrightarrow> get now now' s k = (r, s') \<Longrightarrow> fits s b \<Longrightarrow> fits s' b"
    and fits_del: "inv s \<Longrightarrow> del f s k = (r', f', s') \<Longrightarrow> fits s b \<Longrightarrow> fits s' b"
    and fits_put: "inv s \<Longrightarrow> put f s k v = Some (True, f', s') \<Longrightarrow> fits s (length (ve_value v) + b) \<Longrightarrow>
      view s' = (view s)(k \<mapsto> durable v) \<and> fits s' b"
begin

lemma step_refines:
  assumes "inv s" "fits s (put_bytes (x # xs))"
  shows "\<exists>f' s'. store_step get put del f s x = Some (spec_out (view s) x, f', s') \<and> inv s' \<and>
    view s' = spec_step (view s) x \<and> fits s' (put_bytes xs)"
proof (cases x)
  case (SGet now now' k)
  obtain r s1 where g: "get now now' s k = (r, s1)" by force
  with get_law [OF assms(1) g] fits_get [OF assms(1) g] assms(2) SGet show ?thesis by simp
next
  case (SPut k v)
  obtain f1 s1 where p: "put f s k v = Some (True, f1, s1)" "inv s1"
    using put_law [OF assms(1)] by blast
  with fits_put [OF assms(1) p(1)] assms(2) SPut show ?thesis by simp
next
  case (SDel k)
  obtain f1 s1 where d: "del f s k = (view s k \<noteq> None, f1, s1)" "inv s1" "view s1 = (view s)(k := None)"
    using del_law [OF assms(1)] by blast
  with fits_del [OF assms(1) d(1)] assms(2) SDel show ?thesis by simp
qed

lemma run_refines:
  assumes "inv s" "fits s (put_bytes xs)"
  shows "\<exists>f' s'. run_store get put del f s xs = Some (spec_run (view s) xs, f', s') \<and> inv s' \<and>
    view s' = foldl spec_step (view s) xs"
  using assms
proof (induction xs arbitrary: f s)
  case (Cons x xs)
  obtain f1 s1 where h: "store_step get put del f s x = Some (spec_out (view s) x, f1, s1)" "inv s1"
      "view s1 = spec_step (view s) x" "fits s1 (put_bytes xs)"
    using step_refines [OF Cons.prems] by blast
  from Cons.IH [OF h(2,4), of f1] h(1) show ?case unfolding h(3) by auto
qed simp

end

definition ht_fits :: "hash_table \<Rightarrow> nat \<Rightarrow> bool" where
  "ht_fits t b \<longleftrightarrow> map_bytes (ht_map t) + b \<le> ht_limit t"

lemma ht_fits_get:
  assumes "ht_inv t" "ht_get now now' t k = (r, t')" "ht_fits t b"
  shows "ht_fits t' b"
proof (cases "\<exists>v. ht_map t k = Some v \<and> \<not> is_expired now v")
  case True
  then obtain v where v: "ht_map t k = Some v" "\<not> is_expired now v" by blast
  obtain t1 where g: "ht_get now now' t k = (Some (touch now' v), t1)"
      "ht_map t1 = (ht_map t)(k \<mapsto> touch now' v)" "ht_limit t1 = ht_limit t"
    by (rule ht_get_hit [OF assms(1) v])
  moreover have "map_bytes ((ht_map t)(k \<mapsto> touch now' v)) = map_bytes (ht_map t)"
    using v(1) by (intro map_bytes_same_size) (simp_all add: ht_finite [OF assms(1)] touch_def)
  ultimately show ?thesis using assms(2,3) by (simp add: ht_fits_def)
next
  case False
  then have "ht_get now now' t k = (None, t)" using ht_get_miss assms(1) by (auto simp: ht_inv_def)
  with assms show ?thesis by simp
qed

lemma ht_fits_put:
  assumes "ht_inv t" "ht_insert f t k v = Some (True, f', t')" "ht_fits t (length (ve_value v) + b)"
  shows "ht_view t' = (ht_view t)(k \<mapsto> durable v) \<and> ht_fits t' b"
proof -
  have "map_bytes (ht_map t) \<le> ht_limit t" using assms(3) by (simp add: ht_fits_def)
  then obtain f1 t1 where "ht_insert f t k v = Some (True, f1, t1)"
      "ht_map t1 = (ht_map t)(k \<mapsto> v)" "ht_limit t1 = ht_limit t"
    by (rule ht_insert_fits [OF assms(1)])
  with map_bytes_upd_le [OF ht_finite [OF assms(1)], of k v] assms(2,3) show ?thesis
    by (simp add: ht_view_def ht_fits_def)
qed

lemma ht_fits_del:
  assumes "ht_inv t" "ht_remove f t k = (r, f', t')" "ht_fits t b"
  shows "ht_fits t' b"
proof -
  obtain f1 t1 where "ht_remove f t k = (ht_map t k \<noteq> None, f1, t1)"
      "ht_map t1 = (ht_map t)(k := None)" "ht_limit t1 = ht_limit t"
    by (rule ht_remove_effect [OF assms(1)])
  moreover have "map_bytes ((ht_map t)(k := None)) \<le> map_bytes (ht_map t)"
    using map_bytes_remove [OF ht_finite [OF assms(1)], of k]
    by (cases "ht_map t k") (auto simp: fun_upd_idem)
  ultimately show ?thesis using assms(2,3) by (simp add: ht_fits_def)
qed

interpretation table: kv_store_room ht_inv ht_view ht_num_entries ht_get ht_insert ht_remove ht_fits
  by unfold_locales (simp add: ht_fits_def, (rule ht_fits_get ht_fits_del ht_fits_put; assumption)+)

definition shards_fit :: "('s \<Rightarrow> nat \<Rightarrow> bool) \<Rightarrow> 's list \<Rightarrow> nat \<Rightarrow> bool" where
  "shards_fit fits ss b \<longleftrightarrow> (\<forall>s \<in> set ss. fits s b)"

locale sharded_room = sharded_store inv view entries get put del route n +
    kv_store_room inv view entries get put del fits
  for inv :: "'s \<Rightarrow> bool" and view :: "'s \<Rightarrow> string \<Rightarrow> value_entry option" and entries :: "'s \<Rightarrow> nat"
    and get :: "u64 \<Rightarrow> u64 \<Rightarrow> 's \<Rightarrow> string \<Rightarrow> value_entry option \<times> 's"
    and put :: "fs \<Rightarrow> 's \<Rightarrow> string \<Rightarrow> value_entry \<Rightarrow> (bool \<times> fs \<times> 's) option"
    and del :: "fs \<Rightarrow> 's \<Rightarrow> string \<Rightarrow> bool \<times> fs \<times> 's"
    and route :: "string \<Rightarrow> nat" and n :: nat and fits :: "'s \<Rightarrow> nat \<Rightarrow> bool"
begin

lemma shards_fit_update:
  assumes "shards_fit fits ss b" "fits s b'" "b' \<le> b"
  shows "shards_fit fits (ss[i := s]) b'"
  using assms fits_mono set_update_subset_insert [of ss i s] unfolding shards_fit_def by blast

lemma shards_fit_nth:
  assumes "shards_inv inv view route n ss" "shards_fit fits ss b"
  shows "fits (ss ! route k) b"
  using assms shards_inv_nth(2) [OF assms(1)] by (simp add: shards_fit_def)

lemma shard_fits_get:
  assumes "shards_inv inv view route n ss" "shard_get get route now now' ss k = (r, ss')"
    "shards_fit fits ss b"
  shows "shards_fit fits ss' b"
proof -
  obtain s where g: "get now now' (ss ! route k) k = (r, s)" "ss' = ss[route k := s]"
    using assms(2) by (auto simp: shard_get_def split: prod.splits)
  from fits_get [OF shards_inv_nth(1) [OF assms(1)] g(1) shards_fit_nth [OF assms(1,3)]] g(2)
  show ?thesis using shards_fit_update [OF assms(3)] by simp
qed

lemma shard_fits_del:
  assumes "shards_inv inv view route n ss" "shard_del del route f ss k = (r, f', ss')"
    "shards_fit fits ss b"
  shows "shards_fit fits ss' b"
proof -
  obtain s where g: "del f (ss ! route k) k = (r, f', s)" "ss' = ss[route k := s]"
    using assms(2) by (auto simp: shard_del_def split: prod.splits)
  from fits_del [OF shards_inv_nth(1) [OF assms(1)] g(1) shards_fit_nth [OF assms(1,3)]] g(2)
  show ?thesis using shards_fit_update [OF assms(3)] by simp
qed

lemma shard_fits_put:
  assumes "shards_inv inv view route n ss" "shard_put put route f ss k v = Some (True, f', ss')"
    "shards_fit fits ss (length (ve_value v) + b)"
  shows "shards_view view route ss' = (shards_view view route ss)(k \<mapsto> durable v) \<and> shards_fit fits ss' b"
proof -
  obtain s where g: "put f (ss ! route k) k v = Some (True, f', s)" "ss' = ss[route k := s]"
    using assms(2) by (auto simp: shard_put_def)
  note l = fits_put [OF shards_inv_nth(1) [OF assms(1)] g(1) shards_fit_nth [OF assms(1,3)]]
  have "shards_view view route ss' k' = ((shards_view view route ss)(k \<mapsto> durable v)) k'" for k'
    unfolding g(2) shards_view_update [OF assms(1)] using l by (simp add: shards_view_def)
  moreover have "shards_fit fits ss' b" using l g(2) shards_fit_update [OF assms(3)] by simp
  ultimately show ?thesis by (intro conjI ext)
qed

end

sublocale sharded_room \<subseteq> shards: kv_store_room "shards_inv inv view route n" "shards_view view route"
    "total_entries entries" "shard_get get route" "shard_put put route" "shard_del del route" "shards_fit fits"
proof unfold_locales
  fix ss b b' assume "shards_fit fits ss b" "b' \<le> b"
  then show "shards_fit fits ss b'" using fits_mono by (auto simp: shards_fit_def)
qed (rule shard_fits_get shard_fits_del shard_fits_put; assumption)+

lemma sync_shard_id_less: "sync_shard_id (Suc m) k < Suc m"
  by (simp add: sync_shard_id_def)

interpretation sync_shards: sharded_room ht_inv ht_view ht_num_entries ht_get ht_insert ht_remove
    "sync_shard_id (Suc m)" "Suc m" ht_fits for m
  by unfold_locales (rule sync_shard_id_less)

section \<open>The engines as stores\<close>

definition sync_inv :: "sharded_engine_sync \<Rightarrow> bool" where
  "sync_inv e \<longleftrightarrow> 0 < sy_num_shards e \<and>
     shards_inv ht_inv ht_view (sync_shard_id (sy_num_shards e)) (sy_num_shards e) (sy_shards e)"

definition sync_view :: "sharded_engine_sync \<Rightarrow> string \<Rightarrow> value_entry option" where
  "sync_view e = shards_view ht_view (sync_shard_id (sy_num_shards e)) (sy_shards e)"

definition sync_fits :: "sharded_engine_sync \<Rightarrow> nat \<Rightarrow> bool" where
  "sync_fits e b = shards_fit ht_fits (sy_shards e) b"

lemmas sync_defs = sync_view_def sync_fits_def sync_get_def sync_set_def sync_remove_def
  sync_total_entries_def

lemma sync_inv_Suc:
  assumes "sync_inv e"
  obtains m where "sy_num_shards e = Suc m"
    "shards_inv ht_inv ht_view (sync_shard_id (Suc m)) (Suc m) (sy_shards e)"
  using assms that [of "sy_num_shards e - 1"] by (simp add: sync_inv_def)

lemma sync_inv_update:
  "sy_num_shards e = Suc m \<Longrightarrow> shards_inv ht_inv ht_view (sync_shard_id (Suc m)) (Suc m) ss \<Longrightarrow>
    sync_inv (e\<lparr>sy_shards := ss\<rparr>)"
  by (simp add: sync_inv_def)

lemma sync_get_law:
  assumes "sync_inv e" "sync_get now now' e k = (r, e')"
  shows "sync_inv e' \<and> sync_view e' = sync_view e \<and> map_option durable r = visible now (sync_view e k)"
proof -
  obtain m where m: "sy_num_shards e = Suc m"
      "shards_inv ht_inv ht_view (sync_shard_id (Suc m)) (Suc m) (sy_shards e)"
    by (rule sync_inv_Suc [OF assms(1)])
  obtain ss where g: "shard_get ht_get (sync_shard_id (Suc m)) now now' (sy_shards e) k = (r, ss)"
      "e' = e\<lparr>sy_shards := ss\<rparr>"
    using assms(2) m(1) by (auto simp: sync_get_def split: prod.splits)
  with sync_shards.shard_get_law [OF m(2) g(1)] m(1) show ?thesis
    by (simp add: sync_view_def sync_inv_update)
qed

lemma sync_set_effect:
  assumes "sync_inv e"
  obtains f' e' where "sync_set f e k v = Some (True, f', e')" "sync_inv e'"
    "sync_view e' k = Some (durable v)" "sy_num_shards e' = sy_num_shards e"
    "\<forall>k'. k' \<noteq> k \<longrightarrow> sync_view e' k' = sync_view e k' \<or>
      sync_shard_id (sy_num_shards e) k' = sync_shard_id (sy_num_shards e) k \<and> sync_view e' k' = None"
proof -
  obtain m where m: "sy_num_shards e = Suc m"
      "shards_inv ht_inv ht_view (sync_shard_id (Suc m)) (Suc m) (sy_shards e)"
    by (rule sync_inv_Suc [OF assms(1)])
  obtain f' ss where s: "shard_put ht_insert (sync_shard_id (Suc m)) f (sy_shards e) k v = Some (True, f', ss)"
      "shards_inv ht_inv ht_view (sync_shard_id (Suc m)) (Suc m) ss"
      "shards_view ht_view (sync_shard_id (Suc m)) ss k = Some (durable v)"
      "\<forall>k'. k' \<noteq> k \<longrightarrow> shards_view ht_view (sync_shard_id (Suc m)) ss k' =
          shards_view ht_view (sync_shard_id (Suc m)) (sy_shards e) k' \<or>
        sync_shard_id (Suc m) k' = sync_shard_id (Suc m) k \<and>
          shards_view ht_view (sync_shard_id (Suc m)) ss k' = None"
    by (rule sync_shards.shard_put_effect [OF m(2)])
  show thesis
    by (rule that [of f' "e\<lparr>sy_shards := ss\<rparr>"])
      (use s m(1) in \<open>simp_all add: sync_set_def sync_inv_update sync_view_def\<close>)
qed

lemma sync_remove_law:
  assumes "sync_inv e"
  shows "\<exists>f' e'. sync_remove f e k = (sync_view e k \<noteq> None, f', e') \<and> sync_inv e' \<and>
    sync_view e' = (sync_view e)(k := None)"
proof -
  obtain m where m: "sy_num_shards e = Suc m"
      "shards_inv ht_inv ht_view (sync_shard_id (Suc m)) (Suc m) (sy_shards e)"
    by (rule sync_inv_Suc [OF assms(1)])
  from sync_shards.shard_del_law [OF m(2), of f k] obtain f' ss where
    "shard_del ht_remove (sync_shard_id (Suc m)) f (sy_shards e) k =
      (shards_view ht_view (sync_shard_id (Suc m)) (sy_shards e) k \<noteq> None, f', ss)"
    "shards_inv ht_inv ht_view (sync_shard_id (Suc m)) (Suc m) ss"
    "shards_view ht_view (sync_shard_id (Suc m)) ss =
      (shards_view ht_view (sync_shard_id (Suc m)) (sy_shards e))(k := None)" by blast
  with m(1) show ?thesis by (simp add: sync_remove_def sync_view_def sync_inv_update)
qed

interpretation sync_engine: kv_store_room sync_inv sync_view sync_total_entries sync_get sync_set
    sync_remove sync_fits
proof unfold_locales
  fix f e k v assume "sync_inv e"
  then obtain f' e' where "sync_set f e k v = Some (True, f', e')" "sync_inv e'"
    "sync_view e' k = Some (durable v)" "\<forall>k'. k' \<noteq> k \<longrightarrow> sync_view e' k' = sync_view e k' \<or>
      sync_shard_id (sy_num_shards e) k' = sync_shard_id (sy_num_shards e) k \<and> sync_view e' k' = None"
    by (rule sync_set_effect)
  then show "\<exists>f' e'. sync_set f e k v = Some (True, f', e') \<and> sync_inv e' \<and>
      sync_view e' k = Some (durable v) \<and>
      (\<forall>k'. k' \<noteq> k \<longrightarrow> sync_view e' k' = sync_view e k' \<or> sync_view e' k' = None)" by metis
next
  fix e assume "sync_inv e"
  then show "finite (dom (sync_view e)) \<and> sync_total_entries e = card (dom (sync_view e))"
    by (rule sync_inv_Suc) (simp add: sync_defs sync_shards.shard_entries_law)
next
  fix e :: sharded_engine_sync and b b' assume "sync_fits e b" "b' \<le> b"
  then show "sync_fits e b'" using sync_shards.shards.fits_mono by (simp add: sync_fits_def)
next
  fix e now now' k r e' b assume "sync_inv e" "sync_get now now' e k = (r, e')" "sync_fits e b"
  then show "sync_fits e' b"
    by (elim sync_inv_Suc) (auto simp: sync_defs split: prod.splits dest: sync_shards.shard_fits_get)
next
  fix e f k r f' e' b assume "sync_inv e" "sync_remove f e k = (r, f', e')" "sync_fits e b"
  then show "sync_fits e' b"
    by (elim sync_inv_Suc) (auto simp: sync_defs split: prod.splits dest: sync_shards.shard_fits_del)
next
  fix e f k v f' e' b assume "sync_inv e" "sync_set f e k v = Some (True, f', e')"
    "sync_fits e (length (ve_value v) + b)"
  then show "sync_view e' = (sync_view e)(k \<mapsto> durable v) \<and> sync_fits e' b"
    by (elim sync_inv_Suc) (auto simp: sync_defs dest: sync_shards.shard_fits_put)
qed (rule sync_get_law sync_remove_law; assumption)+

definition mutex_inv :: "mutex_engine \<Rightarrow> bool" where
  "mutex_inv e = ht_inv (me_table e)"

definition mutex_view :: "mutex_engine \<Rightarrow> string \<Rightarrow> value_entry option" where
  "mutex_view e = ht_view (me_table e)"

definition mutex_fits :: "mutex_engine \<Rightarrow> nat \<Rightarrow> bool" where
  "mutex_fits e = ht_fits (me_table e)"

lemmas mutex_defs = mutex_inv_def mutex_view_def mutex_fits_def mutex_get_def mutex_set_def
  mutex_remove_def mutex_size_def

interpretation mutex_store: kv_store_room mutex_inv mutex_view mutex_size mutex_get mutex_set
    mutex_remove mutex_fits
proof unfold_locales
  fix f e k v assume "mutex_inv e"
  then obtain f' t' where p: "ht_insert f (me_table e) k v = Some (True, f', t')" "ht_inv t'"
      "ht_view t' k = Some (durable v)"
      "\<forall>k'. k' \<noteq> k \<longrightarrow> ht_view t' k' = ht_view (me_table e) k' \<or> ht_view t' k' = None"
    using ht_put_law [of "me_table e" f k v] by (auto simp: mutex_inv_def)
  show "\<exists>f' e'. mutex_set f e k v = Some (True, f', e') \<and>
      mutex_inv e' \<and> mutex_view e' k = Some (durable v) \<and>
      (\<forall>k'. k' \<noteq> k \<longrightarrow> mutex_view e' k' = mutex_view e k' \<or> mutex_view e' k' = None)"
    by (rule exI [of _ f'], rule exI [of _ "e\<lparr>me_table := t'\<rparr>"]) (simp add: mutex_defs p)
next
  fix f e k assume "mutex_inv e"
  with ht_del_law [of "me_table e" f k] show "\<exists>f' e'. mutex_remove f e k = (mutex_view e k \<noteq> None, f', e') \<and>
      mutex_inv e' \<and> mutex_view e' = (mutex_view e)(k := None)"
    by (auto simp: mutex_defs)
qed (auto simp: mutex_defs split: prod.splits dest: ht_get_law ht_fits_get ht_fits_del ht_fits_put
    table.entries_law intro: table.fits_mono)

lemma ht_new_store:
  assumes "t = snd (snd (ht_new f cap limit policy []))"
  shows "ht_inv t" "ht_view t = (\<lambda>_. None)" "ht_fits t b \<longleftrightarrow> b \<le> limit"
proof -
  obtain e f' where n: "ht_new f cap limit policy [] = (e, f', t)" using assms by (metis prod.collapse)
  note i = ht_new_inv [OF n]
  show "ht_inv t" by (rule i(1))
  show "ht_view t = (\<lambda>_. None)" by (simp add: ht_view_def durable_map_def i(2))
  show "ht_fits t b \<longleftrightarrow> b \<le> limit" by (simp add: ht_fits_def map_bytes_def i(2,3))
qed

lemma sync_new_store:
  assumes "0 < n"
  shows "sync_inv (sync_new n limit policy f)" "sync_view (sync_new n limit policy f) = (\<lambda>_. None)"
    "sync_fits (sync_new n limit policy f) b \<longleftrightarrow> b \<le> limit"
  using assms ht_new_store [OF refl, of f 16 limit policy]
  by (auto simp: sync_inv_def sync_new_def shards_inv_def sync_view_def shards_view_def sync_shard_id_def
      sync_fits_def shards_fit_def fun_eq_iff)

lemma mutex_new_store:
  "mutex_inv (mutex_new f)" "mutex_view (mutex_new f) = (\<lambda>_. None)"
  "mutex_fits (mutex_new f) b \<longleftrightarrow> b \<le> 100 * 1024 * 1024"
  using ht_new_store [OF refl, of f 16 "100 * 1024 * 1024" LRU]
  by (simp_all add: mutex_inv_def mutex_view_def mutex_fits_def mutex_new_def)

section \<open>Properties\<close>

text \<open>C8. The sharded engine refines a map: from any well-formed state of ShardedEngineSync whose
  shards can each take the values still to be written, every sequence of gets, sets and removes
  terminates and answers exactly as one plain map with expiry does, and the engine's contents end up
  as that map.\<close>

theorem sync_engine_refines_map:
  assumes "sync_inv e" "sync_fits e (put_bytes ops)"
  shows "\<exists>f' e'. run_store sync_get sync_set sync_remove f e ops = Some (spec_run (sync_view e) ops, f', e') \<and>
     sync_inv e' \<and> sync_view e' = foldl spec_step (sync_view e) ops"
  by (rule sync_engine.run_refines [OF assms])

theorem sync_engine_refines_map_witness:
  "\<exists>f' e'. run_store sync_get sync_set sync_remove wal_demo_fs (sync_new 3 50 LFU wal_demo_fs)
     [SPut ''a'' (value_entry_new ''one'' 7), SGet 6 6 ''a'', SGet 7 7 ''a'', SDel ''a'', SDel ''a''] =
     Some ([OBool True, OValue (Some (value_entry_new ''one'' 7)), OValue None, OBool True, OBool False], f', e') \<and>
     sync_inv e'"
proof -
  let ?ops = "[SPut ''a'' (value_entry_new ''one'' 7), SGet 6 6 ''a'', SGet 7 7 ''a'', SDel ''a'', SDel ''a'']"
  let ?e = "sync_new 3 50 LFU wal_demo_fs"
  have n: "sync_inv ?e" "sync_view ?e = (\<lambda>_. None)" using sync_new_store [of 3] by simp_all
  have "sync_fits ?e (put_bytes ?ops)"
    using sync_new_store(3) [of 3 50 LFU wal_demo_fs] by (simp add: value_entry_new_def)
  from sync_engine_refines_map [OF n(1) this, of wal_demo_fs]
  obtain f' e' where r: "run_store sync_get sync_set sync_remove wal_demo_fs ?e ?ops =
      Some (spec_run (\<lambda>_. None) ?ops, f', e')" "sync_inv e'" unfolding n(2) by blast
  have "spec_run (\<lambda>_. None) ?ops =
      [OBool True, OValue (Some (value_entry_new ''one'' 7)), OValue None, OBool True, OBool False]"
    by (simp add: visible_def is_expired_def durable_def value_entry_new_def)
  with r show ?thesis by (intro exI conjI) (simp_all only:)
qed

text \<open>C21. The two lock-based engines are interchangeable: started empty, with memory for the values
  written, a MutexEngine and a ShardedEngineSync of any positive number of shards and either policy
  give the same answers to every sequence of operations.\<close>

theorem mutex_and_sharded_agree:
  assumes "0 < n" "put_bytes ops \<le> limit" "put_bytes ops \<le> 100 * 1024 * 1024"
  shows "\<exists>outs f1 e1 f2 e2.
     run_store mutex_get mutex_set mutex_remove f (mutex_new f) ops = Some (outs, f1, e1) \<and>
     run_store sync_get sync_set sync_remove f (sync_new n limit policy f) ops = Some (outs, f2, e2) \<and>
     mutex_view e1 = sync_view e2"
proof -
  have "sync_fits (sync_new n limit policy f) (put_bytes ops)"
    using sync_new_store(3) [OF assms(1)] assms(2) by simp
  from sync_engine.run_refines [OF sync_new_store(1) [OF assms(1)] this, of f]
  obtain f2 e2 where s: "run_store sync_get sync_set sync_remove f (sync_new n limit policy f) ops =
      Some (spec_run (\<lambda>_. None) ops, f2, e2)" "sync_view e2 = foldl spec_step (\<lambda>_. None) ops"
    unfolding sync_new_store(2) [OF assms(1)] by blast
  have "mutex_fits (mutex_new f) (put_bytes ops)" using mutex_new_store(3) assms(3) by simp
  from mutex_store.run_refines [OF mutex_new_store(1) this, of f]
  obtain f1 e1 where m: "run_store mutex_get mutex_set mutex_remove f (mutex_new f) ops =
      Some (spec_run (\<lambda>_. None) ops, f1, e1)" "mutex_view e1 = foldl spec_step (\<lambda>_. None) ops"
    unfolding mutex_new_store(2) by blast
  have "mutex_view e1 = sync_view e2" unfolding s(2) m(2) ..
  with s(1) m(1) show ?thesis by (intro exI conjI)
qed

theorem mutex_and_sharded_agree_witness:
  "\<exists>outs f1 e1 f2 e2.
     run_store mutex_get mutex_set mutex_remove wal_demo_fs (mutex_new wal_demo_fs)
       [SPut ''a'' (value_entry_new ''one'' 0), SGet 1 1 ''b''] = Some (outs, f1, e1) \<and>
     run_store sync_get sync_set sync_remove wal_demo_fs (sync_new 8 10 LRU wal_demo_fs)
       [SPut ''a'' (value_entry_new ''one'' 0), SGet 1 1 ''b''] = Some (outs, f2, e2) \<and>
     mutex_view e1 = sync_view e2"
  by (rule mutex_and_sharded_agree) (simp_all add: value_entry_new_def)

text \<open>Shards are isolated: a set of ShardedEngineSync always succeeds, stores its value, and
  whatever it evicts to make room lies in the shard of the key it sets; keys of other shards are
  untouched however full their shards are.\<close>

theorem sync_set_isolated:
  assumes "sync_inv e"
  shows "\<exists>f' e'. sync_set f e k v = Some (True, f', e') \<and> sync_inv e' \<and> sync_view e' k = Some (durable v) \<and>
     (\<forall>k'. k' \<noteq> k \<longrightarrow> sync_view e' k' = sync_view e k' \<or>
        sync_shard_id (sy_num_shards e) k' = sync_shard_id (sy_num_shards e) k \<and> sync_view e' k' = None)"
proof -
  obtain f' e' where *: "sync_set f e k v = Some (True, f', e')" "sync_inv e'"
      "sync_view e' k = Some (durable v)" "sy_num_shards e' = sy_num_shards e"
      "\<forall>k'. k' \<noteq> k \<longrightarrow> sync_view e' k' = sync_view e k' \<or>
        sync_shard_id (sy_num_shards e) k' = sync_shard_id (sy_num_shards e) k \<and> sync_view e' k' = None"
    by (rule sync_set_effect [OF assms])
  from *(1-3,5) show ?thesis by (intro exI conjI)
qed

theorem sync_set_isolated_witness:
  "\<exists>f' e'. sync_set wal_demo_fs (sync_new 4 10 LRU wal_demo_fs) ''k'' (value_entry_new ''v'' 0) =
      Some (True, f', e') \<and> sync_view e' ''k'' = Some (durable (value_entry_new ''v'' 0))"
proof -
  have "sync_inv (sync_new 4 10 LRU wal_demo_fs)" by (rule sync_new_store(1)) simp
  from sync_set_isolated [OF this, of wal_demo_fs "''k''" "value_entry_new ''v'' 0"] show ?thesis
    by (elim exE conjE) (intro exI conjI)
qed

text \<open>The engine's total is exact: the sum of the shard sizes is the number of keys the engine
  holds.\<close>

theorem sync_total_entries_card:
  assumes "sync_inv e"
  shows "sync_total_entries e = card (dom (sync_view e))"
  using sync_engine.entries_law [OF assms] by simp

theorem sync_total_entries_card_witness: "sync_total_entries (sync_new 5 10 LRU wal_demo_fs) = 0"
  using sync_total_entries_card [OF sync_new_store(1), of 5 10 LRU wal_demo_fs] sync_new_store(2) [of 5]
  by simp

end
