(* ===== verification/Engine_API.thy ===== *)
theory Engine_API
  imports KV_Store Table_Properties
begin

text \<open>
  The C interface of the engine: \<open>engine/src/engine.cpp\<close>. A pointer argument is an option, None
  being the null pointer; a key or value pointer with its length is the bytes it delimits. The
  caller's output buffer and the length cell \<open>*out_len\<close> are values passed in and returned. The
  clock readings are parameters: one for \<open>engine_set\<close>, three for \<open>engine_get\<close> (two of them made
  inside \<open>HashTable::get\<close>). A call whose table operation would not end is None.
\<close>

section \<open>The handle and its operations\<close>

record engine_handle =
  eh_num_threads :: int
  eh_mem_limit_bytes :: nat
  eh_table :: hash_table

definition engine_create :: "fs \<Rightarrow> int \<Rightarrow> nat \<Rightarrow> engine_handle option" where
  "engine_create f num_threads mem_limit_bytes =
     (if num_threads \<le> 0 \<or> mem_limit_bytes = 0 then None
      else Some \<lparr>eh_num_threads = num_threads, eh_mem_limit_bytes = mem_limit_bytes,
                 eh_table = snd (snd (ht_new f 16 (100 * 1024 * 1024) LRU []))\<rparr>)"

text \<open>Destroying the table closes its log, if it has one.\<close>

definition engine_destroy :: "fs \<Rightarrow> engine_handle option \<Rightarrow> fs" where
  "engine_destroy f handle =
     (case handle of
        None \<Rightarrow> f
      | Some h \<Rightarrow> (case ht_wal_writer (eh_table h) of None \<Rightarrow> f | Some w \<Rightarrow> wal_writer_close f w))"

definition engine_set :: "u64 \<Rightarrow> fs \<Rightarrow> engine_handle option \<Rightarrow> string option \<Rightarrow> string option \<Rightarrow> u64 \<Rightarrow>
    (int \<times> fs \<times> engine_handle option) option" where
  "engine_set now f handle key val ttl_ns =
     (case (handle, key, val) of
        (Some h, Some k, Some x) \<Rightarrow>
          if length x > 512 * 1024 then Some (-2, f, handle)
          else let expiry_ns = (if 0 <s ttl_ns then now + ttl_ns else 0)
               in map_option (\<lambda>(_, f, t). (0, f, Some (h\<lparr>eh_table := t\<rparr>)))
                    (ht_insert f (eh_table h) k (value_entry_new x expiry_ns))
      | _ \<Rightarrow> Some (-1, f, handle))"

definition engine_get :: "u64 \<Rightarrow> u64 \<Rightarrow> u64 \<Rightarrow> fs \<Rightarrow> engine_handle option \<Rightarrow> string option \<Rightarrow> string option \<Rightarrow>
    nat option \<Rightarrow> int \<times> string option \<times> nat option \<times> fs \<times> engine_handle option" where
  "engine_get now_check now_access now f handle key out_buf out_len =
     (case (handle, key, out_buf, out_len) of
        (Some h, Some k, Some buf, Some len) \<Rightarrow>
          (case ht_get now_check now_access (eh_table h) k of
             (None, t) \<Rightarrow> (-1, out_buf, out_len, f, Some (h\<lparr>eh_table := t\<rparr>))
           | (Some entry, t) \<Rightarrow>
               if ve_expiry_ns entry > 0 \<and> now \<ge> ve_expiry_ns entry
               then (case ht_remove f t k of (_, f, t) \<Rightarrow> (-1, out_buf, out_len, f, Some (h\<lparr>eh_table := t\<rparr>)))
               else if length (ve_value entry) > len
               then (-2, out_buf, Some (length (ve_value entry)), f, Some (h\<lparr>eh_table := t\<rparr>))
               else (0, Some (ve_value entry @ drop (length (ve_value entry)) buf),
                     Some (length (ve_value entry)), f, Some (h\<lparr>eh_table := t\<rparr>)))
      | _ \<Rightarrow> (-1, out_buf, out_len, f, handle))"

definition engine_delete :: "fs \<Rightarrow> engine_handle option \<Rightarrow> string option \<Rightarrow> int \<times> fs \<times> engine_handle option" where
  "engine_delete f handle key =
     (case (handle, key) of
        (Some h, Some k) \<Rightarrow>
          (case ht_remove f (eh_table h) k of
             (removed, f, t) \<Rightarrow> (if removed then 0 else -1, f, Some (h\<lparr>eh_table := t\<rparr>)))
      | _ \<Rightarrow> (-1, f, handle))"

definition engine_replay_wal :: "engine_handle option \<Rightarrow> string option \<Rightarrow> int" where
  "engine_replay_wal handle wal_dir = -1"

definition engine_snapshot :: "engine_handle option \<Rightarrow> string option \<Rightarrow> int" where
  "engine_snapshot handle snapshot_path = -1"

section \<open>What the operations do\<close>

definition handle_ok :: "engine_handle \<Rightarrow> bool" where
  "handle_ok h = ht_inv (eh_table h)"

definition handle_view :: "engine_handle \<Rightarrow> string \<Rightarrow> value_entry option" where
  "handle_view h = ht_view (eh_table h)"

text \<open>The answer to a get: the entry found and still alive at both checks.\<close>

definition alive :: "u64 \<Rightarrow> u64 \<Rightarrow> value_entry option \<Rightarrow> value_entry option" where
  "alive now_check now e = visible now (visible now_check e)"

lemma durable_fields [simp]: "ve_value (durable v) = ve_value v" "ve_expiry_ns (durable v) = ve_expiry_ns v"
  by (simp_all add: durable_def value_entry_new_def)

lemma engine_set_effect:
  assumes "handle_ok h" "length x \<le> 512 * 1024"
  obtains f' h' where "engine_set now f (Some h) (Some k) (Some x) ttl = Some (0, f', Some h')" "handle_ok h'"
    "handle_view h' k = Some (value_entry_new x (if 0 <s ttl then now + ttl else 0))"
    "\<forall>k'. k' \<noteq> k \<longrightarrow> handle_view h' k' = handle_view h k' \<or> handle_view h' k' = None"
proof -
  let ?v = "value_entry_new x (if 0 <s ttl then now + ttl else 0)"
  obtain f' t' where p: "ht_insert f (eh_table h) k ?v = Some (True, f', t')" "ht_inv t'"
      "ht_view t' k = Some (durable ?v)"
      "\<forall>k'. k' \<noteq> k \<longrightarrow> ht_view t' k' = ht_view (eh_table h) k' \<or> ht_view t' k' = None"
    using ht_put_law [of "eh_table h" f k ?v] assms(1) by (auto simp: handle_ok_def)
  have "durable ?v = ?v" by (simp add: durable_def value_entry_new_def)
  with p show thesis
    by (intro that [of f' "h\<lparr>eh_table := t'\<rparr>"])
      (use assms(2) in \<open>simp_all add: engine_set_def handle_ok_def handle_view_def\<close>)
qed

text \<open>The outcome of a get as a function of what the handle stores.\<close>

definition get_outcome :: "value_entry option \<Rightarrow> string \<Rightarrow> nat \<Rightarrow> int \<times> string option \<times> nat option" where
  "get_outcome e buf len =
     (case e of
        None \<Rightarrow> (-1, Some buf, Some len)
      | Some v \<Rightarrow>
          if length (ve_value v) > len then (-2, Some buf, Some (length (ve_value v)))
          else (0, Some (ve_value v @ drop (length (ve_value v)) buf), Some (length (ve_value v))))"

lemma engine_get_effect:
  assumes "handle_ok h"
  obtains f' h' code buf' len' where
    "engine_get nc na now f (Some h) (Some k) (Some buf) (Some len) = (code, buf', len', f', Some h')"
    "(code, buf', len') = get_outcome (alive nc now (handle_view h k)) buf len"
    "handle_ok h'" "alive nc now (handle_view h k) \<noteq> None \<Longrightarrow> handle_view h' = handle_view h"
    "\<forall>k'. k' \<noteq> k \<longrightarrow> handle_view h' k' = handle_view h k'"
proof -
  obtain r t where g: "ht_get nc na (eh_table h) k = (r, t)" by force
  note l = ht_get_law [OF assms [unfolded handle_ok_def] g]
  show thesis
  proof (cases r)
    case None
    with l have "alive nc now (handle_view h k) = None" by (simp add: alive_def visible_def handle_view_def)
    with None g l show thesis
      by (intro that [of _ _ _ f "h\<lparr>eh_table := t\<rparr>"])
        (simp_all add: engine_get_def get_outcome_def handle_ok_def handle_view_def)
  next
    case (Some v)
    then have v: "visible nc (handle_view h k) = Some (durable v)" using l by (simp add: handle_view_def)
    show thesis
    proof (cases "is_expired now v")
      case True
      then have e: "ve_expiry_ns v > 0 \<and> now \<ge> ve_expiry_ns v" "alive nc now (handle_view h k) = None"
        using v by (auto simp: is_expired_def alive_def visible_def word_gt_0 split: if_splits)
      obtain f' t' where d: "ht_remove f t k = (ht_view t k \<noteq> None, f', t')" "ht_inv t'"
          "ht_view t' = (ht_view t)(k := None)"
        using ht_del_law [of t f k] l by blast
      show thesis
        by (rule that [of _ _ _ f' "h\<lparr>eh_table := t'\<rparr>"])
          (use Some g e d l in \<open>simp_all add: engine_get_def get_outcome_def handle_ok_def handle_view_def\<close>)
    next
      case False
      then have e: "\<not> (ve_expiry_ns v > 0 \<and> now \<ge> ve_expiry_ns v)"
          "alive nc now (handle_view h k) = Some (durable v)"
        using v by (auto simp: is_expired_def alive_def visible_def word_gt_0 split: if_splits)
      obtain c b n where o: "get_outcome (Some v) buf len = (c, b, n)" by (metis prod.collapse)
      have "engine_get nc na now f (Some h) (Some k) (Some buf) (Some len) =
          (c, b, n, f, Some (h\<lparr>eh_table := t\<rparr>))"
        using g Some e(1) o unfolding engine_get_def get_outcome_def by (auto split: if_splits)
      moreover have "(c, b, n) = get_outcome (alive nc now (handle_view h k)) buf len"
        unfolding e(2) o [symmetric] by (simp add: get_outcome_def)
      ultimately show thesis
        using l by (intro that) (assumption, assumption, simp_all add: handle_ok_def handle_view_def)
    qed
  qed
qed

lemma alive_value:
  "alive nc now (Some v) = (if is_expired nc v \<or> is_expired now v then None else Some v)"
  by (simp add: alive_def visible_def)

text \<open>A clock reading below 2^63 nanoseconds plus a positive TTL does not wrap.\<close>

lemma expiry_no_wrap:
  fixes now ttl :: u64
  assumes "unat now < 2 ^ 63" "0 <s ttl"
  shows "unat (now + ttl) = unat now + unat ttl" "now + ttl \<noteq> 0"
proof -
  have "0 < sint ttl" using assms(2) by (simp add: word_sless_alt)
  moreover have "sint ttl < 2 ^ 63" using sint_lt [of ttl] by simp
  ultimately have u: "0 < uint ttl" "uint ttl < 2 ^ 63" by (simp_all add: uint_sint take_bit_eq_mod)
  then have "int (unat ttl) < int (2 ^ 63)" "0 < int (unat ttl)" by simp_all
  then have t: "unat ttl < 2 ^ 63" "0 < unat ttl" by (simp_all only: of_nat_less_iff of_nat_0_less_iff)
  then have "unat now + unat ttl < 2 ^ 64" using assms(1) by simp
  then show e: "unat (now + ttl) = unat now + unat ttl" by (simp add: unat_word_ariths(1))
  then show "now + ttl \<noteq> 0" using t(2) by (metis add_is_0 less_irrefl unsigned_0)
qed

lemma is_expired_set:
  fixes now ttl n :: u64
  assumes "unat now < 2 ^ 63"
  shows "is_expired n (value_entry_new x (if 0 <s ttl then now + ttl else 0)) \<longleftrightarrow>
    0 <s ttl \<and> unat now + unat ttl \<le> unat n"
  using expiry_no_wrap [OF assms, of ttl]
  by (auto simp: is_expired_def value_entry_new_def word_le_nat_alt)

section \<open>Properties\<close>

text \<open>C23. Set and get through the C interface: a set of a value of at most 512 KB, made at a clock
  reading below 2^63 ns, returns 0. After it a get of that key with a large enough buffer returns 0,
  with the value in the front of the buffer and its length in the length cell, until one of the two
  clock readings it checks reaches the set's reading plus the time to live; from then on it returns
  -1 and leaves buffer and length alone. A time to live of zero or less never runs out.\<close>

theorem engine_set_then_get:
  assumes "handle_ok h" "length x \<le> 512 * 1024" "length x \<le> len" "unat now < 2 ^ 63"
  shows "\<exists>f1 h1. engine_set now f (Some h) (Some k) (Some x) ttl = Some (0, f1, Some h1) \<and> handle_ok h1 \<and>
     (\<forall>nc na n g. \<exists>f2 h2. engine_get nc na n g (Some h1) (Some k) (Some buf) (Some len) =
        (if 0 <s ttl \<and> (unat now + unat ttl \<le> unat nc \<or> unat now + unat ttl \<le> unat n)
         then (-1, Some buf, Some len, f2, Some h2)
         else (0, Some (x @ drop (length x) buf), Some (length x), f2, Some h2)))"
proof -
  let ?v = "value_entry_new x (if 0 <s ttl then now + ttl else 0)"
  obtain f1 h1 where s: "engine_set now f (Some h) (Some k) (Some x) ttl = Some (0, f1, Some h1)"
      "handle_ok h1" "handle_view h1 k = Some ?v"
    by (rule engine_set_effect [OF assms(1,2), of now f k ttl])
  have "\<exists>f2 h2. engine_get nc na n g (Some h1) (Some k) (Some buf) (Some len) =
      (if 0 <s ttl \<and> (unat now + unat ttl \<le> unat nc \<or> unat now + unat ttl \<le> unat n)
       then (-1, Some buf, Some len, f2, Some h2)
       else (0, Some (x @ drop (length x) buf), Some (length x), f2, Some h2))" for nc na n g
  proof -
    obtain f2 h2 code b l where "engine_get nc na n g (Some h1) (Some k) (Some buf) (Some len) =
        (code, b, l, f2, Some h2)" "(code, b, l) = get_outcome (alive nc n (handle_view h1 k)) buf len"
      by (rule engine_get_effect [OF s(2)])
    moreover have "alive nc n (handle_view h1 k) =
        (if 0 <s ttl \<and> (unat now + unat ttl \<le> unat nc \<or> unat now + unat ttl \<le> unat n) then None else Some ?v)"
      unfolding s(3) alive_value is_expired_set [OF assms(4)] by auto
    ultimately show ?thesis
      using assms(3)
      by (cases "0 <s ttl \<and> (unat now + unat ttl \<le> unat nc \<or> unat now + unat ttl \<le> unat n)")
        (simp_all add: get_outcome_def value_entry_new_def)
  qed
  with s(1,2) show ?thesis by blast
qed

text \<open>The protocol for a buffer that is too small: the get returns -2, stores the length that is
  needed in the length cell and leaves the buffer alone; a second get with a buffer of that length
  returns the value.\<close>

theorem engine_get_retry:
  assumes "handle_ok h" "handle_view h k = Some v" "len < length (ve_value v)"
    and "\<not> is_expired nc v" "\<not> is_expired n v" "\<not> is_expired nc' v" "\<not> is_expired n' v"
  shows "\<exists>f1 h1 f2 h2.
     engine_get nc na n f (Some h) (Some k) (Some buf) (Some len) =
       (-2, Some buf, Some (length (ve_value v)), f1, Some h1) \<and>
     engine_get nc' na' n' f1 (Some h1) (Some k) (Some buf') (Some (length (ve_value v))) =
       (0, Some (ve_value v @ drop (length (ve_value v)) buf'), Some (length (ve_value v)), f2, Some h2)"
proof -
  have a: "alive nc n (handle_view h k) = Some v" using assms by (simp add: alive_value)
  obtain f1 h1 c b l where g: "engine_get nc na n f (Some h) (Some k) (Some buf) (Some len) =
      (c, b, l, f1, Some h1)" "(c, b, l) = get_outcome (alive nc n (handle_view h k)) buf len"
      "handle_ok h1" "handle_view h1 = handle_view h"
    by (rule engine_get_effect [OF assms(1), of nc na n f k buf len]) (use a in simp)
  have a': "alive nc' n' (handle_view h1 k) = Some v" using assms g(4) by (simp add: alive_value)
  obtain f2 h2 c' b' l' where
    "engine_get nc' na' n' f1 (Some h1) (Some k) (Some buf') (Some (length (ve_value v))) = (c', b', l', f2, Some h2)"
    "(c', b', l') = get_outcome (alive nc' n' (handle_view h1 k)) buf' (length (ve_value v))"
    by (rule engine_get_effect [OF g(3)])
  with g(1,2) a a' assms(3) show ?thesis by (simp add: get_outcome_def)
qed

text \<open>The parameters of engine_create do not reach the store: whatever number of threads and
  memory limit the caller asks for, the handle holds one empty table with the default limit of
  100 MB.\<close>

theorem engine_create_ignores_limit:
  assumes "0 < num_threads" "0 < mem_limit_bytes"
  shows "\<exists>h. engine_create f num_threads mem_limit_bytes = Some h \<and> handle_ok h \<and>
     handle_view h = (\<lambda>_. None) \<and> ht_limit (eh_table h) = 104857600"
proof -
  let ?t = "snd (snd (ht_new f 16 (100 * 1024 * 1024) LRU []))"
  obtain e f' where n: "ht_new f 16 (100 * 1024 * 1024) LRU [] = (e, f', ?t)" by (metis prod.collapse)
  from ht_new_inv(3) [OF n] ht_new_store(1,2) [OF refl, of f 16 "100 * 1024 * 1024" LRU] assms
  show ?thesis by (simp add: engine_create_def handle_ok_def handle_view_def)
qed

definition demo_handle :: engine_handle where
  "demo_handle = \<lparr>eh_num_threads = 1, eh_mem_limit_bytes = 1, eh_table = sample_table\<rparr>"

lemma demo_handle_ok: "handle_ok demo_handle"
  and demo_handle_view: "handle_view demo_handle ''b'' = Some (value_entry_new ''two'' 9)"
  using sample_table_inv
  by (simp_all add: demo_handle_def handle_ok_def handle_view_def ht_view_def sample_table_map
      durable_map_def durable_def value_entry_new_def)

theorem engine_set_then_get_witness:
  "\<exists>f1 h1. engine_set 5 wal_demo_fs (Some demo_handle) (Some ''k'') (Some ''v'') 10 = Some (0, f1, Some h1) \<and>
     (\<exists>f2 h2. engine_get 14 14 14 f1 (Some h1) (Some ''k'') (Some ''....'') (Some 4) =
        (0, Some ''v...'', Some 1, f2, Some h2)) \<and>
     (\<exists>f2 h2. engine_get 14 14 15 f1 (Some h1) (Some ''k'') (Some ''....'') (Some 4) =
        (-1, Some ''....'', Some 4, f2, Some h2))"
proof -
  obtain f1 h1 where s: "engine_set 5 wal_demo_fs (Some demo_handle) (Some ''k'') (Some ''v'') 10 = Some (0, f1, Some h1)"
    and g: "\<forall>nc na n g. \<exists>f2 h2. engine_get nc na n g (Some h1) (Some ''k'') (Some ''....'') (Some 4) =
        (if 0 <s (10::u64) \<and> (unat (5::u64) + unat (10::u64) \<le> unat nc \<or> unat (5::u64) + unat (10::u64) \<le> unat n)
         then (-1, Some ''....'', Some 4, f2, Some h2)
         else (0, Some (''v'' @ drop (length ''v'') ''....''), Some (length ''v''), f2, Some h2))"
    using engine_set_then_get [OF demo_handle_ok, of "''v''" 4 5 wal_demo_fs "''k''" 10 "''....''"] by auto
  have p: "0 <s (10::u64)" by (simp add: word_sless_alt)
  have "\<exists>f2 h2. engine_get 14 14 14 f1 (Some h1) (Some ''k'') (Some ''....'') (Some 4) =
        (0, Some ''v...'', Some 1, f2, Some h2)"
    using g [rule_format, of 14 14 14 f1] by simp
  moreover have "\<exists>f2 h2. engine_get 14 14 15 f1 (Some h1) (Some ''k'') (Some ''....'') (Some 4) =
        (-1, Some ''....'', Some 4, f2, Some h2)"
    using g [rule_format, of 14 14 15 f1] p by simp
  ultimately show ?thesis using s by (elim exE) (intro exI conjI)
qed

theorem engine_get_retry_witness:
  "\<exists>f1 h1 f2 h2.
     engine_get 1 1 2 wal_demo_fs (Some demo_handle) (Some ''b'') (Some ''-'') (Some 1) =
       (-2, Some ''-'', Some 3, f1, Some h1) \<and>
     engine_get 3 3 8 f1 (Some h1) (Some ''b'') (Some ''---'') (Some 3) =
       (0, Some ''two'', Some 3, f2, Some h2)"
proof -
  let ?v = "value_entry_new ''two'' 9"
  have v: "ve_value ?v = ''two''" "length ''two'' = 3" by (simp_all add: value_entry_new_def)
  have x: "\<not> is_expired 1 ?v" "\<not> is_expired 2 ?v" "\<not> is_expired 3 ?v" "\<not> is_expired 8 ?v"
    by (simp_all add: is_expired_def value_entry_new_def word_le_nat_alt)
  have "''two'' @ drop 3 ''---'' = ''two''" by simp
  with engine_get_retry [OF demo_handle_ok demo_handle_view _ x, of 1 1 wal_demo_fs "''-''" 3 "''---''"] v
  show ?thesis by (simp add: numeral_3_eq_3)
qed

theorem engine_create_ignores_limit_witness:
  "\<exists>h. engine_create wal_demo_fs 4 1024 = Some h \<and> ht_limit (eh_table h) = 104857600"
  using engine_create_ignores_limit [of 4 1024 wal_demo_fs] by auto

section \<open>Sessions\<close>

text \<open>A call with its arguments and clock readings, and what it gives back: the result code and, for a
  get, the buffer and the length cell.\<close>

datatype engine_call =
    Call_set u64 "string option" "string option" u64
  | Call_get u64 u64 u64 "string option" "string option" "nat option"
  | Call_delete "string option"

type_synonym engine_out = "int \<times> string option \<times> nat option"

definition do_call :: "fs \<Rightarrow> engine_handle option \<Rightarrow> engine_call \<Rightarrow> (engine_out \<times> fs \<times> engine_handle option) option" where
  "do_call f h c =
     (case c of
        Call_set now key val ttl \<Rightarrow> map_option (\<lambda>(r, f, h). ((r, None, None), f, h)) (engine_set now f h key val ttl)
      | Call_get nc na now key buf len \<Rightarrow>
          (case engine_get nc na now f h key buf len of (r, b, l, f, h) \<Rightarrow> Some ((r, b, l), f, h))
      | Call_delete key \<Rightarrow> (case engine_delete f h key of (r, f, h) \<Rightarrow> Some ((r, None, None), f, h)))"

fun do_calls :: "fs \<Rightarrow> engine_handle option \<Rightarrow> engine_call list \<Rightarrow> (engine_out list \<times> fs \<times> engine_handle option) option" where
  "do_calls f h [] = Some ([], f, h)"
| "do_calls f h (c # cs) =
     Option.bind (do_call f h c) (\<lambda>(o1, f, h). map_option (\<lambda>(os, f, h). (o1 # os, f, h)) (do_calls f h cs))"

text \<open>The specification: the same calls on a plain map of values with expiry times.\<close>

fun spec_call :: "(string \<Rightarrow> value_entry option) \<Rightarrow> engine_call \<Rightarrow> engine_out \<times> (string \<Rightarrow> value_entry option)" where
  "spec_call m (Call_set now (Some k) (Some x) ttl) =
     (if length x > 512 * 1024 then ((-2, None, None), m)
      else ((0, None, None), m(k \<mapsto> value_entry_new x (if 0 <s ttl then now + ttl else 0))))"
| "spec_call m (Call_get nc na now (Some k) (Some buf) (Some len)) =
     (get_outcome (alive nc now (m k)) buf len,
      if visible nc (m k) \<noteq> None \<and> alive nc now (m k) = None then m(k := None) else m)"
| "spec_call m (Call_get nc na now key buf len) = ((-1, buf, len), m)"
| "spec_call m (Call_delete (Some k)) = ((if m k = None then -1 else 0, None, None), m(k := None))"
| "spec_call m c = ((-1, None, None), m)"

fun spec_calls :: "(string \<Rightarrow> value_entry option) \<Rightarrow> engine_call list \<Rightarrow> engine_out list \<times> (string \<Rightarrow> value_entry option)" where
  "spec_calls m [] = ([], m)"
| "spec_calls m (c # cs) =
     (case spec_call m c of (o1, m) \<Rightarrow> case spec_calls m cs of (os, m) \<Rightarrow> (o1 # os, m))"

fun call_bytes :: "engine_call \<Rightarrow> nat" where
  "call_bytes (Call_set now key (Some x) ttl) = length x"
| "call_bytes c = 0"

definition handle_fits :: "engine_handle \<Rightarrow> nat \<Rightarrow> bool" where
  "handle_fits h = ht_fits (eh_table h)"

lemma engine_set_fits:
  assumes "handle_ok h" "handle_fits h (length x + b)" "length x \<le> 512 * 1024"
  shows "\<exists>f' h'. engine_set now f (Some h) (Some k) (Some x) ttl = Some (0, f', Some h') \<and> handle_ok h' \<and>
    handle_view h' = (handle_view h)(k \<mapsto> value_entry_new x (if 0 <s ttl then now + ttl else 0)) \<and> handle_fits h' b"
proof -
  let ?v = "value_entry_new x (if 0 <s ttl then now + ttl else 0)"
  obtain f' t' where p: "ht_insert f (eh_table h) k ?v = Some (True, f', t')" "ht_inv t'"
    using ht_put_law [of "eh_table h" f k ?v] assms(1) by (auto simp: handle_ok_def)
  have v: "durable ?v = ?v" "ve_value ?v = x" by (simp_all add: durable_def value_entry_new_def)
  have "ht_view t' = (ht_view (eh_table h))(k \<mapsto> ?v) \<and> ht_fits t' b"
    using ht_fits_put [OF _ p(1), of b] assms(1,2) unfolding v handle_ok_def handle_fits_def by blast
  with p assms(3) show ?thesis
    by (intro exI [of _ f'] exI [of _ "h\<lparr>eh_table := t'\<rparr>"])
      (simp add: engine_set_def handle_ok_def handle_view_def handle_fits_def)
qed

lemma engine_get_fits:
  assumes "handle_ok h" "handle_fits h b"
  shows "\<exists>f' h' code buf' len'.
    engine_get nc na now f (Some h) (Some k) (Some buf) (Some len) = (code, buf', len', f', Some h') \<and>
    ((code, buf', len'), handle_view h') = spec_call (handle_view h) (Call_get nc na now (Some k) (Some buf) (Some len)) \<and>
    handle_ok h' \<and> handle_fits h' b"
proof -
  obtain r t where g: "ht_get nc na (eh_table h) k = (r, t)" by force
  note l = ht_get_law [OF assms(1) [unfolded handle_ok_def] g]
  have fits: "ht_fits t b"
    using ht_fits_get [OF assms(1) [unfolded handle_ok_def] g] assms(2) by (simp add: handle_fits_def)
  obtain f' h' code buf' len' where e:
      "engine_get nc na now f (Some h) (Some k) (Some buf) (Some len) = (code, buf', len', f', Some h')"
      "(code, buf', len') = get_outcome (alive nc now (handle_view h k)) buf len" "handle_ok h'"
    by (rule engine_get_effect [OF assms(1), of nc na now f k buf len])
  have "handle_fits h' b \<and> handle_view h' =
      (if visible nc (handle_view h k) \<noteq> None \<and> alive nc now (handle_view h k) = None
       then (handle_view h)(k := None) else handle_view h)"
  proof (cases r)
    case None
    with g e(1) have "h' = h\<lparr>eh_table := t\<rparr>" by (simp add: engine_get_def)
    with None l fits show ?thesis by (simp add: handle_view_def handle_fits_def)
  next
    case (Some v)
    then have v: "visible nc (handle_view h k) = Some (durable v)" using l by (simp add: handle_view_def)
    then have a: "alive nc now (handle_view h k) = None \<longleftrightarrow> ve_expiry_ns v > 0 \<and> now \<ge> ve_expiry_ns v"
      unfolding alive_def v by (auto simp: visible_def is_expired_def word_gt_0)
    show ?thesis
    proof (cases "ve_expiry_ns v > 0 \<and> now \<ge> ve_expiry_ns v")
      case True
      obtain b' f1 t1 where d: "ht_remove f t k = (b', f1, t1)" by (metis prod.collapse)
      then have "h' = h\<lparr>eh_table := t1\<rparr>" using g e(1) Some True by (simp add: engine_get_def)
      moreover have "ht_view t1 = (ht_view t)(k := None)" using ht_del_law [of t f k] l d by auto
      moreover have "ht_fits t1 b" using ht_fits_del [OF _ d fits] l by blast
      ultimately show ?thesis using True a v l by (simp add: handle_view_def handle_fits_def)
    next
      case False
      then have "h' = h\<lparr>eh_table := t\<rparr>" using g e(1) Some by (auto simp: engine_get_def split: if_splits)
      moreover from False a have "alive nc now (handle_view h k) \<noteq> None" by blast
      ultimately show ?thesis using l fits by (auto simp: handle_view_def handle_fits_def)
    qed
  qed
  with e show ?thesis by simp
qed

lemma engine_delete_fits:
  assumes "handle_ok h" "handle_fits h b"
  shows "\<exists>f' h'. engine_delete f (Some h) (Some k) = (if handle_view h k = None then -1 else 0, f', Some h') \<and>
    handle_ok h' \<and> handle_view h' = (handle_view h)(k := None) \<and> handle_fits h' b"
proof -
  obtain f' t' where d: "ht_remove f (eh_table h) k = (ht_view (eh_table h) k \<noteq> None, f', t')" "ht_inv t'"
      "ht_view t' = (ht_view (eh_table h))(k := None)"
    using ht_del_law [of "eh_table h" f k] assms(1) by (auto simp: handle_ok_def)
  moreover have "ht_fits t' b"
    using ht_fits_del [OF _ d(1)] assms by (simp add: handle_ok_def handle_fits_def)
  ultimately show ?thesis
    by (intro exI [of _ f'] exI [of _ "h\<lparr>eh_table := t'\<rparr>"])
      (simp add: engine_delete_def handle_ok_def handle_view_def handle_fits_def)
qed

lemma handle_fits_mono: "handle_fits h (a + b) \<Longrightarrow> handle_fits h b"
  unfolding handle_fits_def by (erule table.fits_mono) simp

lemma engine_null:
  "key = None \<or> val = None \<Longrightarrow> engine_set now f h key val ttl = Some (-1, f, h)"
  "key = None \<or> buf = None \<or> len = None \<Longrightarrow> engine_get nc na now f h key buf len = (-1, buf, len, f, h)"
  "engine_delete f h None = (-1, f, h)"
  by (auto simp: engine_set_def engine_get_def engine_delete_def split: option.split)

lemma do_call_refines:
  assumes "handle_ok h" "handle_fits h (call_bytes c + b)"
  shows "\<exists>out f' h'. do_call f (Some h) c = Some (out, f', Some h') \<and>
    (out, handle_view h') = spec_call (handle_view h) c \<and> handle_ok h' \<and> handle_fits h' b"
proof (cases c)
  case (Call_set now key val ttl)
  show ?thesis
  proof (cases "\<exists>k x. key = Some k \<and> val = Some x")
    case True
    then obtain k x where kx: "key = Some k" "val = Some x" by blast
    show ?thesis
    proof (cases "length x > 512 * 1024")
      case big: True
      with Call_set kx assms handle_fits_mono show ?thesis by (simp add: do_call_def engine_set_def)
    next
      case False
      with engine_set_fits [OF assms(1), of x b now f k ttl] assms(2) Call_set kx show ?thesis
        by (auto simp: do_call_def)
    qed
  next
    case False
    then have "engine_set now f (Some h) key val ttl = Some (-1, f, Some h)" by (intro engine_null) (cases key; cases val; auto)
    moreover have "spec_call (handle_view h) c = ((-1, None, None), handle_view h)"
      using False Call_set by (cases key; cases val) auto
    ultimately show ?thesis using Call_set assms handle_fits_mono by (simp add: do_call_def)
  qed
next
  case (Call_get nc na now key buf len)
  show ?thesis
  proof (cases "\<exists>k bf l. key = Some k \<and> buf = Some bf \<and> len = Some l")
    case True
    then obtain k bf l where kbl: "key = Some k" "buf = Some bf" "len = Some l" by blast
    have "handle_fits h b" using handle_fits_mono [OF assms(2)] .
    from engine_get_fits [OF assms(1) this, of nc na now f k bf l] Call_get kbl show ?thesis
      by (elim exE conjE) (simp add: do_call_def del: spec_call.simps)
  next
    case False
    then have "engine_get nc na now f (Some h) key buf len = (-1, buf, len, f, Some h)"
      by (intro engine_null) (cases key; cases buf; cases len; auto)
    moreover have "spec_call (handle_view h) c = ((-1, buf, len), handle_view h)"
      using False Call_get by (cases key; cases buf; cases len) auto
    ultimately show ?thesis using Call_get assms handle_fits_mono by (simp add: do_call_def)
  qed
next
  case (Call_delete key)
  show ?thesis
  proof (cases key)
    case None
    with Call_delete assms handle_fits_mono show ?thesis by (simp add: do_call_def engine_null)
  next
    case (Some k)
    have "handle_fits h b" using handle_fits_mono [OF assms(2)] .
    from engine_delete_fits [OF assms(1) this, of f k] Call_delete Some show ?thesis
      by (auto simp: do_call_def)
  qed
qed

lemma do_calls_refine:
  assumes "handle_ok h" "handle_fits h (sum_list (map call_bytes cs))"
  shows "\<exists>f' h'. do_calls f (Some h) cs = Some (fst (spec_calls (handle_view h) cs), f', Some h') \<and> handle_ok h' \<and>
    handle_view h' = snd (spec_calls (handle_view h) cs)"
  using assms
proof (induction cs arbitrary: f h)
  case (Cons c cs)
  obtain out f1 h1 where h: "do_call f (Some h) c = Some (out, f1, Some h1)"
      "(out, handle_view h1) = spec_call (handle_view h) c" "handle_ok h1"
      "handle_fits h1 (sum_list (map call_bytes cs))"
    using do_call_refines [OF Cons.prems(1), of c "sum_list (map call_bytes cs)" f] Cons.prems(2) by auto
  from Cons.IH [OF h(3,4), of f1] h(1) show ?case
    by (auto simp: h(2) [symmetric] split: prod.split)
qed simp

text \<open>C22. The C interface refines a map: a session of any calls of set, get and delete, null pointers,
  oversized values and short buffers included, on a handle from \<open>engine_create\<close>, whose values take at
  most 100 MB together, terminates, and every result code, buffer and length is the one the same calls
  give on a plain map of values with expiry times.\<close>

theorem engine_session_refines_map:
  assumes "0 < num_threads" "0 < mem_limit_bytes" "sum_list (map call_bytes cs) \<le> 100 * 1024 * 1024"
  shows "\<exists>f' h'. do_calls f (engine_create f num_threads mem_limit_bytes) cs =
      Some (fst (spec_calls (\<lambda>_. None) cs), f', Some h') \<and>
    handle_ok h' \<and> handle_view h' = snd (spec_calls (\<lambda>_. None) cs)"
proof -
  let ?t = "snd (snd (ht_new f 16 (100 * 1024 * 1024) LRU []))"
  let ?h = "\<lparr>eh_num_threads = num_threads, eh_mem_limit_bytes = mem_limit_bytes, eh_table = ?t\<rparr>"
  note n = ht_new_store [OF refl, of f 16 "100 * 1024 * 1024" LRU]
  have h: "engine_create f num_threads mem_limit_bytes = Some ?h" using assms(1,2) by (simp add: engine_create_def)
  have "handle_ok ?h" "handle_view ?h = (\<lambda>_. None)" "handle_fits ?h (sum_list (map call_bytes cs))"
    using n assms(3) by (simp_all add: handle_ok_def handle_view_def handle_fits_def)
  with do_calls_refine [of ?h cs f] show ?thesis unfolding h by metis
qed

theorem engine_session_refines_map_witness:
  "\<exists>f' h'. do_calls wal_demo_fs (engine_create wal_demo_fs 2 1)
      [Call_set 5 (Some ''k'') (Some ''v'') 10, Call_get 6 6 7 (Some ''k'') (Some ''..'') (Some 2),
       Call_get 6 6 15 (Some ''k'') (Some ''..'') (Some 2), Call_delete (Some ''k''), Call_delete None] =
    Some ([(0, None, None), (0, Some ''v.'', Some 1), (-1, Some ''..'', Some 2), (-1, None, None), (-1, None, None)], f', Some h')"
proof -
  let ?cs = "[Call_set 5 (Some ''k'') (Some ''v'') 10, Call_get 6 6 7 (Some ''k'') (Some ''..'') (Some 2),
       Call_get 6 6 15 (Some ''k'') (Some ''..'') (Some 2), Call_delete (Some ''k''), Call_delete None]"
  have "0 <s (10::u64)" by (simp add: word_sless_alt)
  then have "fst (spec_calls (\<lambda>_. None) ?cs) =
      [(0, None, None), (0, Some ''v.'', Some 1), (-1, Some ''..'', Some 2), (-1, None, None), (-1, None, None)]"
    by (simp add: alive_value get_outcome_def is_expired_def value_entry_new_def visible_def)
  with engine_session_refines_map [of 2 1 ?cs wal_demo_fs] show ?thesis by (elim meta_impE) auto
qed

end
