(* ===== verification/Sharded_Engine.thy ===== *)
theory Sharded_Engine
  imports KV_Store
begin

text \<open>
  \<open>ShardedEngine\<close> (\<open>engine/include/sharded_engine.h\<close>, \<open>engine/src/sharded_engine.cpp\<close>): one worker
  thread per shard, a request queue per worker, promises for the answers. Threads interleave, so
  the engine is a labelled step relation. A step is what a thread does between two points at which
  the others can observe it: a client pushes a request under the queue lock, later calls
  \<open>notify_one\<close>, and waits for its future; a worker tests \<open>running_\<close>, evaluates the wait predicate
  under the lock and takes a request, or blocks; the thread that calls \<open>stop\<close> clears \<open>running_\<close>,
  notifies one condition variable after the other and joins. \<open>W_Waiting\<close> is the worker between a
  predicate that was false and the block inside \<open>wait\<close>: it still holds the queue lock.
  \<open>start\<close> and \<open>stop\<close> are called by one thread. What clients have been promised and answered is kept
  in \<open>se_futures\<close> and \<open>se_replies\<close>.
\<close>

section \<open>State\<close>

datatype request_type = R_GET | R_SET | R_REMOVE

record request =
  rq_type :: request_type
  rq_key :: string
  rq_value :: "value_entry option"
  rq_promise :: nat

datatype worker = W_Loop | W_Lock | W_Waiting | W_Blocked | W_Serving request | W_Exited

record sharded_engine =
  se_num_shards :: nat
  se_shards :: "hash_table list"
  se_workers :: "worker list"
  se_queues :: "request list list"
  se_running :: bool
  se_notify :: "nat list"
  se_stopping :: "nat option"
  se_futures :: "request list"
  se_replies :: "(request \<times> value_entry option) list"

definition se_new :: "nat \<Rightarrow> nat \<Rightarrow> eviction_policy_kind \<Rightarrow> fs \<Rightarrow> sharded_engine" where
  "se_new num_shards memory_limit_per_shard policy f =
     \<lparr>se_num_shards = num_shards,
      se_shards = replicate num_shards (snd (snd (ht_new f 16 memory_limit_per_shard policy []))),
      se_workers = [], se_queues = replicate num_shards [], se_running = False, se_notify = [],
      se_stopping = None, se_futures = [], se_replies = []\<rparr>"

section \<open>Clients\<close>

definition se_shard_id :: "nat \<Rightarrow> string \<Rightarrow> nat" where
  "se_shard_id n key = unat (ht_hash_mix (foldl ht_hash_step 0x9e3779b97f4a7c15 key)) mod n"

text \<open>Pushing a request; the promise is numbered by its position among all futures handed out.\<close>

definition se_submit :: "request_type \<Rightarrow> string \<Rightarrow> value_entry option \<Rightarrow> sharded_engine \<Rightarrow> sharded_engine" where
  "se_submit ty key val e =
     (let shard_id = se_shard_id (se_num_shards e) key;
          req = \<lparr>rq_type = ty, rq_key = key, rq_value = val, rq_promise = length (se_futures e)\<rparr>
      in e\<lparr>se_queues := (se_queues e)[shard_id := se_queues e ! shard_id @ [req]],
           se_notify := se_notify e @ [shard_id],
           se_futures := se_futures e @ [req]\<rparr>)"

definition se_get :: "string \<Rightarrow> sharded_engine \<Rightarrow> sharded_engine" where
  "se_get key = se_submit R_GET key None"

definition se_set :: "string \<Rightarrow> value_entry \<Rightarrow> sharded_engine \<Rightarrow> sharded_engine" where
  "se_set key v = se_submit R_SET key (Some v)"

definition se_remove :: "string \<Rightarrow> sharded_engine \<Rightarrow> sharded_engine" where
  "se_remove key = se_submit R_REMOVE key None"

text \<open>What the three calls return once their future is ready.\<close>

definition se_return :: "request \<Rightarrow> value_entry option \<Rightarrow> store_out" where
  "se_return req reply = (case rq_type req of R_GET \<Rightarrow> OValue reply | _ \<Rightarrow> OBool True)"

definition wake :: "nat \<Rightarrow> worker list \<Rightarrow> worker list" where
  "wake i ws = (if i < length ws \<and> ws ! i = W_Blocked then ws[i := W_Lock] else ws)"

definition se_notify_one :: "nat \<Rightarrow> sharded_engine \<Rightarrow> sharded_engine" where
  "se_notify_one i e = e\<lparr>se_notify := remove1 i (se_notify e), se_workers := wake i (se_workers e)\<rparr>"

section \<open>Workers\<close>

datatype engine_exn = Bad_optional_access

definition process_request :: "u64 \<Rightarrow> u64 \<Rightarrow> fs \<Rightarrow> hash_table \<Rightarrow> request \<Rightarrow>
    (engine_exn + value_entry option \<times> fs \<times> hash_table) option" where
  "process_request now now' f shard req =
     (case rq_type req of
        R_GET \<Rightarrow> (case ht_get now now' shard (rq_key req) of (r, shard) \<Rightarrow> Some (Inr (r, f, shard)))
      | R_SET \<Rightarrow>
          (case rq_value req of
             None \<Rightarrow> Some (Inl Bad_optional_access)
           | Some v \<Rightarrow> map_option (\<lambda>(_, f, shard). Inr (None, f, shard)) (ht_insert f shard (rq_key req) v))
      | R_REMOVE \<Rightarrow> (case ht_remove f shard (rq_key req) of (_, f, shard) \<Rightarrow> Some (Inr (None, f, shard))))"

text \<open>The steps of the worker loop up to the point where it has a request or blocks.\<close>

definition worker_loop :: "nat \<Rightarrow> sharded_engine \<Rightarrow> sharded_engine" where
  "worker_loop i e =
     (case se_workers e ! i of
        W_Loop \<Rightarrow> e\<lparr>se_workers := (se_workers e)[i := if se_running e then W_Lock else W_Exited]\<rparr>
      | W_Lock \<Rightarrow>
          (case se_queues e ! i of
             [] \<Rightarrow> e\<lparr>se_workers := (se_workers e)[i := if se_running e then W_Waiting else W_Exited]\<rparr>
           | req # q \<Rightarrow> e\<lparr>se_queues := (se_queues e)[i := q], se_workers := (se_workers e)[i := W_Serving req]\<rparr>)
      | W_Waiting \<Rightarrow> e\<lparr>se_workers := (se_workers e)[i := W_Blocked]\<rparr>
      | _ \<Rightarrow> e)"

text \<open>Fulfilling the promise and going round the loop.\<close>

definition se_reply :: "nat \<Rightarrow> request \<Rightarrow> value_entry option \<Rightarrow> hash_table \<Rightarrow> sharded_engine \<Rightarrow> sharded_engine" where
  "se_reply i req r shard e =
     e\<lparr>se_shards := (se_shards e)[i := shard], se_replies := se_replies e @ [(req, r)],
       se_workers := (se_workers e)[i := W_Loop]\<rparr>"

section \<open>Starting and stopping\<close>

definition se_start :: "sharded_engine \<Rightarrow> sharded_engine" where
  "se_start e =
     (if se_running e then e
      else e\<lparr>se_running := True, se_workers := se_workers e @ replicate (se_num_shards e) W_Loop\<rparr>)"

definition se_stop :: "sharded_engine \<Rightarrow> sharded_engine" where
  "se_stop e = (if \<not> se_running e then e else e\<lparr>se_running := False, se_stopping := Some 0\<rparr>)"

definition se_stop_notify :: "nat \<Rightarrow> sharded_engine \<Rightarrow> sharded_engine" where
  "se_stop_notify i e = e\<lparr>se_workers := wake i (se_workers e), se_stopping := Some (Suc i)\<rparr>"

definition se_stop_join :: "sharded_engine \<Rightarrow> sharded_engine" where
  "se_stop_join e = e\<lparr>se_workers := [], se_stopping := None\<rparr>"

definition se_total_entries :: "sharded_engine \<Rightarrow> nat" where
  "se_total_entries e = total_entries ht_num_entries (se_shards e)"

section \<open>Steps\<close>

datatype se_label = L_Submit | L_Notify | L_Worker | L_Spurious | L_Start | L_Stop

inductive se_step :: "se_label \<Rightarrow> fs \<times> sharded_engine \<Rightarrow> fs \<times> sharded_engine \<Rightarrow> bool" where
  step_get: "\<not> (i < length (se_workers e) \<and> se_workers e ! i = W_Waiting) \<Longrightarrow>
     i = se_shard_id (se_num_shards e) key \<Longrightarrow> se_step L_Submit (f, e) (f, se_get key e)"
| step_set: "\<not> (i < length (se_workers e) \<and> se_workers e ! i = W_Waiting) \<Longrightarrow>
     i = se_shard_id (se_num_shards e) key \<Longrightarrow> se_step L_Submit (f, e) (f, se_set key v e)"
| step_remove: "\<not> (i < length (se_workers e) \<and> se_workers e ! i = W_Waiting) \<Longrightarrow>
     i = se_shard_id (se_num_shards e) key \<Longrightarrow> se_step L_Submit (f, e) (f, se_remove key e)"
| step_notify: "i \<in> set (se_notify e) \<Longrightarrow> se_step L_Notify (f, e) (f, se_notify_one i e)"
| step_worker: "i < length (se_workers e) \<Longrightarrow> se_workers e ! i \<in> {W_Loop, W_Lock, W_Waiting} \<Longrightarrow>
     se_step L_Worker (f, e) (f, worker_loop i e)"
| step_serve: "i < length (se_workers e) \<Longrightarrow> se_workers e ! i = W_Serving req \<Longrightarrow>
     process_request now now' f (se_shards e ! i) req = Some (Inr (r, f', shard)) \<Longrightarrow>
     se_step L_Worker (f, e) (f', se_reply i req r shard e)"
| step_spurious: "i < length (se_workers e) \<Longrightarrow> se_workers e ! i = W_Blocked \<Longrightarrow>
     se_step L_Spurious (f, e) (f, e\<lparr>se_workers := wake i (se_workers e)\<rparr>)"
| step_start: "se_stopping e = None \<Longrightarrow> se_step L_Start (f, e) (f, se_start e)"
| step_stop: "se_stopping e = None \<Longrightarrow> se_step L_Stop (f, e) (f, se_stop e)"
| step_stop_notify: "se_stopping e = Some i \<Longrightarrow> i < se_num_shards e \<Longrightarrow>
     se_step L_Stop (f, e) (f, se_stop_notify i e)"
| step_stop_join: "se_stopping e = Some (se_num_shards e) \<Longrightarrow> \<forall>w \<in> set (se_workers e). w = W_Exited \<Longrightarrow>
     se_step L_Stop (f, e) (f, se_stop_join e)"

inductive se_steps :: "se_label list \<Rightarrow> fs \<times> sharded_engine \<Rightarrow> fs \<times> sharded_engine \<Rightarrow> bool" where
  steps_refl: "se_steps [] s s"
| steps_snoc: "se_steps ls s s' \<Longrightarrow> se_step l s' s'' \<Longrightarrow> se_steps (ls @ [l]) s s''"

section \<open>Sequential executions of a shard\<close>

inductive executes :: "hash_table \<Rightarrow> (request \<times> value_entry option) list \<Rightarrow> hash_table \<Rightarrow> bool" where
  executes_Nil: "executes t [] t"
| executes_snoc: "executes t rs t1 \<Longrightarrow> process_request now now' f t1 req = Some (Inr (r, f', t2)) \<Longrightarrow>
     executes t (rs @ [(req, r)]) t2"

text \<open>The effect of a request on what is known of a key, and the last write of a key.\<close>

definition request_effect :: "string \<Rightarrow> value_entry option \<Rightarrow> request \<Rightarrow> value_entry option" where
  "request_effect k a req =
     (if k = rq_key req
      then (case rq_type req of R_GET \<Rightarrow> a | R_SET \<Rightarrow> map_option durable (rq_value req) | R_REMOVE \<Rightarrow> None)
      else a)"

definition latest :: "string \<Rightarrow> request list \<Rightarrow> value_entry option" where
  "latest k rqs = foldl (request_effect k) None rqs"

section \<open>What a shard does with its requests\<close>

lemma process_effect:
  assumes "ht_inv t" "process_request now now' f t req = Some (Inr (r, f', t'))"
  shows "ht_inv t'" "ht_view t' k = None \<or> ht_view t' k = request_effect k (ht_view t k) req"
    "rq_type req = R_GET \<Longrightarrow> map_option durable r = visible now (ht_view t (rq_key req))"
proof -
  have "ht_inv t' \<and> (\<forall>k. ht_view t' k = None \<or> ht_view t' k = request_effect k (ht_view t k) req) \<and>
    (rq_type req = R_GET \<longrightarrow> map_option durable r = visible now (ht_view t (rq_key req)))"
  proof (cases "rq_type req")
    case R_GET
    with assms ht_get_law [OF assms(1)] show ?thesis
      by (auto simp: process_request_def request_effect_def split: prod.splits)
  next
    case R_SET
    then obtain v where v: "rq_value req = Some v" using assms(2) by (auto simp: process_request_def split: option.splits)
    obtain f1 t1 where "ht_insert f t (rq_key req) v = Some (True, f1, t1)" "ht_inv t1"
        "ht_view t1 (rq_key req) = Some (durable v)"
        "\<forall>k'. k' \<noteq> rq_key req \<longrightarrow> ht_view t1 k' = ht_view t k' \<or> ht_view t1 k' = None"
      using ht_put_law [OF assms(1)] by blast
    with assms(2) v R_SET show ?thesis by (auto simp: process_request_def request_effect_def)
  next
    case R_REMOVE
    obtain f1 t1 where "ht_remove f t (rq_key req) = (ht_view t (rq_key req) \<noteq> None, f1, t1)" "ht_inv t1"
        "ht_view t1 = (ht_view t)(rq_key req := None)"
      using ht_del_law [OF assms(1)] by blast
    with assms(2) R_REMOVE show ?thesis by (auto simp: process_request_def request_effect_def)
  qed
  then show "ht_inv t'" "ht_view t' k = None \<or> ht_view t' k = request_effect k (ht_view t k) req"
    "rq_type req = R_GET \<Longrightarrow> map_option durable r = visible now (ht_view t (rq_key req))" by blast+
qed

lemma process_total:
  assumes "ht_inv t" "rq_type req = R_SET \<longrightarrow> rq_value req \<noteq> None"
  shows "\<exists>r f' t'. process_request now now' f t req = Some (Inr (r, f', t'))"
proof (cases "rq_type req")
  case R_SET
  with assms(2) obtain v where "rq_value req = Some v" by auto
  moreover obtain f1 t1 where "ht_insert f t (rq_key req) v = Some (True, f1, t1)"
    using ht_put_law [OF assms(1)] by blast
  ultimately show ?thesis using R_SET by (simp add: process_request_def)
qed (auto simp: process_request_def split: prod.split)

lemma latest_snoc [simp]: "latest k (rqs @ [req]) = request_effect k (latest k rqs) req"
  by (simp add: latest_def)

lemma executes_view:
  assumes "executes t rs t'" "ht_inv t" "ht_view t = (\<lambda>_. None)"
  shows "ht_inv t' \<and> (\<forall>k. ht_view t' k = None \<or> ht_view t' k = latest k (map fst rs))"
  using assms
proof (induction rule: executes.induct)
  case (executes_snoc t rs t1 now now' f req r f' t2)
  then have inv: "ht_inv t1" and v: "\<And>k. ht_view t1 k = None \<or> ht_view t1 k = latest k (map fst rs)" by blast+
  note p = process_effect [OF inv executes_snoc.hyps(2)]
  have "ht_view t2 k = None \<or> ht_view t2 k = latest k (map fst (rs @ [(req, r)]))" for k
    using p(2) [of k] v [of k] by (auto simp: request_effect_def split: request_type.splits if_splits)
  with p(1) show ?case by blast
qed simp

lemma visible_cases: "visible now e = None \<or> visible now e = e"
  by (simp add: visible_def split: option.split)

lemma executes_reply:
  assumes "executes t rs t'" "ht_inv t" "ht_view t = (\<lambda>_. None)"
    and "rs = xs @ (req, r) # ys" "rq_type req = R_GET"
  shows "r = None \<or> map_option durable r = latest (rq_key req) (map fst xs)"
  using assms
proof (induction arbitrary: ys rule: executes.induct)
  case (executes_snoc t rs t1 now now' f req' r' f' t2)
  show ?case
  proof (cases ys rule: rev_cases)
    case Nil
    with executes_snoc.prems(3) have e: "rs = xs" "req' = req" "r' = r" by auto
    from executes_view [OF executes_snoc.hyps(1) executes_snoc.prems(1,2)] e
    have "ht_inv t1" "ht_view t1 (rq_key req) = None \<or> ht_view t1 (rq_key req) = latest (rq_key req) (map fst xs)"
      by blast+
    moreover from this(1) have "map_option durable r = visible now (ht_view t1 (rq_key req))"
      using process_effect(3) executes_snoc.hyps(2) executes_snoc.prems(4) e by blast
    ultimately show ?thesis using visible_cases [of now] by (metis map_option_is_None)
  next
    case (snoc zs z)
    with executes_snoc.prems(3) have "rs = xs @ (req, r) # zs" by simp
    with executes_snoc.IH executes_snoc.prems show ?thesis by blast
  qed
qed simp

section \<open>Invariants of the engine\<close>

definition belongs :: "sharded_engine \<Rightarrow> nat \<Rightarrow> request \<Rightarrow> bool" where
  "belongs e i req \<longleftrightarrow> se_shard_id (se_num_shards e) (rq_key req) = i"

definition serving :: "sharded_engine \<Rightarrow> nat \<Rightarrow> request list" where
  "serving e i =
     (if i < length (se_workers e) then (case se_workers e ! i of W_Serving req \<Rightarrow> [req] | _ \<Rightarrow> []) else [])"

text \<open>Sizes of the vectors, and who runs when.\<close>

definition se_shape :: "sharded_engine \<Rightarrow> bool" where
  "se_shape e \<longleftrightarrow>
     0 < se_num_shards e \<and> length (se_shards e) = se_num_shards e \<and> length (se_queues e) = se_num_shards e \<and>
     (if se_running e \<or> se_stopping e \<noteq> None then length (se_workers e) = se_num_shards e
      else se_workers e = []) \<and>
     (se_running e \<longrightarrow> se_stopping e = None)"

text \<open>Every request is answered, being served or queued, in the order in which it was submitted.\<close>

definition se_fifo :: "sharded_engine \<Rightarrow> bool" where
  "se_fifo e \<longleftrightarrow>
     (\<forall>i < se_num_shards e.
        filter (belongs e i) (map fst (se_replies e)) @ serving e i @ se_queues e ! i =
        filter (belongs e i) (se_futures e))"

definition se_promises :: "sharded_engine \<Rightarrow> bool" where
  "se_promises e \<longleftrightarrow>
     (\<forall>p < length (se_futures e). rq_promise (se_futures e ! p) = p \<and>
        (rq_type (se_futures e ! p) = R_SET \<longrightarrow> rq_value (se_futures e ! p) \<noteq> None))"

text \<open>The tables are what sequential execution of the answered requests makes of a fresh table.\<close>

definition se_executed :: "hash_table \<Rightarrow> sharded_engine \<Rightarrow> bool" where
  "se_executed t e \<longleftrightarrow>
     (\<forall>i < se_num_shards e. executes t (filter (belongs e i \<circ> fst) (se_replies e)) (se_shards e ! i))"

text \<open>A worker that sleeps has nothing to do, or a client is about to notify it.\<close>

definition se_awake :: "sharded_engine \<Rightarrow> bool" where
  "se_awake e \<longleftrightarrow>
     (\<forall>i < length (se_workers e).
        (se_workers e ! i = W_Waiting \<longrightarrow> se_queues e ! i = []) \<and>
        (se_workers e ! i = W_Blocked \<longrightarrow> se_queues e ! i = [] \<or> i \<in> set (se_notify e)))"

definition se_inv :: "hash_table \<Rightarrow> sharded_engine \<Rightarrow> bool" where
  "se_inv t e \<longleftrightarrow> se_shape e \<and> se_fifo e \<and> se_promises e \<and> se_executed t e \<and> se_awake e"

lemmas se_inv_defs = se_inv_def se_shape_def se_fifo_def se_promises_def se_executed_def se_awake_def

lemma se_shard_id_less: "0 < n \<Longrightarrow> se_shard_id n key < n"
  by (simp add: se_shard_id_def)

lemma wake_length [simp]: "length (wake i ws) = length ws"
  by (simp add: wake_def)

lemma wake_Nil [simp]: "wake i [] = []"
  by (simp add: wake_def)

lemma wake_nth:
  "j < length ws \<Longrightarrow> wake i ws ! j = (if j = i \<and> ws ! i = W_Blocked then W_Lock else ws ! j)"
  by (simp add: wake_def nth_list_update)

lemma serving_wake [simp]: "serving (e\<lparr>se_workers := wake i (se_workers e)\<rparr>) j = serving e j"
  by (simp add: serving_def wake_nth)

lemma belongs_frame [simp]:
  "belongs (e\<lparr>se_workers := w\<rparr>) = belongs e" "belongs (e\<lparr>se_queues := q\<rparr>) = belongs e"
  "belongs (e\<lparr>se_shards := s\<rparr>) = belongs e" "belongs (e\<lparr>se_running := b\<rparr>) = belongs e"
  "belongs (e\<lparr>se_notify := ns\<rparr>) = belongs e" "belongs (e\<lparr>se_stopping := st\<rparr>) = belongs e"
  "belongs (e\<lparr>se_futures := fs\<rparr>) = belongs e" "belongs (e\<lparr>se_replies := rs\<rparr>) = belongs e"
  by (simp_all add: belongs_def fun_eq_iff)

lemma serving_frame [simp]:
  "serving (e\<lparr>se_queues := q\<rparr>) = serving e" "serving (e\<lparr>se_shards := s\<rparr>) = serving e"
  "serving (e\<lparr>se_running := b\<rparr>) = serving e" "serving (e\<lparr>se_notify := ns\<rparr>) = serving e"
  "serving (e\<lparr>se_stopping := st\<rparr>) = serving e" "serving (e\<lparr>se_futures := fs\<rparr>) = serving e"
  "serving (e\<lparr>se_replies := rs\<rparr>) = serving e"
  by (simp_all add: serving_def fun_eq_iff)

lemma serving_update:
  "i < length (se_workers e) \<Longrightarrow> serving (e\<lparr>se_workers := (se_workers e)[i := w]\<rparr>) j =
    (if j = i then (case w of W_Serving req \<Rightarrow> [req] | _ \<Rightarrow> []) else serving e j)"
  by (simp add: serving_def nth_list_update)

lemma se_new_inv:
  assumes "0 < n"
  shows "se_inv (snd (snd (ht_new f 16 limit policy []))) (se_new n limit policy f)"
  using assms by (auto simp: se_inv_defs se_new_def serving_def intro: executes_Nil)

text \<open>A change of the workers that wakes one of them.\<close>

lemma se_inv_wake:
  assumes "se_inv t e"
  shows "se_inv t (e\<lparr>se_workers := wake i (se_workers e)\<rparr>)"
proof -
  have "se_awake (e\<lparr>se_workers := wake i (se_workers e)\<rparr>)"
    using assms by (auto simp: se_inv_def se_awake_def wake_nth)
  then show ?thesis
    using assms by (simp add: se_inv_def se_shape_def se_fifo_def se_promises_def se_executed_def)
qed

lemma se_submit_frame [simp]:
  "se_num_shards (se_submit ty key val e) = se_num_shards e" "se_workers (se_submit ty key val e) = se_workers e"
  "se_shards (se_submit ty key val e) = se_shards e" "se_replies (se_submit ty key val e) = se_replies e"
  "se_running (se_submit ty key val e) = se_running e" "se_stopping (se_submit ty key val e) = se_stopping e"
  "belongs (se_submit ty key val e) = belongs e" "serving (se_submit ty key val e) = serving e"
  "length (se_queues (se_submit ty key val e)) = length (se_queues e)"
  "set (se_notify (se_submit ty key val e)) = insert (se_shard_id (se_num_shards e) key) (set (se_notify e))"
  by (simp_all add: se_submit_def Let_def)

lemma se_inv_submit:
  assumes "se_inv t e" "ty = R_SET \<longrightarrow> val \<noteq> None"
    and "\<not> (i < length (se_workers e) \<and> se_workers e ! i = W_Waiting)" "i = se_shard_id (se_num_shards e) key"
  shows "se_inv t (se_submit ty key val e)"
proof -
  let ?r = "\<lparr>rq_type = ty, rq_key = key, rq_value = val, rq_promise = length (se_futures e)\<rparr>"
  have inv: "i < length (se_queues e)" "length (se_queues e) = se_num_shards e"
    using assms(1,4) by (auto simp: se_inv_def se_shape_def se_shard_id_less)
  then have q: "se_queues (se_submit ty key val e) ! j = se_queues e ! j @ (if j = i then [?r] else [])" for j
    using assms(4) by (simp add: se_submit_def Let_def)
  have fu: "se_futures (se_submit ty key val e) = se_futures e @ [?r]" by (simp add: se_submit_def Let_def)
  have b: "belongs e j ?r \<longleftrightarrow> j = i" for j using assms(4) by (auto simp: belongs_def)
  have "se_fifo (se_submit ty key val e)"
    using assms(1) by (simp add: se_inv_def se_fifo_def q fu b flip: append_assoc)
  moreover have "se_promises (se_submit ty key val e)"
    using assms(1,2) by (auto simp: se_inv_def se_promises_def fu nth_append less_Suc_eq)
  moreover have "se_awake (se_submit ty key val e)"
    using assms(1,3,4) by (auto simp: se_inv_def se_awake_def q)
  ultimately show ?thesis
    using assms(1) by (simp add: se_inv_def se_shape_def se_executed_def)
qed

text \<open>A worker that moves between control points without a request.\<close>

lemma se_inv_control:
  assumes "se_inv t e" "i < length (se_workers e)" "serving e i = []" "\<And>req. w \<noteq> W_Serving req"
    and "w = W_Waiting \<or> w = W_Blocked \<Longrightarrow> se_queues e ! i = []"
  shows "se_inv t (e\<lparr>se_workers := (se_workers e)[i := w]\<rparr>)"
proof -
  have "(case w of W_Serving req \<Rightarrow> [req] | _ \<Rightarrow> []) = []" using assms(4) by (simp split: worker.split)
  then have "serving (e\<lparr>se_workers := (se_workers e)[i := w]\<rparr>) j = serving e j" for j
    using serving_update [OF assms(2)] assms(3) by simp
  moreover have "se_awake (e\<lparr>se_workers := (se_workers e)[i := w]\<rparr>)"
    using assms(1,2,5) by (auto simp: se_inv_def se_awake_def nth_list_update)
  ultimately show ?thesis
    using assms(1,2) by (auto simp: se_inv_def se_shape_def se_fifo_def se_promises_def se_executed_def)
qed

lemma se_inv_take:
  assumes "se_inv t e" "i < length (se_workers e)" "serving e i = []" "se_queues e ! i = req # q"
  shows "se_inv t (e\<lparr>se_queues := (se_queues e)[i := q], se_workers := (se_workers e)[i := W_Serving req]\<rparr>)"
proof -
  let ?e = "e\<lparr>se_queues := (se_queues e)[i := q], se_workers := (se_workers e)[i := W_Serving req]\<rparr>"
  have l: "length (se_queues e) = se_num_shards e" "i < se_num_shards e"
    using assms(1,2) by (auto simp: se_inv_def se_shape_def split: if_splits)
  have s: "serving ?e j = (if j = i then [req] else serving e j)" for j
    using assms(2) by (simp add: serving_def nth_list_update)
  have "se_fifo ?e"
    using assms(1,3,4) l by (auto simp: se_inv_def se_fifo_def s nth_list_update)
  moreover have "se_awake ?e"
    using assms(1,2) l by (auto simp: se_inv_def se_awake_def nth_list_update)
  ultimately show ?thesis
    using assms(1) by (auto simp: se_inv_def se_shape_def se_promises_def se_executed_def)
qed

lemma se_inv_worker:
  assumes "se_inv t e" "i < length (se_workers e)" "se_workers e ! i \<in> {W_Loop, W_Lock, W_Waiting}"
  shows "se_inv t (worker_loop i e)"
proof -
  have s: "serving e i = []" using assms(2,3) by (auto simp: serving_def)
  have q: "se_workers e ! i = W_Waiting \<Longrightarrow> se_queues e ! i = []"
    using assms(1,2) by (simp add: se_inv_def se_awake_def)
  from assms(3) consider "se_workers e ! i = W_Loop" | "se_workers e ! i = W_Lock" "se_queues e ! i = []"
    | req q where "se_workers e ! i = W_Lock" "se_queues e ! i = req # q" | "se_workers e ! i = W_Waiting"
    by (cases "se_queues e ! i") auto
  then show ?thesis
    using se_inv_take [OF assms(1,2) s] q
    by cases (auto simp: worker_loop_def intro!: se_inv_control [OF assms(1,2) s])
qed

lemma se_fifo_serving:
  assumes "se_inv t e" "i < length (se_workers e)" "se_workers e ! i = W_Serving req"
  shows "i < se_num_shards e" "belongs e i req" "req \<in> set (se_futures e)"
proof -
  show i: "i < se_num_shards e" using assms(1,2) by (auto simp: se_inv_def se_shape_def split: if_splits)
  have "serving e i = [req]" using assms(2,3) by (simp add: serving_def)
  with assms(1) i have "req \<in> set (filter (belongs e i) (se_futures e))"
    unfolding se_inv_def se_fifo_def by (metis append_Cons in_set_conv_decomp)
  then show "belongs e i req" "req \<in> set (se_futures e)" by simp_all
qed

lemma se_inv_serve:
  assumes "se_inv t e" "i < length (se_workers e)" "se_workers e ! i = W_Serving req"
    and "process_request now now' f (se_shards e ! i) req = Some (Inr (r, f', shard))"
  shows "se_inv t (se_reply i req r shard e)"
proof -
  let ?e = "se_reply i req r shard e"
  note b = se_fifo_serving [OF assms(1-3)]
  have l: "length (se_shards e) = se_num_shards e" using assms(1) by (simp add: se_inv_def se_shape_def)
  have bj: "belongs e j req \<longleftrightarrow> j = i" for j using b(2) by (auto simp: belongs_def)
  have fr: "belongs ?e = belongs e" "se_queues ?e = se_queues e" "se_futures ?e = se_futures e"
    "se_num_shards ?e = se_num_shards e" "se_replies ?e = se_replies e @ [(req, r)]"
    "se_shards ?e = (se_shards e)[i := shard]" "se_workers ?e = (se_workers e)[i := W_Loop]"
    "se_running ?e = se_running e" "se_stopping ?e = se_stopping e" "se_notify ?e = se_notify e"
    by (simp_all add: se_reply_def)
  have s: "serving ?e j = (if j = i then [] else serving e j)" for j
    using assms(2) by (simp add: serving_def fr nth_list_update)
  have "serving e i = [req]" using assms(2,3) by (simp add: serving_def)
  then have "se_fifo ?e"
    using assms(1) by (auto simp: se_inv_def se_fifo_def fr s bj)
  moreover have "se_executed t ?e"
    unfolding se_executed_def fr
  proof (intro allI impI)
    fix j assume j: "j < se_num_shards e"
    then have "executes t (filter (belongs e j \<circ> fst) (se_replies e)) (se_shards e ! j)"
      using assms(1) by (simp add: se_inv_def se_executed_def)
    with executes_snoc [OF _ assms(4)] l j b(1) show
      "executes t (filter (belongs e j \<circ> fst) (se_replies e @ [(req, r)])) ((se_shards e)[i := shard] ! j)"
      by (cases "j = i") (simp_all add: bj)
  qed
  moreover have "se_awake ?e"
    using assms(1,2) by (auto simp: se_inv_def se_awake_def fr nth_list_update split: if_splits)
  ultimately show ?thesis
    using assms(1) by (auto simp: se_inv_def se_shape_def se_promises_def fr)
qed

lemma se_inv_start:
  assumes "se_inv t e" "se_stopping e = None"
  shows "se_inv t (se_start e)"
proof (cases "se_running e")
  case False
  then have "se_workers e = []" using assms by (simp add: se_inv_def se_shape_def)
  with False assms show ?thesis
    by (simp add: se_inv_defs se_start_def serving_def)
qed (use assms in \<open>simp add: se_start_def\<close>)

lemma se_inv_stop:
  assumes "se_inv t e" "se_stopping e = None"
  shows "se_inv t (se_stop e)"
  using assms by (auto simp: se_inv_defs se_stop_def)

lemma se_inv_join:
  assumes "se_inv t e" "\<forall>w \<in> set (se_workers e). w = W_Exited" "se_stopping e \<noteq> None"
  shows "se_inv t (se_stop_join e)"
proof -
  have "serving e j = []" "serving (se_stop_join e) j = []" for j
    using assms(2) by (auto simp: serving_def se_stop_join_def all_set_conv_all_nth)
  with assms show ?thesis by (auto simp: se_inv_defs se_stop_join_def)
qed

lemma serving_cong: "se_workers e = se_workers e' \<Longrightarrow> serving e = serving e'"
  by (simp add: serving_def fun_eq_iff)

lemma se_inv_notify:
  assumes "se_inv t e"
  shows "se_inv t (se_notify_one i e)"
proof -
  let ?w = "e\<lparr>se_workers := wake i (se_workers e)\<rparr>"
  have s: "serving (se_notify_one i e) = serving ?w" by (rule serving_cong) (simp add: se_notify_one_def)
  have "se_awake (se_notify_one i e)"
    unfolding se_awake_def
  proof (intro allI impI)
    fix j assume "j < length (se_workers (se_notify_one i e))"
    with assms show "(se_workers (se_notify_one i e) ! j = W_Waiting \<longrightarrow> se_queues (se_notify_one i e) ! j = []) \<and>
        (se_workers (se_notify_one i e) ! j = W_Blocked \<longrightarrow>
          se_queues (se_notify_one i e) ! j = [] \<or> j \<in> set (se_notify (se_notify_one i e)))"
      by (cases "j = i") (auto simp: se_inv_def se_awake_def se_notify_one_def wake_nth split: if_splits)
  qed
  moreover have "se_fifo (se_notify_one i e)"
    using assms unfolding se_inv_def se_fifo_def s by (simp add: se_notify_one_def)
  ultimately show ?thesis
    using assms
    by (auto simp: se_inv_def se_notify_one_def se_shape_def se_promises_def se_executed_def split: if_splits)
qed

lemma se_inv_stop_notify:
  assumes "se_inv t e" "se_stopping e = Some i"
  shows "se_inv t (se_stop_notify i e)"
proof -
  let ?w = "e\<lparr>se_workers := wake i (se_workers e)\<rparr>"
  have s: "serving (se_stop_notify i e) = serving ?w" by (rule serving_cong) (simp add: se_stop_notify_def)
  have "se_fifo (se_stop_notify i e)"
    using assms unfolding se_inv_def se_fifo_def s by (simp add: se_stop_notify_def)
  moreover have "se_awake (se_stop_notify i e)"
    using se_inv_wake [OF assms(1), of i] by (simp add: se_inv_def se_awake_def se_stop_notify_def)
  ultimately show ?thesis
    using assms
    by (auto simp: se_inv_def se_stop_notify_def se_shape_def se_promises_def se_executed_def split: if_splits)
qed

lemma se_inv_step: "se_step l s s' \<Longrightarrow> se_inv t (snd s) \<Longrightarrow> se_inv t (snd s')"
  by (induction rule: se_step.induct)
    (simp_all add: se_get_def se_set_def se_remove_def se_inv_submit se_inv_worker se_inv_serve
      se_inv_wake se_inv_start se_inv_stop se_inv_join se_inv_notify se_inv_stop_notify)

lemma se_inv_steps: "se_steps ls s s' \<Longrightarrow> se_inv t (snd s) \<Longrightarrow> se_inv t (snd s')"
  by (induction rule: se_steps.induct) (auto dest: se_inv_step)

section \<open>Properties\<close>

abbreviation fresh_shard :: "fs \<Rightarrow> nat \<Rightarrow> eviction_policy_kind \<Rightarrow> hash_table" where
  "fresh_shard f limit policy \<equiv> snd (snd (ht_new f 16 limit policy []))"

lemma se_reach_inv:
  assumes "0 < n" "se_steps ls (f, se_new n limit policy f) (f', e)"
  shows "se_inv (fresh_shard f limit policy) e"
  using se_inv_steps [OF assms(2)] se_new_inv [OF assms(1)] by simp

lemma se_num_shards_step: "se_step l s s' \<Longrightarrow> se_num_shards (snd s') = se_num_shards (snd s)"
  by (induction rule: se_step.induct)
    (auto simp: se_get_def se_set_def se_remove_def se_notify_one_def worker_loop_def se_reply_def
      se_start_def se_stop_def se_stop_notify_def se_stop_join_def split: worker.splits list.splits)

lemma se_num_shards_steps: "se_steps ls s s' \<Longrightarrow> se_num_shards (snd s') = se_num_shards (snd s)"
  by (induction rule: se_steps.induct) (auto dest: se_num_shards_step)

lemma se_shard_view:
  assumes "se_inv (fresh_shard f limit policy) e" "i < se_num_shards e"
  shows "ht_inv (se_shards e ! i)"
    "ht_view (se_shards e ! i) k = None \<or>
      ht_view (se_shards e ! i) k = latest k (map fst (filter (belongs e i \<circ> fst) (se_replies e)))"
  using assms executes_view [OF _ ht_new_store(1,2) [OF refl]] unfolding se_inv_def se_executed_def by blast+

lemma se_futures_nth:
  assumes "se_promises e" "req \<in> set (se_futures e)"
  shows "rq_promise req < length (se_futures e)" "se_futures e ! rq_promise req = req"
  using assms by (auto simp: se_promises_def in_set_conv_nth)

lemma se_futures_distinct: "se_promises e \<Longrightarrow> distinct (se_futures e)"
  unfolding se_promises_def distinct_conv_nth by metis

lemma latest_filter:
  "(\<And>req. rq_key req = k \<Longrightarrow> P req) \<Longrightarrow> latest k (filter P rqs) = latest k rqs"
  by (induction rqs rule: rev_induct) (auto simp: request_effect_def split: request_type.split)

lemma distinct_split_unique:
  assumes "distinct (xs @ x # ys)" "xs @ x # ys = xs' @ x # ys'"
  shows "xs = xs'"
  using assms by (metis append_Cons_eq_iff distinct.simps(2) distinct_append disjoint_iff insert_iff list.set(2))

lemma se_answered_before:
  assumes "se_inv t e" "se_replies e = xs @ (req, r) # ys" "i = se_shard_id (se_num_shards e) (rq_key req)"
  shows "filter (belongs e i) (map fst xs) = filter (belongs e i) (take (rq_promise req) (se_futures e))"
proof -
  let ?F = "se_futures e" and ?p = "rq_promise req"
  have i: "i < se_num_shards e" using assms(1,3) by (simp add: se_inv_def se_shape_def se_shard_id_less)
  have b: "belongs e i req" using assms(3) by (simp add: belongs_def)
  have "filter (belongs e i) (map fst (se_replies e)) @ serving e i @ se_queues e ! i = filter (belongs e i) ?F"
    using assms(1) i by (simp add: se_inv_def se_fifo_def)
  then have f: "filter (belongs e i) ?F = filter (belongs e i) (map fst xs) @ req #
      (filter (belongs e i) (map fst ys) @ serving e i @ se_queues e ! i)"
    using b by (simp add: assms(2))
  then have "req \<in> set (filter (belongs e i) ?F)" by simp
  then have m: "req \<in> set ?F" by simp
  have pr: "se_promises e" using assms(1) by (simp add: se_inv_def)
  have "?F = take ?p ?F @ req # drop (Suc ?p) ?F"
    using se_futures_nth [OF pr m] by (metis id_take_nth_drop)
  then have "filter (belongs e i) ?F = filter (belongs e i) (take ?p ?F) @ req # filter (belongs e i) (drop (Suc ?p) ?F)"
    using b by (metis filter.simps(2) filter_append)
  moreover have "distinct (filter (belongs e i) ?F)" using se_futures_distinct [OF pr] by simp
  ultimately show ?thesis using f distinct_split_unique by metis
qed

text \<open>C6. Answers are never stale under any interleaving: in every state the sharded engine can reach,
  the answer given to a get is either "not found" or the value and expiry time that the last write of
  that key submitted before the get gave it, whatever clients and workers did in which order.\<close>

theorem sharded_get_never_stale:
  assumes "0 < n" "se_steps ls (f, se_new n limit policy f) (f', e)"
    and "(req, r) \<in> set (se_replies e)" "rq_type req = R_GET"
  shows "r = None \<or> map_option durable r = latest (rq_key req) (take (rq_promise req) (se_futures e))"
proof -
  let ?i = "se_shard_id (se_num_shards e) (rq_key req)"
  note inv = se_reach_inv [OF assms(1,2)]
  obtain xs ys where x: "se_replies e = xs @ (req, r) # ys" using assms(3) by (meson split_list)
  have i: "?i < se_num_shards e" using inv by (simp add: se_inv_def se_shape_def se_shard_id_less)
  have "filter (belongs e ?i \<circ> fst) (se_replies e) =
      filter (belongs e ?i \<circ> fst) xs @ (req, r) # filter (belongs e ?i \<circ> fst) ys"
    using x by (simp add: belongs_def)
  moreover have "executes (fresh_shard f limit policy) (filter (belongs e ?i \<circ> fst) (se_replies e)) (se_shards e ! ?i)"
    using inv i by (simp add: se_inv_def se_executed_def)
  ultimately have "r = None \<or> map_option durable r =
      latest (rq_key req) (map fst (filter (belongs e ?i \<circ> fst) xs))"
    using executes_reply [OF _ ht_new_store(1,2) [OF refl] _ assms(4)] by metis
  moreover have "map fst (filter (belongs e ?i \<circ> fst) xs) = filter (belongs e ?i) (map fst xs)"
    by (simp add: filter_map)
  ultimately show ?thesis
    using se_answered_before [OF inv x refl] latest_filter [of "rq_key req" "belongs e ?i"]
    by (simp add: belongs_def)
qed

lemma steps_Cons: "se_step l s s' \<Longrightarrow> se_steps ls s' s'' \<Longrightarrow> se_steps (l # ls) s s''"
proof (rotate_tac, induction rule: se_steps.induct)
  case (steps_refl s)
  then show ?case using steps_snoc [OF se_steps.steps_refl] by fastforce
next
  case (steps_snoc ls s' s'' l' s''')
  then show ?case using se_steps.steps_snoc [of "l # ls"] by fastforce
qed

text \<open>A run of an engine with one shard: start, a set and a get of the same key, both served.\<close>

definition demo_set :: request where
  "demo_set = \<lparr>rq_type = R_SET, rq_key = ''k'', rq_value = Some (value_entry_new ''v'' 0), rq_promise = 0\<rparr>"

definition demo_get :: request where
  "demo_get = \<lparr>rq_type = R_GET, rq_key = ''k'', rq_value = None, rq_promise = 1\<rparr>"

definition demo_engine :: "worker \<Rightarrow> request list \<Rightarrow> (request \<times> value_entry option) list \<Rightarrow> hash_table \<Rightarrow> sharded_engine" where
  "demo_engine w q rs t =
     \<lparr>se_num_shards = 1, se_shards = [t], se_workers = [w], se_queues = [q], se_running = True,
      se_notify = [0, 0], se_stopping = None, se_futures = [demo_set, demo_get], se_replies = rs\<rparr>"

lemma demo_submitted:
  "se_steps [L_Start, L_Submit, L_Submit] (f, se_new 1 limit policy f)
     (f, demo_engine W_Loop [demo_set, demo_get] [] (fresh_shard f limit policy))"
proof -
  let ?e1 = "se_start (se_new 1 limit policy f)"
  let ?e2 = "se_set ''k'' (value_entry_new ''v'' 0) ?e1"
  have i: "se_shard_id (Suc 0) k = 0" for k by (simp add: se_shard_id_def)
  have 1: "se_step L_Start (f, se_new 1 limit policy f) (f, ?e1)" by (rule step_start) (simp add: se_new_def)
  have 2: "se_step L_Submit (f, ?e1) (f, ?e2)"
    by (rule step_set [where i = 0]) (simp_all add: se_start_def se_new_def i)
  have 3: "se_step L_Submit (f, ?e2) (f, se_get ''k'' ?e2)"
    by (rule step_get [where i = 0]) (simp_all add: se_start_def se_new_def se_set_def i)
  have e: "se_get ''k'' ?e2 = demo_engine W_Loop [demo_set, demo_get] [] (fresh_shard f limit policy)"
    by (simp add: se_get_def se_set_def se_submit_def se_start_def se_new_def demo_engine_def demo_set_def
        demo_get_def i Let_def)
  show ?thesis using steps_Cons [OF 1 steps_Cons [OF 2 steps_Cons [OF 3 steps_refl]]] unfolding e .
qed

lemma demo_serves:
  assumes "ht_inv t" "rq_type req = R_SET \<longrightarrow> rq_value req \<noteq> None"
  obtains r f' t' where "ht_inv t'"
    "se_steps [L_Worker, L_Worker, L_Worker] (f, demo_engine W_Loop (req # q) rs t)
      (f', demo_engine W_Loop q (rs @ [(req, r)]) t')"
proof -
  let ?e = "\<lambda>w q. demo_engine w q rs t"
  obtain r f' t' where p: "process_request 0 0 f t req = Some (Inr (r, f', t'))"
    using process_total [OF assms] by blast
  have e: "worker_loop 0 (?e W_Loop (req # q)) = ?e W_Lock (req # q)"
    "worker_loop 0 (?e W_Lock (req # q)) = ?e (W_Serving req) q"
    "se_reply 0 req r t' (?e (W_Serving req) q) = demo_engine W_Loop q (rs @ [(req, r)]) t'"
    by (simp_all add: worker_loop_def se_reply_def demo_engine_def)
  have 1: "se_step L_Worker (f, ?e W_Loop (req # q)) (f, worker_loop 0 (?e W_Loop (req # q)))"
    "se_step L_Worker (f, ?e W_Lock (req # q)) (f, worker_loop 0 (?e W_Lock (req # q)))"
    by (rule step_worker; simp add: demo_engine_def)+
  have 2: "se_step L_Worker (f, ?e (W_Serving req) q) (f', se_reply 0 req r t' (?e (W_Serving req) q))"
    by (rule step_serve [of _ _ _ 0 0]) (simp_all add: demo_engine_def p)
  have "se_steps [L_Worker, L_Worker, L_Worker] (f, ?e W_Loop (req # q))
      (f', demo_engine W_Loop q (rs @ [(req, r)]) t')"
    using steps_Cons [OF 1(1) [unfolded e(1)] steps_Cons [OF 1(2) [unfolded e(2)] steps_Cons [OF 2 steps_refl]]]
    unfolding e(3) .
  with process_effect(1) [OF assms(1) p] that show thesis by blast
qed

lemma steps_append: "se_steps ls' s' s'' \<Longrightarrow> se_steps ls s s' \<Longrightarrow> se_steps (ls @ ls') s s''"
  by (induction rule: se_steps.induct) (auto intro: se_steps.steps_snoc simp flip: append_assoc)

lemma demo_run:
  obtains ls f' t r1 r2 where "se_steps ls (f, se_new 1 limit policy f)
    (f', demo_engine W_Loop [] [(demo_set, r1), (demo_get, r2)] t)"
proof -
  let ?t = "fresh_shard f limit policy"
  have i: "ht_inv ?t" by (rule ht_new_store(1) [OF refl])
  have v: "rq_type demo_set = R_SET \<longrightarrow> rq_value demo_set \<noteq> None"
    "rq_type demo_get = R_SET \<longrightarrow> rq_value demo_get \<noteq> None" by (simp_all add: demo_set_def demo_get_def)
  obtain r1 f1 t1 where 1: "ht_inv t1" "se_steps [L_Worker, L_Worker, L_Worker]
      (f, demo_engine W_Loop [demo_set, demo_get] [] ?t) (f1, demo_engine W_Loop [demo_get] ([] @ [(demo_set, r1)]) t1)"
    by (rule demo_serves [OF i v(1)])
  obtain r2 f2 t2 where "se_steps [L_Worker, L_Worker, L_Worker]
      (f1, demo_engine W_Loop [demo_get] ([] @ [(demo_set, r1)]) t1)
      (f2, demo_engine W_Loop [] (([] @ [(demo_set, r1)]) @ [(demo_get, r2)]) t2)"
    by (rule demo_serves [OF 1(1) v(2)])
  from steps_append [OF this steps_append [OF 1(2) demo_submitted]] show thesis
    unfolding append_Nil append_Cons by (rule that)
qed

theorem sharded_get_never_stale_witness:
  "\<exists>ls f' t r1 r2. se_steps ls (wal_demo_fs, se_new 1 100 LRU wal_demo_fs)
      (f', demo_engine W_Loop [] [(demo_set, r1), (demo_get, r2)] t) \<and>
    (r2 = None \<or> map_option durable r2 = latest ''k'' [demo_set])"
proof -
  obtain ls f' t r1 r2 where s: "se_steps ls (wal_demo_fs, se_new 1 100 LRU wal_demo_fs)
      (f', demo_engine W_Loop [] [(demo_set, r1), (demo_get, r2)] t)" by (rule demo_run)
  have "r2 = None \<or> map_option durable r2 = latest (rq_key demo_get)
      (take (rq_promise demo_get) (se_futures (demo_engine W_Loop [] [(demo_set, r1), (demo_get, r2)] t)))"
    by (rule sharded_get_never_stale [OF _ s]) (simp_all add: demo_engine_def demo_get_def)
  then have "r2 = None \<or> map_option durable r2 = latest ''k'' [demo_set]"
    by (simp add: demo_engine_def demo_get_def)
  with s show ?thesis by (intro exI conjI)
qed

text \<open>C4. No request is lost, duplicated or reordered: in every reachable state, the requests of a shard
  that were answered, followed by the one being served and by those in the queue, are the requests
  submitted for that shard in submission order, and the shard's table and answers are those of
  executing the answered ones one after the other on a fresh table.\<close>

theorem sharded_engine_sequential:
  assumes "0 < n" "se_steps ls (f, se_new n limit policy f) (f', e)" "i < n"
  shows "filter (belongs e i) (map fst (se_replies e)) @ serving e i @ se_queues e ! i =
       filter (belongs e i) (se_futures e) \<and>
     executes (fresh_shard f limit policy) (filter (belongs e i \<circ> fst) (se_replies e)) (se_shards e ! i)"
proof -
  have "se_num_shards e = n" using se_num_shards_steps [OF assms(2)] by (simp add: se_new_def)
  with se_reach_inv [OF assms(1,2)] assms(3) show ?thesis
    by (simp add: se_inv_def se_fifo_def se_executed_def)
qed

theorem sharded_engine_sequential_witness:
  "\<exists>ls f' t r1 r2. se_steps ls (wal_demo_fs, se_new 1 100 LRU wal_demo_fs)
      (f', demo_engine W_Loop [] [(demo_set, r1), (demo_get, r2)] t) \<and>
    executes (fresh_shard wal_demo_fs 100 LRU)
      (filter (belongs (demo_engine W_Loop [] [(demo_set, r1), (demo_get, r2)] t) 0 \<circ> fst)
         [(demo_set, r1), (demo_get, r2)]) t"
proof -
  obtain ls f' t r1 r2 where s: "se_steps ls (wal_demo_fs, se_new 1 100 LRU wal_demo_fs)
      (f', demo_engine W_Loop [] [(demo_set, r1), (demo_get, r2)] t)" by (rule demo_run)
  have "executes (fresh_shard wal_demo_fs 100 LRU)
      (filter (belongs (demo_engine W_Loop [] [(demo_set, r1), (demo_get, r2)] t) 0 \<circ> fst)
         [(demo_set, r1), (demo_get, r2)]) t"
    using sharded_engine_sequential [OF _ s, of 0] by (simp add: demo_engine_def)
  with s show ?thesis by (intro exI conjI)
qed

text \<open>A request never waits for a lost wake-up: in every reachable state in which a shard has a request
  that is not answered and its worker has not exited, a step that moves that worker is possible,
  namely its own next step or the notification a client still owes it, without relying on a spurious
  wake-up.\<close>

lemma request_wakeup_not_lost:
  assumes "0 < n" "se_steps ls (f, se_new n limit policy f) (f', e)"
    and "i < length (se_workers e)" "serving e i @ se_queues e ! i \<noteq> []" "se_workers e ! i \<noteq> W_Exited"
  shows "\<exists>l f'' e'. l \<in> {L_Worker, L_Notify} \<and> se_step l (f', e) (f'', e') \<and> se_workers e' ! i \<noteq> se_workers e ! i"
proof -
  note inv = se_reach_inv [OF assms(1,2)]
  note aw = inv [unfolded se_inv_def se_awake_def]
  have q: "se_queues e ! i \<noteq> []" if "\<forall>req. se_workers e ! i \<noteq> W_Serving req"
    using assms(3,4) that by (auto simp: serving_def split: worker.splits)
  show ?thesis
  proof (cases "se_workers e ! i")
    case (W_Serving req)
    note b = se_fifo_serving [OF inv assms(3) W_Serving]
    have "rq_type req = R_SET \<longrightarrow> rq_value req \<noteq> None"
      using inv se_futures_nth [OF _ b(3)] unfolding se_inv_def se_promises_def by metis
    then obtain r f'' t where p: "process_request 0 0 f' (se_shards e ! i) req = Some (Inr (r, f'', t))"
      using process_total [OF se_shard_view(1) [OF inv b(1)]] by blast
    from step_serve [OF assms(3) W_Serving p] W_Serving assms(3) show ?thesis
      by (intro exI [of _ L_Worker] exI [of _ f''] exI [of _ "se_reply i req r t e"] conjI)
        (simp_all add: se_reply_def)
  next
    case W_Blocked
    then have "i \<in> set (se_notify e)" using aw assms(3) q by auto
    from step_notify [OF this, of f'] W_Blocked assms(3) show ?thesis
      by (intro exI [of _ L_Notify] exI [of _ f'] exI [of _ "se_notify_one i e"] conjI)
        (simp_all add: se_notify_one_def wake_nth)
  next
    case W_Lock
    then show ?thesis
      using step_worker [OF assms(3), of f'] assms(3) q
      by (intro exI [of _ L_Worker] exI [of _ f'] exI [of _ "worker_loop i e"] conjI)
        (simp_all add: worker_loop_def split: list.split)
  next
    case W_Loop
    then show ?thesis
      using step_worker [OF assms(3), of f'] assms(3)
      by (intro exI [of _ L_Worker] exI [of _ f'] exI [of _ "worker_loop i e"] conjI)
        (simp_all add: worker_loop_def)
  next
    case W_Waiting
    with aw assms(3) q show ?thesis by auto
  qed (use assms(5) in simp)
qed

text \<open>C34. Stopping can hang: an engine with one shard that no client uses can reach a state in which stop
  has cleared the flag and sent all its notifications, the worker is blocked, and no step is
  possible any more except a new request of a client or a spurious wake-up; so stop never returns.\<close>

theorem stop_can_hang:
  "\<exists>ls e. se_steps ls (f, se_new 1 limit policy f) (f, e) \<and> L_Submit \<notin> set ls \<and>
     \<not> se_running e \<and> se_stopping e = Some (se_num_shards e) \<and> se_workers e = [W_Blocked] \<and>
     (\<forall>l s'. se_step l (f, e) s' \<longrightarrow> l = L_Submit \<or> l = L_Spurious)"
proof -
  let ?e = "\<lambda>w run st. (se_new 1 limit policy f)\<lparr>se_workers := [w], se_running := run, se_stopping := st\<rparr>"
  have 0: "se_step L_Start (f, se_new 1 limit policy f) (f, ?e W_Loop True None)"
    using step_start [of "se_new 1 limit policy f" f] by (simp add: se_start_def se_new_def)
  have 1: "se_step L_Worker (f, ?e W_Loop True None) (f, ?e W_Lock True None)"
    using step_worker [of 0 "?e W_Loop True None" f] by (simp add: worker_loop_def se_new_def)
  have 2: "se_step L_Worker (f, ?e W_Lock True None) (f, ?e W_Waiting True None)"
    using step_worker [of 0 "?e W_Lock True None" f] by (simp add: worker_loop_def se_new_def)
  have 3: "se_step L_Stop (f, ?e W_Waiting True None) (f, ?e W_Waiting False (Some 0))"
    using step_stop [of "?e W_Waiting True None" f] by (simp add: se_stop_def se_new_def)
  have 4: "se_step L_Stop (f, ?e W_Waiting False (Some 0)) (f, ?e W_Waiting False (Some 1))"
    using step_stop_notify [of "?e W_Waiting False (Some 0)" 0 f] by (simp add: se_stop_notify_def se_new_def wake_def)
  have 5: "se_step L_Worker (f, ?e W_Waiting False (Some 1)) (f, ?e W_Blocked False (Some 1))"
    using step_worker [of 0 "?e W_Waiting False (Some 1)" f] by (simp add: worker_loop_def se_new_def)
  have "l = L_Submit \<or> l = L_Spurious" if "se_step l (f, ?e W_Blocked False (Some 1)) s'" for l s'
    using that by (cases rule: se_step.cases) (auto simp: se_new_def)
  moreover note steps_Cons [OF 0 steps_Cons [OF 1 steps_Cons [OF 2 steps_Cons [OF 3 steps_Cons [OF 4
      steps_Cons [OF 5 steps_refl]]]]]]
  ultimately show ?thesis
    by (intro exI [of _ "[L_Start, L_Worker, L_Worker, L_Stop, L_Stop, L_Worker]"]
        exI [of _ "?e W_Blocked False (Some 1)"] conjI) (simp_all add: se_new_def)
qed

theorem stop_can_hang_witness:
  "\<exists>ls e. se_steps ls (wal_demo_fs, se_new 1 100 LRU wal_demo_fs) (wal_demo_fs, e) \<and> L_Submit \<notin> set ls \<and>
     \<not> se_running e \<and> se_stopping e = Some (se_num_shards e) \<and> se_workers e = [W_Blocked] \<and>
     (\<forall>l s'. se_step l (wal_demo_fs, e) s' \<longrightarrow> l = L_Submit \<or> l = L_Spurious)"
  by (rule stop_can_hang)

lemma stopped_step:
  assumes "se_step l s s'" "l \<noteq> L_Start" "\<not> se_running (snd s)" "se_workers (snd s) = []"
    "se_stopping (snd s) = None"
  shows "\<not> se_running (snd s') \<and> se_workers (snd s') = [] \<and> se_stopping (snd s') = None \<and>
    se_replies (snd s') = se_replies (snd s)"
  using assms
  by (induction rule: se_step.induct)
    (auto simp: se_get_def se_set_def se_remove_def se_notify_one_def se_stop_def)

text \<open>Calls on an engine that is not running never return: from a state without workers (before
  start, or after stop has returned, with whatever requests are still queued), no sequence of steps
  without a start answers any request.\<close>

theorem stopped_engine_never_answers:
  assumes "se_steps ls (f, e) (f', e')" "L_Start \<notin> set ls"
    and "\<not> se_running e" "se_workers e = []" "se_stopping e = None"
  shows "se_replies e' = se_replies e"
proof -
  have "\<not> se_running (snd s') \<and> se_workers (snd s') = [] \<and> se_stopping (snd s') = None \<and>
      se_replies (snd s') = se_replies (snd s)"
    if "se_steps ls s s'" "L_Start \<notin> set ls" "\<not> se_running (snd s)" "se_workers (snd s) = []"
      "se_stopping (snd s) = None" for s s' ls
    using that
  proof (induction rule: se_steps.induct)
    case (steps_snoc ls s s' l s'')
    then have h: "\<not> se_running (snd s') \<and> se_workers (snd s') = [] \<and> se_stopping (snd s') = None \<and>
        se_replies (snd s') = se_replies (snd s)" by simp
    have "l \<noteq> L_Start" using steps_snoc.prems(1) by auto
    from stopped_step [OF steps_snoc.hyps(2) this] h show ?case by simp
  qed simp
  from this [OF assms(1)] assms show ?thesis by simp
qed

theorem stopped_engine_never_answers_witness:
  "se_replies (se_get ''k'' (se_new 2 100 LRU wal_demo_fs)) = se_replies (se_new 2 100 LRU wal_demo_fs)"
proof -
  have "se_step L_Submit (wal_demo_fs, se_new 2 100 LRU wal_demo_fs)
      (wal_demo_fs, se_get ''k'' (se_new 2 100 LRU wal_demo_fs))"
    by (rule step_get [OF _ refl]) (simp add: se_new_def)
  from steps_Cons [OF this steps_refl] show ?thesis
    by (rule stopped_engine_never_answers) (simp_all add: se_new_def)
qed

lemma latest_key: "latest k rqs \<noteq> None \<Longrightarrow> \<exists>req \<in> set rqs. rq_key req = k"
  by (induction rqs rule: rev_induct) (auto simp: request_effect_def latest_def split: if_splits)

lemma ht_view_bucket:
  assumes "ht_inv t" "b < length (ht_buckets t)" "kv \<in> set (ht_buckets t ! b)"
  shows "ht_view t (kv_key kv) \<noteq> None" "b = unat (ht_hash (kv_key kv)) mod length (ht_buckets t)"
proof -
  have wf: "buckets_wf (ht_buckets t)" using assms(1) by (simp add: ht_inv_def ht_wf_def)
  have "kv \<in> set (concat (ht_buckets t))" using assms(2,3) by force
  then have "kv_key kv \<in> dom (ht_map t)"
    unfolding ht_map_def buckets_map_def dom_pairs_map by (rule imageI)
  then show "ht_view t (kv_key kv) \<noteq> None" by (auto simp: ht_view_def durable_map_def)
  show "b = unat (ht_hash (kv_key kv)) mod length (ht_buckets t)"
    using buckets_placedD(2) [of "ht_buckets t" b kv] wf assms(2,3) by (simp add: buckets_wf_def bucket_idx_def)
qed

text \<open>Sharding and bucketing by the same hash leave buckets empty: if the number of shards divides
  the number of buckets of a shard's table (as it does for two, four, eight or sixteen shards), only
  every n-th bucket of that table is ever used, in every reachable state.\<close>

lemma shard_uses_every_nth_bucket:
  assumes "0 < n" "se_steps ls (f, se_new n limit policy f) (f', e)" "i < n"
    and "n dvd length (ht_buckets (se_shards e ! i))"
    and "b < length (ht_buckets (se_shards e ! i))" "ht_buckets (se_shards e ! i) ! b \<noteq> []"
  shows "b mod n = i"
proof -
  let ?t = "se_shards e ! i"
  have n: "se_num_shards e = n" using se_num_shards_steps [OF assms(2)] by (simp add: se_new_def)
  note v = se_shard_view [OF se_reach_inv [OF assms(1,2)], of i, unfolded n, OF assms(3)]
  obtain kv where "kv \<in> set (ht_buckets ?t ! b)" using assms(6) by (meson list.set_sel(1))
  note kv = ht_view_bucket [OF v(1) assms(5) this]
  from v(2) [of "kv_key kv"] kv(1)
  have "latest (kv_key kv) (map fst (filter (belongs e i \<circ> fst) (se_replies e))) \<noteq> None" by auto
  from latest_key [OF this] obtain req where "belongs e i req" "rq_key req = kv_key kv" by auto
  then have "unat (ht_hash (kv_key kv)) mod n = i"
    by (simp add: belongs_def n se_shard_id_def ht_hash_def)
  with kv(2) assms(4) show ?thesis by (metis mod_mod_cancel)
qed

end
