(* ===== verification/Sharded_Progress.thy ===== *)
theory Sharded_Progress
  imports Sharded_Engine "HOL-Library.Multiset"
begin

text \<open>
  Progress of \<open>ShardedEngine\<close> (\<open>engine/src/sharded_engine.cpp\<close>): the steps of workers and the
  notifications clients still owe them use up a measure, and while a request is not answered one of
  them is possible.
\<close>

definition internal_step :: "fs \<times> sharded_engine \<Rightarrow> fs \<times> sharded_engine \<Rightarrow> bool" where
  "internal_step s s' \<longleftrightarrow> se_step L_Worker s s' \<or> se_step L_Notify s s'"

definition all_answered :: "sharded_engine \<Rightarrow> bool" where
  "all_answered e \<longleftrightarrow> mset (map fst (se_replies e)) = mset (se_futures e)"

text \<open>How far a worker is from sleeping, and what is left to do.\<close>

fun worker_rank :: "worker \<Rightarrow> nat" where
  "worker_rank (W_Serving req) = 4"
| "worker_rank W_Loop = 3"
| "worker_rank W_Lock = 2"
| "worker_rank W_Waiting = 1"
| "worker_rank w = 0"

definition work_left :: "sharded_engine \<Rightarrow> nat" where
  "work_left e = sum_list (map worker_rank (se_workers e)) + 5 * sum_list (map length (se_queues e)) +
     5 * length (se_notify e)"

lemma sum_list_map_update:
  fixes g :: "'a \<Rightarrow> nat"
  assumes "i < length xs"
  shows "sum_list (map g (xs[i := x])) + g (xs ! i) = sum_list (map g xs) + g x"
  using assms by (induction xs arbitrary: i) (auto split: nat.split)

lemma running_no_exit:
  assumes "se_step l s s'" "se_running (snd s) \<longrightarrow> W_Exited \<notin> set (se_workers (snd s))"
    and "se_shape (snd s)"
  shows "se_running (snd s') \<longrightarrow> W_Exited \<notin> set (se_workers (snd s'))"
  using assms
proof (induction rule: se_step.induct)
  case (step_start e f)
  then show ?case by (auto simp: se_start_def se_shape_def split: if_splits)
next
  case (step_worker i e f)
  then show ?case
    by (auto simp: worker_loop_def split: worker.splits list.splits if_splits dest!: set_update_subset_insert [THEN subsetD])
qed (auto simp: se_get_def se_set_def se_remove_def se_submit_def Let_def se_notify_one_def wake_def se_reply_def
    se_stop_def se_stop_notify_def se_stop_join_def split: if_splits dest!: set_update_subset_insert [THEN subsetD])

lemma running_workers:
  assumes "0 < n" "se_steps ls (f, se_new n limit policy f) (f', e)" "se_running e"
  shows "W_Exited \<notin> set (se_workers e)" "length (se_workers e) = se_num_shards e"
proof -
  have "se_inv (fresh_shard f limit policy) (snd s) \<and> (se_running (snd s) \<longrightarrow> W_Exited \<notin> set (se_workers (snd s)))"
    if "se_steps ls (f, se_new n limit policy f) s" for ls s
    using that
  proof (induction ls "(f, se_new n limit policy f)" s rule: se_steps.induct)
    case steps_refl
    have "\<not> se_running (se_new n limit policy f)" by (simp add: se_new_def)
    with se_reach_inv [OF assms(1) se_steps.steps_refl, of f limit policy] show ?case by simp
  next
    case (steps_snoc ls s' l s'')
    then have "se_shape (snd s')" by (simp add: se_inv_def)
    with steps_snoc running_no_exit [OF steps_snoc.hyps(3)] se_inv_step [OF steps_snoc.hyps(3)] show ?case by blast
  qed
  from this [OF assms(2)] assms(3) show "W_Exited \<notin> set (se_workers e)" "length (se_workers e) = se_num_shards e"
    by (auto simp: se_inv_def se_shape_def)
qed

lemma internal_step_frame:
  assumes "internal_step s s'" "se_running (snd s)" "length (se_workers (snd s)) = length (se_queues (snd s))"
  shows "se_running (snd s') \<and> se_futures (snd s') = se_futures (snd s) \<and> work_left (snd s') < work_left (snd s)"
proof -
  have "se_running (snd s') \<and> se_futures (snd s') = se_futures (snd s) \<and> work_left (snd s') < work_left (snd s)"
    if "se_step l s s'" "l \<in> {L_Worker, L_Notify}" for l
    using that assms(2,3)
  proof (induction rule: se_step.induct)
    case (step_notify i e f)
    then obtain xs ys where n: "se_notify e = xs @ i # ys" "i \<notin> set xs" by (metis split_list_first)
    have "sum_list (map worker_rank (wake i (se_workers e))) \<le> sum_list (map worker_rank (se_workers e)) + 2"
      using sum_list_map_update [of i "se_workers e" worker_rank W_Lock] by (auto simp: wake_def)
    with n step_notify show ?case by (simp add: se_notify_one_def work_left_def remove1_append)
  next
    case (step_worker i e f)
    note w = sum_list_map_update [of i "se_workers e" worker_rank]
    show ?case
    proof (cases "se_workers e ! i")
      case W_Lock
      show ?thesis
      proof (cases "se_queues e ! i")
        case Nil
        with W_Lock step_worker w [of W_Waiting] show ?thesis by (simp add: worker_loop_def work_left_def)
      next
        case (Cons req q)
        with W_Lock step_worker w [of "W_Serving req"] sum_list_map_update [of i "se_queues e" length q]
        show ?thesis by (simp add: worker_loop_def work_left_def)
      qed
    qed (use step_worker w [of W_Lock] w [of W_Blocked] in \<open>simp_all add: worker_loop_def work_left_def\<close>)
  next
    case (step_serve i e req now now' f r f' shard)
    with sum_list_map_update [of i "se_workers e" worker_rank W_Loop] show ?case
      by (simp add: se_reply_def work_left_def)
  qed simp_all
  with assms(1) show ?thesis by (auto simp: internal_step_def)
qed

text \<open>When no shard serves or holds a request, all of them are answered.\<close>

lemma idle_all_answered:
  assumes "se_inv t e" "\<forall>i < se_num_shards e. serving e i @ se_queues e ! i = []"
  shows "all_answered e"
  unfolding all_answered_def
proof (rule multiset_eqI)
  fix req :: request
  let ?i = "se_shard_id (se_num_shards e) (rq_key req)"
  have "?i < se_num_shards e" using assms(1) by (simp add: se_inv_def se_shape_def se_shard_id_less)
  then have "filter (belongs e ?i) (map fst (se_replies e)) = filter (belongs e ?i) (se_futures e)"
    using assms by (auto simp: se_inv_def se_fifo_def)
  then have "count (mset (filter (belongs e ?i) (map fst (se_replies e)))) req =
      count (mset (filter (belongs e ?i) (se_futures e))) req" by (rule arg_cong)
  then show "count (mset (map fst (se_replies e))) req = count (mset (se_futures e)) req"
    by (simp add: mset_filter belongs_def del: mset_map)
qed

text \<open>C7. Every request is answered: from every reachable state of a running engine, if no new request and
  no stop comes in between, every scheduling of the workers and of the outstanding notifications
  reaches, without a spurious wake-up, a state in which each request submitted has been answered
  exactly once.\<close>

theorem sharded_engine_answers_all:
  assumes "0 < n" "se_steps ls (f, se_new n limit policy f) (f', e)" "se_running e"
  shows "inevitable internal_step (\<lambda>(_, e'). all_answered e' \<and> se_futures e' = se_futures e) (f', e)"
proof (rule inevitable_measure [where m = "work_left \<circ> snd" and I = "\<lambda>s. \<exists>ls. se_steps ls (f, se_new n limit policy f) s \<and>
      se_running (snd s) \<and> se_futures (snd s) = se_futures e"])
  show "\<exists>ls. se_steps ls (f, se_new n limit policy f) (f', e) \<and> se_running (snd (f', e)) \<and>
      se_futures (snd (f', e)) = se_futures e" using assms(2,3) by auto
next
  fix s :: "fs \<times> sharded_engine"
  assume i: "\<exists>ls. se_steps ls (f, se_new n limit policy f) s \<and> se_running (snd s) \<and> se_futures (snd s) = se_futures e"
    and p: "\<not> (case s of (_, e') \<Rightarrow> all_answered e' \<and> se_futures e' = se_futures e)"
  obtain g e1 where s: "s = (g, e1)" by force
  from i s obtain ls where r: "se_steps ls (f, se_new n limit policy f) (g, e1)" "se_running e1" by auto
  note w = running_workers [OF assms(1) r]
  obtain i where j: "i < se_num_shards e1" "serving e1 i @ se_queues e1 ! i \<noteq> []"
    using idle_all_answered [OF se_reach_inv [OF assms(1) r(1)]] p i s by auto
  with w have "i < length (se_workers e1)" "se_workers e1 ! i \<noteq> W_Exited" by (simp, metis nth_mem)
  from request_wakeup_not_lost [OF assms(1) r(1) this(1) j(2) this(2)] show "\<exists>s'. internal_step s s'"
    unfolding s internal_step_def by blast
next
  fix s s' :: "fs \<times> sharded_engine"
  assume i: "\<exists>ls. se_steps ls (f, se_new n limit policy f) s \<and> se_running (snd s) \<and> se_futures (snd s) = se_futures e"
    and st: "internal_step s s'"
  obtain g e1 where s: "s = (g, e1)" by force
  from i s obtain ls where r: "se_steps ls (f, se_new n limit policy f) (g, e1)" "se_running e1" by auto
  have "length (se_workers e1) = length (se_queues e1)"
    using running_workers(2) [OF assms(1) r] se_reach_inv [OF assms(1) r(1)] by (simp add: se_inv_def se_shape_def)
  then have "se_running (snd s') \<and> se_futures (snd s') = se_futures (snd s) \<and> work_left (snd s') < work_left (snd s)"
    using internal_step_frame [OF st] r(2) s by simp
  moreover obtain l where "se_step l s s'" using st by (auto simp: internal_step_def)
  then have "se_steps (ls @ [l]) (f, se_new n limit policy f) s'" using r(1) s by (blast intro: steps_snoc)
  ultimately show "(case s' of (_, e') \<Rightarrow> all_answered e' \<and> se_futures e' = se_futures e) \<or>
      (\<exists>ls. se_steps ls (f, se_new n limit policy f) s' \<and> se_running (snd s') \<and> se_futures (snd s') = se_futures e) \<and>
      (work_left \<circ> snd) s' < (work_left \<circ> snd) s" using i by auto
qed

theorem sharded_engine_answers_all_witness:
  "inevitable internal_step (\<lambda>(_, e'). all_answered e' \<and> se_futures e' = [demo_set, demo_get])
     (wal_demo_fs, demo_engine W_Loop [demo_set, demo_get] [] (fresh_shard wal_demo_fs 9 LFU))"
proof -
  let ?e = "demo_engine W_Loop [demo_set, demo_get] [] (fresh_shard wal_demo_fs 9 LFU)"
  have "inevitable internal_step (\<lambda>(_, e'). all_answered e' \<and> se_futures e' = se_futures ?e) (wal_demo_fs, ?e)"
    by (rule sharded_engine_answers_all [OF _ demo_submitted]) (simp_all add: demo_engine_def)
  then show ?thesis by (simp add: demo_engine_def)
qed

end
