(* ===== verification/RESP.thy ===== *)
theory RESP
  imports KV_Prelude
begin

text \<open>
  The wire protocol: \<open>engine/include/resp.h\<close> and \<open>engine/src/resp.cpp\<close>. Values and their
  serialisation, the incremental parser with its states and buffer, the conversion of a value to a
  command, and the formatter. \<open>int64_t\<close> and \<open>size_t\<close> are 64-bit words where the code does
  arithmetic with them. The parser calls itself for the elements of an array, so its loop is a
  \<open>partial_function\<close>; that it always returns is a theorem. Whether \<open>vector::reserve\<close> can provide
  room for n elements is the parameter \<open>can_reserve\<close>; where it cannot, it throws.

  Two things are not modelled. The call for an array element nests, one C++ stack frame per level
  of nested array headers, and the stack is taken to be deep enough. The sum \<open>bulk_len_ + 2\<close> is
  signed arithmetic in the source; it overflows only for the two largest lengths, where the
  standard leaves the behaviour open and the model wraps around.
\<close>

section \<open>Values and serialisation\<close>

datatype resp_type = T_SimpleString | T_Error | T_Integer | T_BulkString | T_Array | T_NullBulkString

datatype resp_value =
  RESPValue (rv_type: resp_type) (rv_string: string) (rv_int: u64) (rv_array: "resp_value list")

definition resp_simple_string :: "string \<Rightarrow> resp_value" where
  "resp_simple_string s = RESPValue T_SimpleString s 0 []"

definition resp_error :: "string \<Rightarrow> resp_value" where
  "resp_error msg = RESPValue T_Error msg 0 []"

definition resp_integer :: "u64 \<Rightarrow> resp_value" where
  "resp_integer i = RESPValue T_Integer [] i []"

definition resp_bulk_string :: "string \<Rightarrow> resp_value" where
  "resp_bulk_string s = RESPValue T_BulkString s 0 []"

definition resp_null_bulk_string :: resp_value where
  "resp_null_bulk_string = RESPValue T_NullBulkString [] 0 []"

definition resp_array :: "resp_value list \<Rightarrow> resp_value" where
  "resp_array arr = RESPValue T_Array [] 0 arr"

lemmas resp_value_defs = resp_simple_string_def resp_error_def resp_integer_def
  resp_bulk_string_def resp_null_bulk_string_def resp_array_def

text \<open>Decimal output of \<open>ostringstream\<close>.\<close>

definition digit :: "nat \<Rightarrow> char" where
  "digit d = char_of (48 + d)"

fun dec_nat :: "nat \<Rightarrow> string" where
  "dec_nat n = (if n < 10 then [digit n] else dec_nat (n div 10) @ [digit (n mod 10)])"

declare dec_nat.simps [simp del]

definition dec_int :: "int \<Rightarrow> string" where
  "dec_int i = (if i < 0 then CHR ''-'' # dec_nat (nat (- i)) else dec_nat (nat i))"

definition CR :: char where
  "CR = CHR 0x0D"

definition LF :: char where
  "LF = CHR 0x0A"

definition crlf :: string where
  "crlf = [CR, LF]"

fun serialize :: "resp_value \<Rightarrow> string" where
  "serialize (RESPValue T_SimpleString s i a) = ''+'' @ s @ crlf"
| "serialize (RESPValue T_Error s i a) = ''-'' @ s @ crlf"
| "serialize (RESPValue T_Integer s i a) = '':'' @ dec_int (sint i) @ crlf"
| "serialize (RESPValue T_BulkString s i a) = ''$'' @ dec_nat (length s) @ crlf @ s @ crlf"
| "serialize (RESPValue T_NullBulkString s i a) = ''$-1'' @ crlf"
| "serialize (RESPValue T_Array s i a) = ''*'' @ dec_nat (length a) @ crlf @ concat (map serialize a)"

section \<open>The parser\<close>

datatype parser_state = S_Start | S_SimpleString | S_Error | S_Integer | S_BulkStringLen
  | S_BulkStringData | S_ArrayLen | S_ArrayElement

record resp_parser =
  rp_state :: parser_state
  rp_buffer :: string
  rp_bulk_len :: u64
  rp_bulk_read :: u64
  rp_array_len :: u64
  rp_array_elements :: "resp_value list"

definition resp_parser_new :: resp_parser where
  "resp_parser_new = \<lparr>rp_state = S_Start, rp_buffer = [], rp_bulk_len = 0, rp_bulk_read = 0,
     rp_array_len = 0, rp_array_elements = []\<rparr>"

definition rp_reset :: "resp_parser \<Rightarrow> resp_parser" where
  "rp_reset p = p\<lparr>rp_state := S_Start, rp_buffer := [], rp_bulk_len := 0, rp_bulk_read := 0,
     rp_array_len := 0, rp_array_elements := []\<rparr>"

definition is_clean :: "resp_parser \<Rightarrow> bool" where
  "is_clean p \<longleftrightarrow> rp_state p = S_Start"

fun find_crlf :: "string \<Rightarrow> nat option" where
  "find_crlf (c # d # s) = (if c = CR \<and> d = LF then Some 0 else map_option Suc (find_crlf (d # s)))"
| "find_crlf s = None"

definition read_line :: "resp_parser \<Rightarrow> string option \<times> resp_parser" where
  "read_line p =
     (case find_crlf (rp_buffer p) of
        None \<Rightarrow> (None, p)
      | Some pos \<Rightarrow> (Some (take pos (rp_buffer p)), p\<lparr>rp_buffer := drop (pos + 2) (rp_buffer p)\<rparr>))"

text \<open>\<open>std::stoll\<close> in base 10: leading white space, an optional sign, then the longest run of
  digits; what follows is ignored. None stands for the two exceptions, which are both caught.\<close>

definition is_space :: "char \<Rightarrow> bool" where
  "is_space c \<longleftrightarrow> c = CHR '' '' \<or> ((9::nat) \<le> of_char c \<and> of_char c \<le> (13::nat))"

definition is_digit :: "char \<Rightarrow> bool" where
  "is_digit c \<longleftrightarrow> (48::nat) \<le> of_char c \<and> of_char c \<le> (57::nat)"

definition digits_val :: "string \<Rightarrow> nat" where
  "digits_val ds = foldl (\<lambda>n c. 10 * n + (of_char c - 48)) 0 ds"

definition split_sign :: "string \<Rightarrow> bool \<times> string" where
  "split_sign s =
     (case s of [] \<Rightarrow> (False, [])
      | c # r \<Rightarrow> if c = CHR ''-'' then (True, r) else if c = CHR ''+'' then (False, r) else (False, s))"

definition parse_integer :: "string \<Rightarrow> u64 option" where
  "parse_integer s =
     (let (neg, r) = split_sign (dropWhile is_space s);
          ds = takeWhile is_digit r;
          v = (if neg then - int (digits_val ds) else int (digits_val ds))
      in if ds = [] then None
         else if - (2 ^ 63) \<le> v \<and> v < 2 ^ 63 then Some (word_of_int v) else None)"

text \<open>One pass of the loop ends in a return, or goes round again, or leaves with an exception.\<close>

datatype resp_exn = Length_error

datatype step_result = Return "resp_value option" resp_parser | Again resp_parser | Throw resp_exn

definition parse_start :: "resp_parser \<Rightarrow> step_result" where
  "parse_start p =
     (case rp_buffer p of
        [] \<Rightarrow> Return None p
      | c # s \<Rightarrow>
          (let p = p\<lparr>rp_buffer := s\<rparr>
           in if c = CHR ''+'' then Again (p\<lparr>rp_state := S_SimpleString\<rparr>)
              else if c = CHR ''-'' then Again (p\<lparr>rp_state := S_Error\<rparr>)
              else if c = CHR '':'' then Again (p\<lparr>rp_state := S_Integer\<rparr>)
              else if c = CHR ''$'' then Again (p\<lparr>rp_state := S_BulkStringLen\<rparr>)
              else if c = CHR ''*'' then Again (p\<lparr>rp_state := S_ArrayLen\<rparr>)
              else Return None (rp_reset p)))"

definition parse_simple_string :: "resp_parser \<Rightarrow> step_result" where
  "parse_simple_string p =
     (case read_line p of
        (None, p) \<Rightarrow> Return None p
      | (Some line, p) \<Rightarrow> Return (Some (resp_simple_string line)) (rp_reset p))"

definition parse_error :: "resp_parser \<Rightarrow> step_result" where
  "parse_error p =
     (case read_line p of
        (None, p) \<Rightarrow> Return None p
      | (Some line, p) \<Rightarrow> Return (Some (resp_error line)) (rp_reset p))"

definition parse_integer_state :: "resp_parser \<Rightarrow> step_result" where
  "parse_integer_state p =
     (case read_line p of
        (None, p) \<Rightarrow> Return None p
      | (Some line, p) \<Rightarrow>
          (case parse_integer line of
             None \<Rightarrow> Return None (rp_reset p)
           | Some num \<Rightarrow> Return (Some (resp_integer num)) (rp_reset p)))"

definition parse_bulk_len :: "resp_parser \<Rightarrow> step_result" where
  "parse_bulk_len p =
     (case read_line p of
        (None, p) \<Rightarrow> Return None p
      | (Some line, p) \<Rightarrow>
          (case parse_integer line of
             None \<Rightarrow> Return None (rp_reset p)
           | Some len \<Rightarrow>
               if len = -1 then Return (Some resp_null_bulk_string) (rp_reset p)
               else Again (p\<lparr>rp_bulk_len := len, rp_bulk_read := 0, rp_state := S_BulkStringData\<rparr>)))"

definition parse_bulk_data :: "resp_parser \<Rightarrow> step_result" where
  "parse_bulk_data p =
     (let needed = rp_bulk_len p + 2 - rp_bulk_read p
      in if length (rp_buffer p) < unat needed then Return None p
         else let data = take (unat (rp_bulk_len p)) (rp_buffer p);
                  p = p\<lparr>rp_buffer := drop (unat (rp_bulk_len p + 2)) (rp_buffer p)\<rparr>
              in Return (Some (resp_bulk_string data)) (rp_reset p))"

definition parse_array_len :: "(nat \<Rightarrow> bool) \<Rightarrow> resp_parser \<Rightarrow> step_result" where
  "parse_array_len can_reserve p =
     (case read_line p of
        (None, p) \<Rightarrow> Return None p
      | (Some line, p) \<Rightarrow>
          (case parse_integer line of
             None \<Rightarrow> Return None (rp_reset p)
           | Some len \<Rightarrow>
               if len <s 0 then Return None (rp_reset p)
               else let p = p\<lparr>rp_array_len := len, rp_array_elements := []\<rparr>
                    in if \<not> can_reserve (unat len) then Throw Length_error
                       else if len = 0 then Return (Some (resp_array [])) (rp_reset p)
                       else Again (p\<lparr>rp_state := S_ArrayElement\<rparr>)))"

text \<open>What the \<open>ArrayElement\<close> case does with the outcome of the call of \<open>parse\<close> it makes.\<close>

definition parse_array_element :: "resp_value option \<Rightarrow> resp_parser \<Rightarrow> step_result" where
  "parse_array_element elem p =
     (case elem of
        None \<Rightarrow> Return None (p\<lparr>rp_state := S_ArrayElement\<rparr>)
      | Some e \<Rightarrow>
          (let p = p\<lparr>rp_array_elements := rp_array_elements p @ [e]\<rparr>
           in if length (rp_array_elements p) = unat (rp_array_len p)
              then Return (Some (resp_array (rp_array_elements p))) (rp_reset p)
              else Again (p\<lparr>rp_state := S_ArrayElement\<rparr>)))"

definition parse_step :: "(nat \<Rightarrow> bool) \<Rightarrow> resp_parser \<Rightarrow> step_result" where
  "parse_step can_reserve p =
     (case rp_state p of
        S_Start \<Rightarrow> parse_start p
      | S_SimpleString \<Rightarrow> parse_simple_string p
      | S_Error \<Rightarrow> parse_error p
      | S_Integer \<Rightarrow> parse_integer_state p
      | S_BulkStringLen \<Rightarrow> parse_bulk_len p
      | S_BulkStringData \<Rightarrow> parse_bulk_data p
      | S_ArrayLen \<Rightarrow> parse_array_len can_reserve p
      | S_ArrayElement \<Rightarrow> Again p)"

partial_function (option) parse_loop :: "(nat \<Rightarrow> bool) \<Rightarrow> resp_parser \<Rightarrow>
    (resp_exn + resp_value option \<times> resp_parser) option" where
  "parse_loop can_reserve p =
     (if rp_buffer p = [] then Some (Inr (None, p))
      else Option.bind
        (if rp_state p = S_ArrayElement
         then Option.bind (parse_loop can_reserve (p\<lparr>rp_state := S_Start\<rparr>))
                (\<lambda>r. Some (case_sum Throw (\<lambda>(elem, p). parse_array_element elem p) r))
         else Some (parse_step can_reserve p))
        (\<lambda>r. case r of
           Return v p \<Rightarrow> Some (Inr (v, p))
         | Throw e \<Rightarrow> Some (Inl e)
         | Again p \<Rightarrow> parse_loop can_reserve p))"

definition parse :: "(nat \<Rightarrow> bool) \<Rightarrow> resp_parser \<Rightarrow> string \<Rightarrow>
    (resp_exn + resp_value option \<times> resp_parser) option" where
  "parse can_reserve p data = parse_loop can_reserve (p\<lparr>rp_buffer := rp_buffer p @ data\<rparr>)"

section \<open>Commands and replies\<close>

record resp_command =
  rc_command :: string
  rc_args :: "string list"

definition toupper :: "char \<Rightarrow> char" where
  "toupper c = (if (97::nat) \<le> of_char c \<and> of_char c \<le> (122::nat) then char_of (of_char c - (32::nat)) else c)"

fun command_args :: "resp_value list \<Rightarrow> string list option" where
  "command_args [] = Some []"
| "command_args (a # as) =
     (if rv_type a \<noteq> T_BulkString then None else map_option ((#) (rv_string a)) (command_args as))"

definition to_command :: "resp_value \<Rightarrow> resp_command option" where
  "to_command v =
     (if rv_type v \<noteq> T_Array then None
      else case rv_array v of
        [] \<Rightarrow> None
      | c # as \<Rightarrow>
          if rv_type c \<noteq> T_BulkString then None
          else map_option (\<lambda>args. \<lparr>rc_command = map toupper (rv_string c), rc_args = args\<rparr>) (command_args as))"

definition format_ok :: string where
  "format_ok = serialize (resp_simple_string ''OK'')"

definition format_error :: "string \<Rightarrow> string" where
  "format_error msg = serialize (resp_error msg)"

definition format_null :: string where
  "format_null = serialize resp_null_bulk_string"

definition format_string :: "string \<Rightarrow> string" where
  "format_string s = serialize (resp_bulk_string s)"

definition format_integer :: "u64 \<Rightarrow> string" where
  "format_integer i = serialize (resp_integer i)"

definition format_array :: "string list \<Rightarrow> string" where
  "format_array strings = serialize (resp_array (map resp_bulk_string strings))"

section \<open>Lines and numbers\<close>

lemma CR_LF [simp]: "CR \<noteq> LF" "LF \<noteq> CR"
  by (simp_all add: CR_def LF_def)

lemma find_crlf_append: "find_crlf s = Some n \<Longrightarrow> find_crlf (s @ r) = Some n \<and> n + 2 \<le> length s"
  by (induction s arbitrary: n rule: find_crlf.induct) (auto split: if_splits)

lemma find_crlf_line: "find_crlf s = None \<Longrightarrow> find_crlf (s @ crlf @ r) = Some (length s)"
  by (induction s rule: find_crlf.induct) (auto simp: crlf_def split: if_splits)

lemma find_crlf_split:
  "find_crlf s = Some n \<Longrightarrow> s = take n s @ crlf @ drop (n + 2) s \<and> find_crlf (take n s) = None"
proof (induction s arbitrary: n rule: find_crlf.induct)
  case (1 c d s)
  show ?case
  proof (cases "c = CR \<and> d = LF")
    case False
    with 1 obtain m where m: "n = Suc m" "find_crlf (d # s) = Some m" by auto
    note IH = 1(1) [OF False m(2)]
    then have "drop m (d # s) = crlf @ drop (m + 2) (d # s)"
      by (metis append_take_drop_id same_append_eq)
    with conjunct2 [OF IH] False m(1) show ?thesis
      by (cases m) (auto simp: crlf_def, (metis append_take_drop_id)+)
  qed (use 1 in \<open>auto simp: crlf_def\<close>)
qed simp_all

lemma find_crlf_none: "CR \<notin> set s \<Longrightarrow> find_crlf s = None"
  by (induction s rule: find_crlf.induct) auto

lemma line_unique:
  assumes "s @ crlf @ r = s' @ crlf @ r'" "find_crlf s = None" "find_crlf s' = None"
  shows "s = s' \<and> r = r'"
proof -
  have "length s = length s'"
    using find_crlf_line [OF assms(2), of r] find_crlf_line [OF assms(3), of r'] assms(1) by simp
  with assms(1) show ?thesis by simp
qed

lemma read_line_cases:
  obtains (none) "read_line p = (None, p)" "find_crlf (rp_buffer p) = None"
  | (line) n where "find_crlf (rp_buffer p) = Some n"
      "read_line p = (Some (take n (rp_buffer p)), p\<lparr>rp_buffer := drop (n + 2) (rp_buffer p)\<rparr>)"
      "n + 2 \<le> length (rp_buffer p)"
proof (cases "find_crlf (rp_buffer p)")
  case (Some n)
  with line [OF Some] find_crlf_append [OF Some] show ?thesis by (simp add: read_line_def)
qed (simp add: none read_line_def)

lemma of_char_digit: "d < 10 \<Longrightarrow> of_char (digit d) = 48 + d"
  by (simp add: digit_def)

lemma dec_nat_digits: "dec_nat n \<noteq> [] \<and> (\<forall>c \<in> set (dec_nat n). is_digit c)"
proof (induction n rule: less_induct)
  case (less n)
  show ?case
  proof (cases "n < 10")
    case False
    with less.IH [of "n div 10"] show ?thesis
      by (auto simp: dec_nat.simps [of n] is_digit_def of_char_digit)
  qed (simp add: dec_nat.simps [of n] is_digit_def of_char_digit)
qed

lemma digits_val_dec_nat: "digits_val (dec_nat n) = n"
proof (induction n rule: less_induct)
  case (less n)
  show ?case
  proof (cases "n < 10")
    case False
    with less.IH [of "n div 10"] show ?thesis
      by (simp add: dec_nat.simps [of n] digits_val_def of_char_digit)
  qed (simp add: dec_nat.simps [of n] digits_val_def of_char_digit)
qed

lemma digit_chars:
  assumes "is_digit c"
  shows "\<not> is_space c" "c \<noteq> CHR ''-''" "c \<noteq> CHR ''+''" "c \<noteq> CR"
  using assms by (auto simp: is_digit_def is_space_def CR_def)

lemma dec_int_no_crlf: "find_crlf (dec_int i) = None" "find_crlf (dec_nat n) = None"
proof -
  have d: "CR \<notin> set (dec_nat n)" for n using dec_nat_digits [of n] digit_chars(4) by blast
  then show "find_crlf (dec_nat n) = None" by (rule find_crlf_none)
  have "CR \<notin> set (dec_int i)" using d by (auto simp: dec_int_def CR_def)
  then show "find_crlf (dec_int i) = None" by (rule find_crlf_none)
qed

lemma split_sign_dec_int:
  "split_sign (dropWhile is_space (dec_int i)) = (i < 0, dec_nat (nat \<bar>i\<bar>))"
proof (cases "i < 0")
  case True
  then show ?thesis by (simp add: dec_int_def split_sign_def is_space_def)
next
  case False
  obtain c r where c: "dec_nat (nat i) = c # r" "is_digit c"
    using dec_nat_digits [of "nat i"] by (cases "dec_nat (nat i)") auto
  with False digit_chars [OF c(2)] show ?thesis by (simp add: dec_int_def split_sign_def)
qed

lemma parse_integer_dec_int:
  assumes "- (2 ^ 63) \<le> i" "i < 2 ^ 63"
  shows "parse_integer (dec_int i) = Some (word_of_int i)"
proof -
  have t: "takeWhile is_digit (dec_nat n) = dec_nat n" for n
    using dec_nat_digits [of n] by (simp add: takeWhile_eq_all_conv)
  show ?thesis
    using assms dec_nat_digits [of "nat \<bar>i\<bar>"]
    by (simp add: parse_integer_def split_sign_dec_int t digits_val_dec_nat Let_def)
qed

lemma dec_int_nat: "dec_int (int n) = dec_nat n"
  by (simp add: dec_int_def)

section \<open>The loop\<close>

abbreviation feed :: "resp_parser \<Rightarrow> string \<Rightarrow> resp_parser" where
  "feed p ys \<equiv> p\<lparr>rp_buffer := rp_buffer p @ ys\<rparr>"

lemma rp_reset_new [simp]: "rp_reset p = resp_parser_new"
  by (simp add: rp_reset_def resp_parser_new_def)

lemma parse_loop_empty [simp]: "rp_buffer p = [] \<Longrightarrow> parse_loop ok p = Some (Inr (None, p))"
  by (simp add: parse_loop.simps)

lemma parse_loop_step:
  assumes "rp_buffer p \<noteq> []" "rp_state p \<noteq> S_ArrayElement"
  shows "parse_loop ok p =
    (case parse_step ok p of Return v q \<Rightarrow> Some (Inr (v, q)) | Throw e \<Rightarrow> Some (Inl e)
     | Again q \<Rightarrow> parse_loop ok q)"
  using assms by (subst parse_loop.simps) simp

lemma parse_loop_element:
  assumes "rp_buffer p \<noteq> []" "rp_state p = S_ArrayElement"
    and "parse_loop ok (p\<lparr>rp_state := S_Start\<rparr>) = Some (Inr (elem, q))"
  shows "parse_loop ok p =
    (case parse_array_element elem q of Return v q \<Rightarrow> Some (Inr (v, q)) | Throw e \<Rightarrow> Some (Inl e)
     | Again q \<Rightarrow> parse_loop ok q)"
  using assms by (subst parse_loop.simps) simp

lemma parse_loop_element_throw:
  assumes "rp_buffer p \<noteq> []" "rp_state p = S_ArrayElement"
    and "parse_loop ok (p\<lparr>rp_state := S_Start\<rparr>) = Some (Inl e)"
  shows "parse_loop ok p = Some (Inl e)"
  using assms by (subst parse_loop.simps) simp

lemmas parse_state_defs = parse_start_def parse_simple_string_def parse_error_def
  parse_integer_state_def parse_bulk_len_def parse_bulk_data_def parse_array_len_def

text \<open>A pass of the loop outside \<open>ArrayElement\<close>: it consumes input, or returns a value and a clean
  parser, or rejects the input with a clean parser, or keeps everything and waits for more.\<close>

text \<open>\<open>announced p n\<close>: somewhere in the buffer of p there is an array header with length n, that is a
  line behind an asterisk (or at the front, if the parser has already taken the asterisk) which
  reads as the non-negative integer n. \<open>remains q p\<close>: q holds what is left of the input of p.\<close>

definition announced :: "resp_parser \<Rightarrow> nat \<Rightarrow> bool" where
  "announced p n \<longleftrightarrow>
     (\<exists>pre line rest len. rp_buffer p = pre @ line @ crlf @ rest \<and>
        (if pre = [] then rp_state p = S_ArrayLen else last pre = CHR ''*'') \<and>
        find_crlf line = None \<and> parse_integer line = Some len \<and> \<not> len <s 0 \<and> n = unat len)"

definition remains :: "resp_parser \<Rightarrow> resp_parser \<Rightarrow> bool" where
  "remains q p \<longleftrightarrow>
     (\<exists>a. rp_buffer p = a @ rp_buffer q \<and>
        (rp_state q = S_ArrayLen \<longrightarrow> (if a = [] then rp_state p = S_ArrayLen else last a = CHR ''*'')))"

lemma remains_refl [simp]: "remains p p"
  by (simp add: remains_def)

lemma remains_trans: "remains r q \<Longrightarrow> remains q p \<Longrightarrow> remains r p"
  unfolding remains_def by (elim exE conjE, rule_tac x = "aa @ a" in exI) (auto split: if_splits)

lemma remains_new [simp]: "remains resp_parser_new p"
  by (simp add: remains_def resp_parser_new_def)

lemma remains_feed: "remains q p \<Longrightarrow> remains (feed q ys) (feed p ys)"
  unfolding remains_def by (elim exE conjE, rule_tac x = a in exI) simp

lemma remains_announced:
  assumes "remains q p" "announced q n"
  shows "announced p n"
proof -
  obtain a where a: "rp_buffer p = a @ rp_buffer q"
      "rp_state q = S_ArrayLen \<longrightarrow> (if a = [] then rp_state p = S_ArrayLen else last a = CHR ''*'')"
    using assms(1) unfolding remains_def by blast
  obtain pre line rest len where b: "rp_buffer q = pre @ line @ crlf @ rest"
      "if pre = [] then rp_state q = S_ArrayLen else last pre = CHR ''*''"
      "find_crlf line = None" "parse_integer line = Some len" "\<not> len <s 0" "n = unat len"
    using assms(2) unfolding announced_def by blast
  have "if a @ pre = [] then rp_state p = S_ArrayLen else last (a @ pre) = CHR ''*''"
    using a(2) b(2) by (simp split: if_splits)
  with a(1) b show ?thesis
    unfolding announced_def
    by (intro exI [of _ "a @ pre"] exI [of _ line] exI [of _ rest] exI [of _ len]) simp
qed

lemma announced_feed:
  assumes "announced p n"
  shows "announced (feed p ys) n"
proof -
  obtain pre line rest len where "rp_buffer p = pre @ line @ crlf @ rest"
      "if pre = [] then rp_state p = S_ArrayLen else last pre = CHR ''*''"
      "find_crlf line = None" "parse_integer line = Some len" "\<not> len <s 0" "n = unat len"
    using assms unfolding announced_def by blast
  then show ?thesis
    unfolding announced_def
    by (intro exI [of _ pre] exI [of _ line] exI [of _ "rest @ ys"] exI [of _ len]) simp
qed

lemma remains_drop: "rp_state q \<noteq> S_ArrayLen \<Longrightarrow> rp_buffer q = drop n (rp_buffer p) \<Longrightarrow> remains q p"
  unfolding remains_def by (rule exI [of _ "take n (rp_buffer p)"]) simp

definition step_outcome :: "(nat \<Rightarrow> bool) \<Rightarrow> resp_parser \<Rightarrow> step_result \<Rightarrow> bool" where
  "step_outcome ok p r \<longleftrightarrow>
     (case r of
        Return None q \<Rightarrow> q = resp_parser_new \<or> q = p
      | Return (Some v) q \<Rightarrow> q = resp_parser_new \<and> rv_array v = []
      | Again q \<Rightarrow> length (rp_buffer q) < length (rp_buffer p) \<and> remains q p
      | Throw e \<Rightarrow> \<exists>n. announced p n \<and> \<not> ok n)"

lemma announced_line:
  assumes "rp_state p = S_ArrayLen" "find_crlf (rp_buffer p) = Some n"
    and "parse_integer (take n (rp_buffer p)) = Some len" "\<not> len <s 0"
  shows "announced p (unat len)"
  unfolding announced_def using find_crlf_split [OF assms(2)] assms
  by (intro exI [of _ "[]"] exI [of _ "take n (rp_buffer p)"] exI [of _ "drop (n + 2) (rp_buffer p)"]
      exI [of _ len]) simp

lemma read_line_outcome:
  assumes "\<And>n q. find_crlf (rp_buffer p) = Some n \<Longrightarrow> n + 2 \<le> length (rp_buffer p) \<Longrightarrow>
      q = p\<lparr>rp_buffer := drop (n + 2) (rp_buffer p)\<rparr> \<Longrightarrow> step_outcome ok p (f (take n (rp_buffer p)) q)"
  shows "step_outcome ok p (case read_line p of (None, q) \<Rightarrow> Return None q | (Some line, q) \<Rightarrow> f line q)"
proof (rule read_line_cases [of p])
  fix n assume *: "find_crlf (rp_buffer p) = Some n"
    "read_line p = (Some (take n (rp_buffer p)), p\<lparr>rp_buffer := drop (n + 2) (rp_buffer p)\<rparr>)"
    "n + 2 \<le> length (rp_buffer p)"
  from assms [OF *(1,3) refl] *(2) show ?thesis by simp
qed (simp add: step_outcome_def)

lemma parse_start_outcome:
  assumes "rp_buffer p \<noteq> []"
  shows "step_outcome ok p (parse_start p)"
proof -
  obtain c s where b: "rp_buffer p = c # s" using assms by (cases "rp_buffer p") auto
  have "remains (p\<lparr>rp_buffer := s, rp_state := st\<rparr>) p" if "st = S_ArrayLen \<longrightarrow> c = CHR ''*''" for st
    using that b by (auto simp: remains_def)
  with b show ?thesis by (simp add: parse_start_def step_outcome_def Let_def)
qed

lemma parse_step_outcome:
  assumes "rp_buffer p \<noteq> []" "rp_state p \<noteq> S_ArrayElement"
  shows "step_outcome ok p (parse_step ok p)"
proof (cases "rp_state p")
  case S_Start
  with parse_start_outcome [OF assms(1)] show ?thesis by (simp add: parse_step_def)
next
  case S_BulkStringData
  then show ?thesis
    by (simp add: parse_step_def parse_bulk_data_def step_outcome_def resp_bulk_string_def Let_def)
next
  case S_ArrayElement
  with assms(2) show ?thesis by simp
next
  case S_ArrayLen
  then show ?thesis
    by (simp add: parse_step_def parse_array_len_def; intro read_line_outcome;
        auto simp: step_outcome_def resp_value_defs Let_def intro: announced_line remains_drop
          split: option.split)
qed (simp add: parse_step_def parse_state_defs; intro read_line_outcome;
    auto simp: step_outcome_def resp_value_defs Let_def intro: remains_drop split: option.split)+

lemma parse_step_cases:
  assumes "rp_buffer p \<noteq> []" "rp_state p \<noteq> S_ArrayElement"
  obtains (result) v where "parse_step ok p = Return (Some v) resp_parser_new" "rv_array v = []"
  | (reject) "parse_step ok p = Return None resp_parser_new"
  | (wait) "parse_step ok p = Return None p"
  | (again) q where "parse_step ok p = Again q" "length (rp_buffer q) < length (rp_buffer p)" "remains q p"
  | (throw) e n where "parse_step ok p = Throw e" "announced p n" "\<not> ok n"
  using parse_step_outcome [OF assms, of ok] that
  by (auto simp: step_outcome_def split: step_result.splits option.splits)

text \<open>Lengths of bulk strings. A negative length other than -1 is taken as it comes, and the
  arithmetic on it wraps around.\<close>

definition bulk_header_ok :: "string \<Rightarrow> bool" where
  "bulk_header_ok s \<longleftrightarrow>
     (case find_crlf s of
        None \<Rightarrow> True
      | Some n \<Rightarrow> (case parse_integer (take n s) of None \<Rightarrow> True | Some len \<Rightarrow> len = -1 \<or> 0 \<le>s len))"

definition stream_ok :: "string \<Rightarrow> bool" where
  "stream_ok s \<longleftrightarrow> (s \<noteq> [] \<and> hd s = CHR ''$'' \<longrightarrow> bulk_header_ok (tl s))"

definition parser_ok :: "resp_parser \<Rightarrow> bool" where
  "parser_ok p \<longleftrightarrow>
     (case rp_state p of
        S_Start \<Rightarrow> stream_ok (rp_buffer p)
      | S_BulkStringLen \<Rightarrow> bulk_header_ok (rp_buffer p)
      | S_BulkStringData \<Rightarrow> rp_bulk_read p = 0 \<and> 0 \<le>s rp_bulk_len p
      | S_ArrayElement \<Rightarrow> False
      | _ \<Rightarrow> True)"

lemma bulk_header_ok_append: "bulk_header_ok (s @ r) \<Longrightarrow> bulk_header_ok s"
  by (auto simp: bulk_header_ok_def dest: find_crlf_append [of s _ r] split: option.splits)

lemma parser_ok_feed: "parser_ok (feed p ys) \<Longrightarrow> parser_ok p"
  by (auto simp: parser_ok_def stream_ok_def dest: bulk_header_ok_append split: parser_state.splits)

lemma parser_ok_step:
  assumes "parser_ok p" "parse_step ok p = Again q"
  shows "parser_ok q \<or> rp_state q = S_ArrayElement"
proof (cases "rp_state p")
  case S_Start
  with assms show ?thesis
    by (auto simp: parse_step_def parse_start_def parser_ok_def stream_ok_def Let_def
        split: list.splits if_splits)
next
  case S_BulkStringLen
  with assms show ?thesis
    by (auto simp: parse_step_def parse_bulk_len_def parser_ok_def bulk_header_ok_def read_line_def
        split: option.splits if_splits)
next
  case S_BulkStringData
  with assms(2) show ?thesis by (simp add: parse_step_def parse_bulk_data_def Let_def split: if_splits)
next
  case S_ArrayLen
  with assms(2) show ?thesis
    by (auto simp: parse_step_def parse_array_len_def Let_def split: option.splits if_splits prod.splits)
next
  case S_ArrayElement
  with assms(2) show ?thesis by (simp add: parse_step_def)
qed (use assms(2) in \<open>auto simp: parse_step_def parse_state_defs split: option.splits prod.splits\<close>)

lemma unat_bulk_needed: "0 \<le>s (n::u64) \<Longrightarrow> unat (n + 2) = unat n + 2"
proof -
  assume "0 \<le>s n"
  then have "0 \<le> sint n" by (simp add: word_sle_eq)
  moreover have "sint n < 2 ^ 63" using sint_lt [of n] by simp
  ultimately have "uint n < 2 ^ 63" by (simp add: uint_sint take_bit_eq_mod)
  then have "int (unat n) < int (2 ^ 63)" by simp
  then have "unat n < 2 ^ 63" by (simp only: of_nat_less_iff)
  then have "unat n + 2 < 2 ^ 64" by simp
  moreover have "unat (2::u64) = 2" by simp
  ultimately show ?thesis by (simp only: unat_word_ariths(1) len_bit0 len_num1) simp
qed

text \<open>Outside \<open>ArrayElement\<close>, input that arrives early only matters to a pass that waits.\<close>

lemma line_step_feed:
  assumes "\<And>line q. step line (feed q ys) = (case step line q of Again r \<Rightarrow> Again (feed r ys) | r \<Rightarrow> r)"
    and "(case read_line p of (None, q) \<Rightarrow> Return None q | (Some line, q) \<Rightarrow> step line q) \<noteq> Return None p"
  shows "(case read_line (feed p ys) of (None, q) \<Rightarrow> Return None q | (Some line, q) \<Rightarrow> step line q) =
    (case (case read_line p of (None, q) \<Rightarrow> Return None q | (Some line, q) \<Rightarrow> step line q) of
       Again r \<Rightarrow> Again (feed r ys) | r \<Rightarrow> r)"
proof (rule read_line_cases [of p])
  fix n assume *: "find_crlf (rp_buffer p) = Some n"
    "read_line p = (Some (take n (rp_buffer p)), p\<lparr>rp_buffer := drop (n + 2) (rp_buffer p)\<rparr>)"
    "n + 2 \<le> length (rp_buffer p)"
  then have "read_line (feed p ys) =
      (Some (take n (rp_buffer p)), feed (p\<lparr>rp_buffer := drop (n + 2) (rp_buffer p)\<rparr>) ys)"
    using find_crlf_append [OF *(1), of ys] by (simp add: read_line_def)
  with assms(1) [of "take n (rp_buffer p)" "p\<lparr>rp_buffer := drop (n + 2) (rp_buffer p)\<rparr>"] *(2)
  show ?thesis by simp
qed (use assms(2) in simp)

lemma parse_step_feed:
  assumes "rp_buffer p \<noteq> []" "parser_ok p" "parse_step ok p \<noteq> Return None p"
  shows "parse_step ok (feed p ys) =
    (case parse_step ok p of Again q \<Rightarrow> Again (feed q ys) | r \<Rightarrow> r)"
proof (cases "rp_state p")
  case S_Start
  with assms(1) show ?thesis
    by (auto simp: parse_step_def parse_start_def Let_def split: list.splits)
next
  case S_BulkStringData
  with assms(2) have "unat (rp_bulk_len p + 2 - rp_bulk_read p) = unat (rp_bulk_len p) + 2"
    by (simp add: parser_ok_def unat_bulk_needed)
  moreover from this S_BulkStringData assms(3) have "unat (rp_bulk_len p) + 2 \<le> length (rp_buffer p)"
    by (auto simp: parse_step_def parse_bulk_data_def Let_def split: if_splits)
  ultimately show ?thesis
    using S_BulkStringData by (simp add: parse_step_def parse_bulk_data_def Let_def)
next
  case S_ArrayElement
  with assms(2) show ?thesis by (simp add: parser_ok_def)
next
  case S_SimpleString
  then have eq: "parse_step ok q = parse_simple_string q" if "rp_state q = rp_state p" for q
    using that by (simp add: parse_step_def)
  show ?thesis
    using assms(3) unfolding eq [OF refl] eq [of "feed p ys", simplified] parse_simple_string_def
    by (rule line_step_feed [rotated]) (simp add: Let_def split: option.split)
next
  case S_Error
  then have eq: "parse_step ok q = parse_error q" if "rp_state q = rp_state p" for q
    using that by (simp add: parse_step_def)
  show ?thesis
    using assms(3) unfolding eq [OF refl] eq [of "feed p ys", simplified] parse_error_def
    by (rule line_step_feed [rotated]) (simp add: Let_def split: option.split)
next
  case S_Integer
  then have eq: "parse_step ok q = parse_integer_state q" if "rp_state q = rp_state p" for q
    using that by (simp add: parse_step_def)
  show ?thesis
    using assms(3) unfolding eq [OF refl] eq [of "feed p ys", simplified] parse_integer_state_def
    by (rule line_step_feed [rotated]) (simp add: Let_def split: option.split)
next
  case S_BulkStringLen
  then have eq: "parse_step ok q = parse_bulk_len q" if "rp_state q = rp_state p" for q
    using that by (simp add: parse_step_def)
  show ?thesis
    using assms(3) unfolding eq [OF refl] eq [of "feed p ys", simplified] parse_bulk_len_def
    by (rule line_step_feed [rotated]) (simp add: Let_def split: option.split)
next
  case S_ArrayLen
  then have eq: "parse_step ok q = parse_array_len ok q" if "rp_state q = rp_state p" for q
    using that by (simp add: parse_step_def)
  show ?thesis
    using assms(3) unfolding eq [OF refl] eq [of "feed p ys", simplified] parse_array_len_def
    by (rule line_step_feed [rotated]) (simp add: Let_def split: option.split)
qed

text \<open>What a call can end in. A value always comes with a clean parser and no elements, a call that
  starts among the elements of an array never ends in a value, and an exception is due to a length
  that the input announces.\<close>

definition loop_outcome :: "(nat \<Rightarrow> bool) \<Rightarrow> resp_parser \<Rightarrow> resp_exn + resp_value option \<times> resp_parser \<Rightarrow> bool" where
  "loop_outcome ok p r \<longleftrightarrow>
     (case r of
        Inl e \<Rightarrow> \<exists>n. announced p n \<and> \<not> ok n
      | Inr (None, q) \<Rightarrow> remains q p \<and> (rp_state p = S_ArrayElement \<longrightarrow> rp_state q = S_ArrayElement)
      | Inr (Some v, q) \<Rightarrow> rp_state p \<noteq> S_ArrayElement \<and> q = resp_parser_new \<and> rv_array v = [])"

lemma remains_Start: "remains (p\<lparr>rp_state := S_Start\<rparr>) p"
  by (simp add: remains_def)

lemma remains_Element: "remains q p \<Longrightarrow> remains (q\<lparr>rp_state := S_ArrayElement\<rparr>) p"
  unfolding remains_def by (elim exE conjE, rule_tac x = a in exI) simp

lemma parse_element_outcome:
  assumes "rp_buffer p \<noteq> []" "rp_state p = S_ArrayElement"
    and "parse_loop ok (p\<lparr>rp_state := S_Start\<rparr>) = Some r" "loop_outcome ok (p\<lparr>rp_state := S_Start\<rparr>) r"
  shows "\<exists>r. parse_loop ok p = Some r \<and> loop_outcome ok p r"
proof (cases r)
  case (Inl e)
  then obtain n where "announced p n" "\<not> ok n"
    using assms(4) remains_announced [OF remains_Start] by (auto simp: loop_outcome_def)
  with Inl parse_loop_element_throw [OF assms(1,2)] assms(3) show ?thesis by (auto simp: loop_outcome_def)
next
  case (Inr s)
  obtain elem q where s: "s = (elem, q)" by force
  note el = parse_loop_element [OF assms(1,2), of ok elem q]
  show ?thesis
  proof (cases elem)
    case None
    with assms(4) Inr s have "remains q (p\<lparr>rp_state := S_Start\<rparr>)" by (simp add: loop_outcome_def)
    then have "remains (q\<lparr>rp_state := S_ArrayElement\<rparr>) p"
      by (rule remains_Element [OF remains_trans [OF _ remains_Start]])
    with None el assms(3) Inr s show ?thesis by (simp add: parse_array_element_def loop_outcome_def)
  next
    case (Some v)
    with assms(4) Inr s have "q = resp_parser_new" by (simp add: loop_outcome_def)
    with el assms(3) Inr s Some show ?thesis
      by (simp add: parse_array_element_def loop_outcome_def resp_parser_new_def remains_def assms(2))
  qed
qed

lemma loop_outcome_again:
  assumes "loop_outcome ok q r" "remains q p" "rp_state p \<noteq> S_ArrayElement"
  shows "loop_outcome ok p r"
  using assms remains_trans [OF _ assms(2)] remains_announced [OF assms(2)]
  by (auto simp: loop_outcome_def split: sum.splits option.splits)

lemma parse_loop_outcome: "\<exists>r. parse_loop ok p = Some r \<and> loop_outcome ok p r"
proof (induction p rule: measure_induct_rule [where
      f = "\<lambda>p. 2 * length (rp_buffer p) + (if rp_state p = S_ArrayElement then 1 else 0)"])
  case (less p)
  show ?case
  proof (cases "rp_buffer p = []")
    case True
    then show ?thesis by (simp add: loop_outcome_def)
  next
    case b: False
    show ?thesis
    proof (cases "rp_state p = S_ArrayElement")
      case True
      with less.IH [of "p\<lparr>rp_state := S_Start\<rparr>"] parse_element_outcome [OF b True] show ?thesis by auto
    next
      case False
      note st = parse_loop_step [OF b False, of ok]
      from b False show ?thesis
      proof (cases rule: parse_step_cases [of p ok])
        case (again q)
        then have "2 * length (rp_buffer q) + (if rp_state q = S_ArrayElement then 1 else 0) <
            2 * length (rp_buffer p) + (if rp_state p = S_ArrayElement then 1 else 0)" by auto
        from less.IH [OF this] obtain r where "parse_loop ok q = Some r" "loop_outcome ok q r" by blast
        with again(1) st loop_outcome_again [OF _ again(3) False] show ?thesis by auto
      qed (use st False in \<open>auto simp: loop_outcome_def\<close>)
    qed
  qed
qed

text \<open>The split of a stream into reads.\<close>

lemma parse_loop_feed:
  assumes "parser_ok (feed p ys)" "parse_loop ok (feed p ys) = Some (Inr (Some v, q))"
  shows "parse_loop ok p = Some (Inr (Some v, q)) \<or>
    (\<exists>p'. parse_loop ok p = Some (Inr (None, p')) \<and> parse_loop ok (feed p' ys) = Some (Inr (Some v, q)))"
  using assms
proof (induction p rule: measure_induct_rule [where f = "\<lambda>p. length (rp_buffer p)"])
  case (less p)
  note ok = parser_ok_feed [OF less.prems(1)]
  have na: "rp_state p \<noteq> S_ArrayElement" using ok by (auto simp: parser_ok_def)
  show ?case
  proof (cases "rp_buffer p = [] \<or> parse_step ok p = Return None p")
    case True
    then have "parse_loop ok p = Some (Inr (None, p))"
      using parse_loop_step [OF _ na, of ok] by (cases "rp_buffer p = []") auto
    with less.prems(2) show ?thesis by blast
  next
    case False
    then have b: "rp_buffer p \<noteq> []" by blast
    have st: "parse_loop ok (feed p ys) = (case parse_step ok p of Return v q \<Rightarrow> Some (Inr (v, q))
        | Throw e \<Rightarrow> Some (Inl e) | Again q \<Rightarrow> parse_loop ok (feed q ys))"
      using parse_loop_step [of "feed p ys" ok] parse_step_feed [OF b ok, of ok ys] False b na
      by (simp split: step_result.splits)
    note sp = parse_loop_step [OF b na, of ok]
    show ?thesis
    proof (cases "parse_step ok p")
      case (Again q')
      have l: "length (rp_buffer q') < length (rp_buffer p)"
        using parse_step_outcome [OF b na, of ok] Again by (simp add: step_outcome_def)
      have pl: "parse_loop ok (feed q' ys) = Some (Inr (Some v, q))"
        using st less.prems(2) Again by simp
      have "parse_step ok (feed p ys) = Again (feed q' ys)"
        using parse_step_feed [OF b ok, of ok ys] False Again by simp
      from parser_ok_step [OF less.prems(1) this]
      have "parser_ok (feed q' ys)"
        using parse_loop_outcome [of ok "feed q' ys"] pl by (auto simp: loop_outcome_def)
      from less.IH [OF l this pl] sp Again show ?thesis by simp
    qed (use st sp less.prems(2) in auto)
  qed
qed

section \<open>Well-formed values\<close>

text \<open>What the static constructors build, from strings that the format can carry.\<close>

fun resp_ok :: "resp_value \<Rightarrow> bool" where
  "resp_ok (RESPValue t s i a) \<longleftrightarrow>
     (case t of
        T_SimpleString \<Rightarrow> find_crlf s = None \<and> i = 0 \<and> a = []
      | T_Error \<Rightarrow> find_crlf s = None \<and> i = 0 \<and> a = []
      | T_Integer \<Rightarrow> s = [] \<and> a = []
      | T_BulkString \<Rightarrow> length s < 2 ^ 63 - 2 \<and> i = 0 \<and> a = []
      | T_NullBulkString \<Rightarrow> s = [] \<and> i = 0 \<and> a = []
      | T_Array \<Rightarrow> s = [] \<and> i = 0 \<and> list_all resp_ok a)"

lemma read_line_line:
  "rp_buffer p = s @ crlf @ r \<Longrightarrow> find_crlf s = None \<Longrightarrow>
    read_line p = (Some s, p\<lparr>rp_buffer := r\<rparr>)"
  by (simp add: read_line_def find_crlf_line) (simp add: crlf_def)

lemma parse_loop_start:
  assumes "rp_state p = S_Start" "rp_buffer p = c # s" "parse_start p = Again q"
  shows "parse_loop ok p = parse_loop ok q"
  using assms parse_loop_step [of p ok] by (simp add: parse_step_def)

lemma crlf_not_Nil [simp]: "crlf \<noteq> []"
  by (simp add: crlf_def)

lemma word_of_int_sint [simp]: "word_of_int (sint (w::u64)) = w"
  by simp

lemma sint_range: "- (2 ^ 63) \<le> sint (w::u64)" "sint w < 2 ^ 63"
  using sint_ge [of w] sint_lt [of w] by simp_all

lemma parse_bulk:
  assumes "length s < 2 ^ 63 - 2" "rp_state p = S_BulkStringLen"
    and "rp_buffer p = dec_nat (length s) @ crlf @ s @ crlf @ rest"
  shows "parse_loop ok p = Some (Inr (Some (resp_bulk_string s), resp_parser_new))"
proof -
  let ?n = "word_of_nat (length s) :: u64"
  let ?q = "p\<lparr>rp_buffer := s @ crlf @ rest, rp_bulk_len := ?n, rp_bulk_read := 0,
    rp_state := S_BulkStringData\<rparr>"
  have u: "unat ?n = length s" using assms(1) by (simp add: unat_of_nat)
  have "parse_integer (dec_nat (length s)) = Some ?n"
    using parse_integer_dec_int [of "int (length s)"] assms(1) by (simp add: dec_int_nat)
  moreover have "?n \<noteq> -1"
  proof
    assume "?n = -1"
    then have "unat ?n = 2 ^ 64 - 1" by (simp add: unsigned_minus_1_eq_mask mask_eq_exp_minus_1)
    with u assms(1) show False by simp
  qed
  moreover have "read_line p = (Some (dec_nat (length s)), p\<lparr>rp_buffer := s @ crlf @ rest\<rparr>)"
    by (rule read_line_line [OF assms(3) dec_int_no_crlf(2)])
  ultimately have "parse_step ok p = Again ?q"
    using assms(2) by (simp add: parse_step_def parse_bulk_len_def)
  moreover have "unat (?n + 2) = length s + 2"
    using u assms(1) by (simp add: unat_word_ariths)
  then have "parse_step ok ?q = Return (Some (resp_bulk_string s)) resp_parser_new"
    using u by (simp add: parse_step_def parse_bulk_data_def crlf_def)
  ultimately show ?thesis
    using parse_loop_step [of p ok] parse_loop_step [of ?q ok] assms(2,3) by simp
qed

lemma parse_scalar:
  assumes "resp_ok v" "rv_type v \<noteq> T_Array"
  shows "parse ok resp_parser_new (serialize v @ rest) = Some (Inr (Some v, resp_parser_new))"
proof -
  obtain t s i a where v: "v = RESPValue t s i a" by (cases v)
  let ?p = "\<lambda>st buf. resp_parser_new\<lparr>rp_state := st, rp_buffer := buf\<rparr>"
  have p: "parse ok resp_parser_new x = parse_loop ok (?p S_Start x)" for x
    by (simp add: parse_def resp_parser_new_def)
  have go: "parse_loop ok (?p S_Start (c # x)) = parse_loop ok (?p st x)"
    if "parse_start (?p S_Start (c # x)) = Again (?p st x)" for c x st
    by (rule parse_loop_start [OF _ _ that]) simp_all
  have step: "parse_loop ok (?p st x) = Some (Inr (r, q))"
    if "parse_step ok (?p st x) = Return r q" "st \<noteq> S_ArrayElement" "x \<noteq> []" for st x r q
    using that parse_loop_step [of "?p st x" ok] by simp
  show ?thesis
  proof (cases t)
    case T_SimpleString
    then have "parse_step ok (?p S_SimpleString (s @ crlf @ rest)) = Return (Some v) resp_parser_new"
      using assms(1) v by (simp add: parse_step_def parse_simple_string_def read_line_line resp_value_defs)
    with T_SimpleString v show ?thesis by (simp add: p go [of _ _ S_SimpleString] parse_start_def step)
  next
    case T_Error
    then have "parse_step ok (?p S_Error (s @ crlf @ rest)) = Return (Some v) resp_parser_new"
      using assms(1) v by (simp add: parse_step_def parse_error_def read_line_line resp_value_defs)
    with T_Error v show ?thesis by (simp add: p go [of _ _ S_Error] parse_start_def step)
  next
    case T_Integer
    have "parse_integer (dec_int (sint i)) = Some i"
      using parse_integer_dec_int [OF sint_range] by simp
    with T_Integer have "parse_step ok (?p S_Integer (dec_int (sint i) @ crlf @ rest)) =
        Return (Some v) resp_parser_new"
      using assms(1) v
      by (simp add: parse_step_def parse_integer_state_def read_line_line dec_int_no_crlf resp_value_defs)
    with T_Integer v show ?thesis by (simp add: p go [of _ _ S_Integer] parse_start_def step)
  next
    case T_BulkString
    with assms(1) v parse_bulk [of s "?p S_BulkStringLen (dec_nat (length s) @ crlf @ s @ crlf @ rest)"]
    show ?thesis by (simp add: p go [of _ _ S_BulkStringLen] parse_start_def resp_bulk_string_def)
  next
    case T_NullBulkString
    have "parse_integer (dec_int (-1)) = Some (-1)" using parse_integer_dec_int [of "-1"] by simp
    moreover have d: "dec_int (-1) = ''-1''" by code_simp
    ultimately have "parse_step ok (?p S_BulkStringLen (''-1'' @ crlf @ rest)) = Return (Some v) resp_parser_new"
      using assms(1) v T_NullBulkString dec_int_no_crlf(1) [of "-1"]
      by (simp add: parse_step_def parse_bulk_len_def read_line_line [of _ "''-1''"] resp_value_defs)
    with T_NullBulkString v show ?thesis by (simp add: p go [of _ _ S_BulkStringLen] parse_start_def step)
  qed (use assms(2) v in simp)
qed

text \<open>The results of a sequence of reads.\<close>

fun parse_all :: "(nat \<Rightarrow> bool) \<Rightarrow> resp_parser \<Rightarrow> string list \<Rightarrow>
    (resp_exn + resp_value option list \<times> resp_parser) option" where
  "parse_all ok p [] = Some (Inr ([], p))"
| "parse_all ok p (c # cs) =
     (case parse ok p c of
        Some (Inr (v, p)) \<Rightarrow>
          (case parse_all ok p cs of Some (Inr (vs, p)) \<Rightarrow> Some (Inr (v # vs, p)) | r \<Rightarrow> r)
      | Some (Inl e) \<Rightarrow> Some (Inl e)
      | None \<Rightarrow> None)"

lemma parse_outcome:
  obtains (throw) e n where "parse ok p data = Some (Inl e)" "announced (feed p data) n" "\<not> ok n"
  | (none) q where "parse ok p data = Some (Inr (None, q))" "remains q (feed p data)"
      "rp_state p = S_ArrayElement \<Longrightarrow> rp_state q = S_ArrayElement"
  | (some) v where "parse ok p data = Some (Inr (Some v, resp_parser_new))" "rp_state p \<noteq> S_ArrayElement"
      "rv_array v = []"
proof -
  obtain r where "parse ok p data = Some r" "loop_outcome ok (feed p data) r"
    using parse_loop_outcome [of ok "feed p data"] by (auto simp: parse_def)
  then show thesis
    by (cases r rule: sum.exhaust; (simp only: split_paired_all)?)
      (use that in \<open>auto simp: loop_outcome_def split: option.splits\<close>)
qed

text \<open>A parser that stands among the elements of an array stays there, read after read, unless a
  further header announces a length that cannot be reserved.\<close>

definition stuck :: "(nat \<Rightarrow> bool) \<Rightarrow> resp_parser \<Rightarrow> string list \<Rightarrow> bool" where
  "stuck ok p cs \<longleftrightarrow>
     (\<exists>q. parse_all ok p cs = Some (Inr (replicate (length cs) None, q)) \<and> rp_state q = S_ArrayElement) \<or>
     (\<exists>e n. parse_all ok p cs = Some (Inl e) \<and> announced (feed p (concat cs)) n \<and> \<not> ok n)"

lemma stuck_Cons:
  assumes "parse ok p c = Some (Inr (None, q))" "remains q (feed p c)" "stuck ok q cs"
  shows "stuck ok p (c # cs)"
proof -
  have "remains (feed q (concat cs)) (feed p (c @ concat cs))"
    using remains_feed [OF assms(2), of "concat cs"] by simp
  from remains_announced [OF this] assms(1,3) show ?thesis by (fastforce simp: stuck_def)
qed

lemma parse_all_in_array: "rp_state p = S_ArrayElement \<Longrightarrow> stuck ok p cs"
proof (induction cs arbitrary: p)
  case (Cons c cs)
  show ?case
  proof (cases rule: parse_outcome [of ok p c])
    case (throw e n)
    with announced_feed [OF throw(2), of "concat cs"] show ?thesis by (auto simp: stuck_def)
  next
    case (none q)
    with Cons stuck_Cons show ?thesis by blast
  qed (use Cons.prems in simp)
qed (simp add: stuck_def)

lemma parse_array_header:
  assumes "0 < n" "n < 2 ^ 63"
  obtains q where "parse ok resp_parser_new (''*'' @ dec_nat n @ crlf @ rest) =
      (if ok n then parse ok q rest else Some (Inl Length_error))"
    "rp_state q = S_ArrayElement" "rp_buffer q = []"
proof -
  let ?p = "\<lambda>st. resp_parser_new\<lparr>rp_state := st, rp_buffer := dec_nat n @ crlf @ rest\<rparr>"
  let ?n = "word_of_nat n :: u64"
  let ?q = "resp_parser_new\<lparr>rp_array_len := ?n, rp_array_elements := [], rp_state := S_ArrayElement\<rparr>"
  have "parse_loop ok (resp_parser_new\<lparr>rp_state := S_Start, rp_buffer := ''*'' @ dec_nat n @ crlf @ rest\<rparr>) =
      parse_loop ok (?p S_ArrayLen)"
    by (rule parse_loop_start) (simp_all add: parse_start_def)
  then have 1: "parse ok resp_parser_new (''*'' @ dec_nat n @ crlf @ rest) = parse_loop ok (?p S_ArrayLen)"
    by (simp add: parse_def resp_parser_new_def)
  have "parse_integer (dec_nat n) = Some ?n"
    using parse_integer_dec_int [of "int n"] assms(2) by (simp add: dec_int_nat)
  moreover have "read_line (?p S_ArrayLen) = (Some (dec_nat n), (?p S_ArrayLen)\<lparr>rp_buffer := rest\<rparr>)"
    by (rule read_line_line) (simp_all add: dec_int_no_crlf)
  moreover have u: "unat ?n = n" using assms(2) by (simp add: unat_of_nat)
  then have "?n \<noteq> 0" using assms(1) by (metis unat_0 less_irrefl)
  moreover have "sint ?n = int n" using assms(2) by (simp add: sint_uint uint_nat u signed_take_bit_int_eq_self)
  then have "\<not> ?n <s 0" by (simp add: word_sless_alt)
  ultimately have "parse_step ok (?p S_ArrayLen) =
      (if ok n then Again (?q\<lparr>rp_buffer := rest\<rparr>) else Throw Length_error)"
    using u by (simp add: parse_step_def parse_array_len_def resp_parser_new_def Let_def)
  then have "parse_loop ok (?p S_ArrayLen) = (if ok n then parse ok ?q rest else Some (Inl Length_error))"
    using parse_loop_step [of "?p S_ArrayLen" ok] by (simp add: parse_def resp_parser_new_def)
  with 1 that [of ?q] show thesis by (simp add: resp_parser_new_def)
qed

lemma announced_header:
  assumes "n < 2 ^ 63"
  shows "announced (feed resp_parser_new ((''*'' @ dec_nat n @ crlf @ rest) @ rest')) n"
proof -
  let ?n = "word_of_nat n :: u64"
  have "unat ?n = n" using assms by (simp add: unat_of_nat)
  moreover from this have "\<not> ?n <s 0"
    using assms by (simp add: word_sless_alt sint_uint uint_nat signed_take_bit_int_eq_self)
  moreover have "parse_integer (dec_nat n) = Some ?n"
    using parse_integer_dec_int [of "int n"] assms by (simp add: dec_int_nat)
  ultimately show ?thesis
    unfolding announced_def
    by (intro exI [of _ "''*''"] exI [of _ "dec_nat n"] exI [of _ "rest @ rest'"] exI [of _ ?n])
      (simp add: resp_parser_new_def dec_int_no_crlf)
qed

section \<open>Properties\<close>

text \<open>C28. Round trip of the wire format: a fresh parser that is fed the serialisation of any simple
  string or error without CRLF, any 64-bit integer, any bulk string or the null bulk string returns
  exactly that value and is fresh again. Bytes that follow the value in the same read are
  discarded.\<close>

theorem resp_scalar_roundtrip:
  assumes "resp_ok v" "rv_type v \<noteq> T_Array"
  shows "parse ok resp_parser_new (serialize v @ rest) = Some (Inr (Some v, resp_parser_new))"
  by (rule parse_scalar [OF assms])

theorem resp_scalar_roundtrip_witness:
  "parse (\<lambda>_. True) resp_parser_new (serialize (resp_bulk_string ''foobar'') @ serialize (resp_integer 7)) =
     Some (Inr (Some (resp_bulk_string ''foobar''), resp_parser_new))"
  by (rule resp_scalar_roundtrip) (simp_all add: resp_bulk_string_def)

text \<open>C29. The parser always returns: whatever its state and whatever bytes arrive, a call of parse
  terminates, although it loops and calls itself for array elements. It ends in an exception only
  if its input, the bytes kept from earlier reads and the new ones, contains an array header whose
  own length is the one that cannot be reserved.\<close>

theorem parse_terminates:
  "\<exists>r. parse can_reserve p data = Some r \<and>
     (\<forall>e. r = Inl e \<longrightarrow> (\<exists>n. announced (feed p data) n \<and> \<not> can_reserve n))"
  by (cases rule: parse_outcome [of can_reserve p data]) auto

theorem parse_terminates_witness:
  "\<exists>r. parse (\<lambda>n. n < 10) resp_parser_new (''*99'' @ crlf) = Some r \<and>
     (\<forall>e. r = Inl e \<longrightarrow> (\<exists>n. announced (feed resp_parser_new (''*99'' @ crlf)) n \<and> \<not> n < (10::nat)))"
  by (rule parse_terminates)

text \<open>No value the parser returns is a command: whatever the state and the input, a value that
  parse returns is not accepted by to_command, because only scalars and the empty array are ever
  returned.\<close>

theorem parse_never_yields_command:
  assumes "parse can_reserve p data = Some (Inr (Some v, q))"
  shows "to_command v = None \<and> rv_array v = [] \<and> q = resp_parser_new"
  using assms by (cases rule: parse_outcome [of can_reserve p data]) (auto simp: to_command_def split: list.splits)

theorem parse_never_yields_command_witness:
  "to_command (resp_simple_string ''PING'') = None \<and> rv_array (resp_simple_string ''PING'') = [] \<and>
     resp_parser_new = resp_parser_new"
  by (rule parse_never_yields_command [of "\<lambda>_. True" resp_parser_new
        "serialize (resp_simple_string ''PING'') @ []"], rule parse_scalar)
    (simp_all add: resp_simple_string_def CR_def)

text \<open>C35. A request in the form Redis clients send it is never answered: once an array header with
  a positive length has arrived, every later call of parse on that connection, whatever follows the
  header and however the rest of the stream is cut into reads, returns no value and leaves the
  parser among the elements of the array; the only other way the sequence of reads can go is that
  one of them ends in the exception, and then the stream contains an array header whose length
  cannot be reserved.\<close>

theorem array_request_never_completes:
  assumes "0 < n" "n < 2 ^ 63" and cs: "cs = (''*'' @ dec_nat n @ crlf @ rest) # chunks"
  shows "(\<exists>q. parse_all can_reserve resp_parser_new cs = Some (Inr (replicate (length cs) None, q)) \<and>
        rp_state q = S_ArrayElement) \<or>
     (\<exists>e m. parse_all can_reserve resp_parser_new cs = Some (Inl e) \<and>
        announced (feed resp_parser_new (concat cs)) m \<and> \<not> can_reserve m)"
proof -
  obtain q where q: "parse can_reserve resp_parser_new (''*'' @ dec_nat n @ crlf @ rest) =
      (if can_reserve n then parse can_reserve q rest else Some (Inl Length_error))"
      "rp_state q = S_ArrayElement" "rp_buffer q = []"
    by (rule parse_array_header [OF assms(1,2)])
  show ?thesis
  proof (cases "can_reserve n")
    case True
    then have "parse_all can_reserve resp_parser_new cs = parse_all can_reserve q (rest # chunks)"
      using q(1) cs by simp
    moreover have "remains (feed q (rest @ concat chunks)) (feed resp_parser_new (concat cs))"
      using q(2,3) cs by (simp add: remains_def resp_parser_new_def)
    ultimately show ?thesis
      using parse_all_in_array [OF q(2), of can_reserve "rest # chunks"] remains_announced cs
      by (fastforce simp: stuck_def)
  next
    case False
    then have "parse_all can_reserve resp_parser_new cs = Some (Inl Length_error)" using q(1) cs by simp
    with False announced_header [OF assms(2), of rest "concat chunks"] cs show ?thesis by auto
  qed
qed

theorem array_request_never_completes_witness:
  "parse_all (\<lambda>_. True) resp_parser_new
     [''*'' @ dec_nat 2 @ crlf @ serialize (resp_bulk_string ''GET''), serialize (resp_bulk_string ''k'')] \<in>
     {Some (Inr ([None, None], q)) | q. rp_state q = S_ArrayElement}"
  using array_request_never_completes [OF _ _ refl, of 2 "\<lambda>_. True" "serialize (resp_bulk_string ''GET'')"
      "[serialize (resp_bulk_string ''k'')]"] by auto

text \<open>A negative bulk length other than -1 is taken as it comes: with -2 no bytes are needed for the
  data, so the parser returns whatever has arrived behind the header by then.\<close>

lemma negative_bulk_length_any_data:
  assumes "s \<noteq> []" "length s < 2 ^ 64 - 2"
  shows "parse ok resp_parser_new (''$-2'' @ crlf @ s) = Some (Inr (Some (resp_bulk_string s), resp_parser_new))"
proof -
  let ?p = "resp_parser_new\<lparr>rp_state := S_BulkStringLen, rp_buffer := ''-2'' @ crlf @ s\<rparr>"
  let ?q = "?p\<lparr>rp_buffer := s, rp_bulk_len := -2, rp_bulk_read := 0, rp_state := S_BulkStringData\<rparr>"
  have "parse_loop ok (resp_parser_new\<lparr>rp_state := S_Start, rp_buffer := ''$-2'' @ crlf @ s\<rparr>) = parse_loop ok ?p"
    by (rule parse_loop_start) (simp_all add: parse_start_def)
  then have 1: "parse ok resp_parser_new (''$-2'' @ crlf @ s) = parse_loop ok ?p"
    by (simp add: parse_def resp_parser_new_def)
  have "read_line ?p = (Some ''-2'', ?p\<lparr>rp_buffer := s\<rparr>)" by (rule read_line_line) (simp_all add: CR_def)
  moreover have "parse_integer ''-2'' = Some (-2)" by code_simp
  ultimately have "parse_step ok ?p = Again ?q" by (simp add: parse_step_def parse_bulk_len_def)
  moreover have "unat (-2 :: u64) = 2 ^ 64 - 2" by simp
  then have "parse_step ok ?q = Return (Some (resp_bulk_string s)) resp_parser_new"
    using assms(2) by (simp add: parse_step_def parse_bulk_data_def)
  ultimately show ?thesis
    using 1 parse_loop_step [of ?p ok] parse_loop_step [of ?q ok] assms(1) by simp
qed

text \<open>C30. Reads may split a message anywhere: suppose that the first header of a stream is not a bulk
  string header with a negative length other than -1, for which the result depends on the split.
  Then, if the stream yields a value when it arrives in one read, it yields it also when it arrives
  in two: the first read yields that value, or it yields nothing and the second read yields it.\<close>

theorem parse_split_read:
  assumes "stream_ok (xs @ ys)"
    and "parse can_reserve resp_parser_new (xs @ ys) = Some (Inr (Some v, q))"
  shows "parse can_reserve resp_parser_new xs = Some (Inr (Some v, q)) \<or>
     (\<exists>p. parse can_reserve resp_parser_new xs = Some (Inr (None, p)) \<and>
          parse can_reserve p ys = Some (Inr (Some v, q)))"
  using parse_loop_feed [of "feed resp_parser_new xs" ys can_reserve v q] assms
  by (simp add: parse_def parser_ok_def resp_parser_new_def)

theorem parse_split_read_witness:
  "parse (\<lambda>_. True) resp_parser_new ''$3'' = Some (Inr (Some (resp_bulk_string ''abc''), resp_parser_new)) \<or>
     (\<exists>p. parse (\<lambda>_. True) resp_parser_new ''$3'' = Some (Inr (None, p)) \<and>
          parse (\<lambda>_. True) p (crlf @ ''abc'' @ crlf) = Some (Inr (Some (resp_bulk_string ''abc''), resp_parser_new)))"
proof (rule parse_split_read)
  have s: "''$3'' @ crlf @ ''abc'' @ crlf = serialize (resp_bulk_string ''abc'') @ []" by code_simp
  show "stream_ok (''$3'' @ crlf @ ''abc'' @ crlf)" by code_simp
  show "parse (\<lambda>_. True) resp_parser_new (''$3'' @ crlf @ ''abc'' @ crlf) =
      Some (Inr (Some (resp_bulk_string ''abc''), resp_parser_new))"
    unfolding s by (rule parse_scalar) (simp_all add: resp_bulk_string_def)
qed

lemma command_args_iff:
  "command_args as = Some args \<longleftrightarrow> args = map rv_string as \<and> (\<forall>a \<in> set as. rv_type a = T_BulkString)"
  by (induction as arbitrary: args) auto

text \<open>What counts as a command: to_command accepts exactly the arrays that are not empty and
  hold only bulk strings; the command is the first of them in upper case, the arguments are the
  others unchanged.\<close>

theorem to_command_iff:
  "to_command v = Some c \<longleftrightarrow>
     (\<exists>x xs. rv_type v = T_Array \<and> rv_array v = x # xs \<and> (\<forall>y \<in> set (x # xs). rv_type y = T_BulkString) \<and>
        c = \<lparr>rc_command = map toupper (rv_string x), rc_args = map rv_string xs\<rparr>)"
  by (auto simp: to_command_def command_args_iff split: list.splits)

theorem to_command_iff_witness:
  "to_command (resp_array (map resp_bulk_string [''get'', ''k''])) =
     Some \<lparr>rc_command = ''GET'', rc_args = [''k'']\<rparr>"
proof -
  have "''GET'' = map toupper ''get''" by code_simp
  then show ?thesis by (simp add: to_command_iff resp_array_def resp_bulk_string_def)
qed

text \<open>Prefix freedom.\<close>

lemma dec_nat_eq: "dec_nat m = dec_nat n \<longleftrightarrow> m = n"
  by (metis digits_val_dec_nat)

lemma dec_int_eq: "dec_int i = dec_int j \<longleftrightarrow> i = j"
proof
  assume "dec_int i = dec_int j"
  then have "split_sign (dropWhile is_space (dec_int i)) = split_sign (dropWhile is_space (dec_int j))"
    by simp
  then have "(i < 0) = (j < 0) \<and> nat \<bar>i\<bar> = nat \<bar>j\<bar>" by (simp add: split_sign_dec_int dec_nat_eq)
  then show "i = j" by auto
qed simp

lemma dec_nat_not_null: "dec_nat n \<noteq> ''-1''"
  using dec_nat_digits [of n] by (auto simp: is_digit_def)

lemma bulk_lines_unique:
  assumes "dec_nat m @ crlf @ r = dec_nat n @ crlf @ r'"
  shows "m = n \<and> r = r'"
  using line_unique [OF assms dec_int_no_crlf(2,2)] by (simp add: dec_nat_eq)

lemma int_lines_unique:
  assumes "dec_int (sint (i::u64)) @ crlf @ r = dec_int (sint j) @ crlf @ r'"
  shows "i = j \<and> r = r'"
  using line_unique [OF assms dec_int_no_crlf(1,1)] by (auto simp: dec_int_eq intro: signed_word_eqI)

lemma null_line_unique: "dec_nat m @ crlf @ r \<noteq> ''-1'' @ crlf @ r'"
proof
  assume eq: "dec_nat m @ crlf @ r = ''-1'' @ crlf @ r'"
  have "find_crlf ''-1'' = None" by (simp add: CR_def)
  with line_unique [OF eq dec_int_no_crlf(2)] dec_nat_not_null show False by simp
qed

lemma concat_prefix_free:
  assumes "\<And>x y r r'. x \<in> set xs \<Longrightarrow> y \<in> set ys \<Longrightarrow> e x @ r = e y @ r' \<Longrightarrow> x = y \<and> r = r'"
    and "length xs = length ys" "concat (map e xs) @ r = concat (map e ys) @ r'"
  shows "xs = ys \<and> r = r'"
  using assms
proof (induction xs arbitrary: ys)
  case (Cons x xs)
  then obtain y ys' where ys: "ys = y # ys'" by (cases ys) auto
  have 1: "x = y \<and> concat (map e xs) @ r = concat (map e ys') @ r'"
    by (rule Cons.prems(1)) (use Cons.prems(3) ys in simp_all)
  have "xs = ys' \<and> r = r'"
  proof (rule Cons.IH)
    fix z z' q q' assume "z \<in> set xs" "z' \<in> set ys'" "e z @ q = e z' @ q'"
    then show "z = z' \<and> q = q'" by (intro Cons.prems(1)) (simp_all add: ys)
  qed (use Cons.prems(2) ys 1 in simp_all)
  with 1 ys show ?case by simp
qed simp

lemma serialize_array_unique:
  assumes "\<And>x y r r'. x \<in> set a \<Longrightarrow> y \<in> set b \<Longrightarrow> serialize x @ r = serialize y @ r' \<Longrightarrow> x = y \<and> r = r'"
    and "dec_nat (length a) @ crlf @ concat (map serialize a) @ r =
      dec_nat (length b) @ crlf @ concat (map serialize b) @ r'"
  shows "a = b \<and> r = r'"
  using bulk_lines_unique [OF assms(2)] concat_prefix_free [OF assms(1)] by blast

text \<open>Replies are unambiguous: no serialisation of a well-formed value is a prefix of another,
  arrays of any depth included, so a stream of replies has at most one reading.\<close>

theorem serialize_prefix_free:
  assumes "resp_ok v" "resp_ok v'" "serialize v @ r = serialize v' @ r'"
  shows "v = v' \<and> r = r'"
  using assms
proof (induction v arbitrary: v' r r')
  case (RESPValue t s i a)
  obtain t' s' i' b where v': "v' = RESPValue t' s' i' b" by (cases v')
  show ?case
  proof (cases "t = T_Array \<and> t' = T_Array")
    case True
    have "a = b \<and> r = r'"
    proof (rule serialize_array_unique)
      fix x y q q' assume "x \<in> set a" "y \<in> set b" "serialize x @ q = serialize y @ q'"
      with RESPValue True v' show "x = y \<and> q = q'" by (auto simp: list_all_iff)
    qed (use RESPValue.prems(3) True v' in simp)
    with RESPValue.prems True v' show ?thesis by simp
  next
    case False
    with RESPValue.prems v' show ?thesis
      by (cases t; cases t')
        (auto simp: dec_int_eq dec_int_no_crlf null_line_unique [simplified]
          null_line_unique [symmetric, simplified] dest: line_unique
          dest!: bulk_lines_unique int_lines_unique)
  qed
qed

theorem serialize_prefix_free_witness:
  "resp_array [resp_integer 1] = resp_array [resp_integer 1] \<and> serialize (resp_integer 2) = serialize (resp_integer 2)"
  by (rule serialize_prefix_free [of "resp_array [resp_integer 1]" "resp_array [resp_integer 1]"])
    (simp_all add: resp_array_def resp_integer_def)

end
