(* ===== verification/Epoll_Server.thy ===== *)
theory Epoll_Server
  imports RESP "HOL-Library.AList"
begin

unbundle bit_operations_syntax

text \<open>
  The TCP front end: \<open>engine/include/network_server.h\<close>, \<open>engine/include/epoll_server.h\<close> and
  \<open>engine/src/epoll_server.cpp\<close>. The operating system is not part of the sources. What it keeps
  for the process is the record \<open>kernel\<close>: the open descriptors, the interest list of the epoll
  instance, the bytes each connection has taken, and how often \<open>close\<close> was called on a
  descriptor that is not open. What it answers to a call is an argument: the return value where one
  call is made, a list of answers where a loop makes one call per pass. A loop that has used up its
  answers has not returned, and the result is \<open>None\<close>. Which descriptor a successful
  \<open>socket\<close>, \<open>epoll_create1\<close> or \<open>accept\<close> gives is the function \<open>alloc\<close> of the open
  descriptors; that it gives one that is not open is the hypothesis \<open>fd_alloc\<close> of the theorems.
  The command handler, a \<open>std::function\<close>, is an optional function that may change a state of its
  own. \<open>stop\<close> called by another thread takes effect between two passes of the event loop.
\<close>

section \<open>State\<close>

record client_connection =
  cc_fd :: int
  cc_parser :: resp_parser
  cc_write_buffer :: string
  cc_should_close :: bool

definition client_connection_new :: "int \<Rightarrow> client_connection" where
  "client_connection_new socket_fd =
     \<lparr>cc_fd = socket_fd, cc_parser = resp_parser_new, cc_write_buffer = [], cc_should_close = False\<rparr>"

type_synonym 'h command_handler = "resp_command \<Rightarrow> 'h \<Rightarrow> string \<times> 'h"

record 'h epoll_server =
  es_command_handler :: "'h command_handler option"
  es_listen_fd :: int
  es_epoll_fd :: int
  es_running :: bool
  es_clients :: "(int \<times> client_connection) list"

definition epoll_server_new :: "'h epoll_server" where
  "epoll_server_new =
     \<lparr>es_command_handler = None, es_listen_fd = -1, es_epoll_fd = -1, es_running = False, es_clients = []\<rparr>"

definition set_command_handler :: "'h command_handler \<Rightarrow> 'h epoll_server \<Rightarrow> 'h epoll_server" where
  "set_command_handler handler s = s\<lparr>es_command_handler := Some handler\<rparr>"

record kernel =
  k_open :: "int set"
  k_interest :: "int \<Rightarrow> u32 option"
  k_sent :: "int \<Rightarrow> string"
  k_bad_close :: nat

type_synonym 'h server_state = "'h epoll_server \<times> kernel \<times> 'h"

definition k_new_fd :: "int \<Rightarrow> kernel \<Rightarrow> kernel" where
  "k_new_fd fd k = k\<lparr>k_open := insert fd (k_open k), k_sent := (k_sent k)(fd := [])\<rparr>"

definition k_close :: "int \<Rightarrow> kernel \<Rightarrow> kernel" where
  "k_close fd k =
     k\<lparr>k_open := k_open k - {fd}, k_interest := (k_interest k)(fd := None),
       k_bad_close := (if fd \<in> k_open k then k_bad_close k else Suc (k_bad_close k))\<rparr>"

definition k_send :: "int \<Rightarrow> string \<Rightarrow> kernel \<Rightarrow> kernel" where
  "k_send fd bytes k = k\<lparr>k_sent := (k_sent k)(fd := k_sent k fd @ bytes)\<rparr>"

definition EPOLLIN :: u32 where "EPOLLIN = 0x001"

definition EPOLLOUT :: u32 where "EPOLLOUT = 0x004"

definition EPOLLERR :: u32 where "EPOLLERR = 0x008"

definition EPOLLHUP :: u32 where "EPOLLHUP = 0x010"

definition EPOLLET :: u32 where "EPOLLET = 0x80000000"

section \<open>Descriptors, start and stop\<close>

text \<open>The two \<open>fcntl\<close> calls return \<open>flags\<close> and \<open>setfl\<close>; the second is made when the first succeeds.\<close>

definition set_nonblocking :: "int \<Rightarrow> int \<Rightarrow> bool" where
  "set_nonblocking flags setfl \<longleftrightarrow> (if flags = -1 then False else setfl \<noteq> -1)"

text \<open>\<open>EPOLL_CTL_ADD\<close> and \<open>EPOLL_CTL_MOD\<close>, answered by \<open>ctl\<close>.\<close>

definition add_to_epoll :: "int \<Rightarrow> u32 \<Rightarrow> int \<Rightarrow> kernel \<Rightarrow> bool \<times> kernel" where
  "add_to_epoll fd events ctl k =
     (if ctl \<noteq> -1 then (True, k\<lparr>k_interest := (k_interest k)(fd \<mapsto> events OR EPOLLET)\<rparr>) else (False, k))"

definition modify_epoll :: "int \<Rightarrow> u32 \<Rightarrow> int \<Rightarrow> kernel \<Rightarrow> bool \<times> kernel" where
  "modify_epoll fd events ctl k =
     (if ctl \<noteq> -1 then (True, k\<lparr>k_interest := (k_interest k)(fd \<mapsto> events OR EPOLLET)\<rparr>) else (False, k))"

text \<open>The answers to the calls of \<open>start\<close>, in the order it makes them. \<open>la_socket\<close> and
  \<open>la_epoll_create\<close> say whether a descriptor is given.\<close>

record start_answers =
  la_socket :: bool
  la_reuseaddr :: int
  la_reuseport :: int
  la_bind :: int
  la_listen :: int
  la_getfl :: int
  la_setfl :: int
  la_epoll_create :: bool
  la_epoll_ctl :: int

definition create_listen_socket ::
    "(int set \<Rightarrow> int) \<Rightarrow> start_answers \<Rightarrow> 'h epoll_server \<Rightarrow> kernel \<Rightarrow> bool \<times> 'h epoll_server \<times> kernel" where
  "create_listen_socket alloc a s k =
     (if \<not> la_socket a then (False, s\<lparr>es_listen_fd := -1\<rparr>, k)
      else
        let fd = alloc (k_open k); s = s\<lparr>es_listen_fd := fd\<rparr>; k = k_new_fd fd k
        in if la_reuseaddr a = -1 then (False, s, k_close fd k)
           else if la_reuseport a = -1 then (False, s, k_close fd k)
           else if la_bind a = -1 then (False, s, k_close fd k)
           else if la_listen a = -1 then (False, s, k_close fd k)
           else if \<not> set_nonblocking (la_getfl a) (la_setfl a) then (False, s, k_close fd k)
           else (True, s, k))"

definition es_start ::
    "(int set \<Rightarrow> int) \<Rightarrow> start_answers \<Rightarrow> 'h epoll_server \<Rightarrow> kernel \<Rightarrow> bool \<times> 'h epoll_server \<times> kernel" where
  "es_start alloc a s k =
     (if es_running s then (False, s, k)
      else case create_listen_socket alloc a s k of
        (False, s, k) \<Rightarrow> (False, s, k)
      | (True, s, k) \<Rightarrow>
          if \<not> la_epoll_create a then (False, s\<lparr>es_epoll_fd := -1\<rparr>, k_close (es_listen_fd s) k)
          else
            let fd = alloc (k_open k); s = s\<lparr>es_epoll_fd := fd\<rparr>; k = k_new_fd fd k
            in case add_to_epoll (es_listen_fd s) EPOLLIN (la_epoll_ctl a) k of
                 (False, k) \<Rightarrow> (False, s, k_close (es_listen_fd s) (k_close fd k))
               | (True, k) \<Rightarrow> (True, s\<lparr>es_running := True\<rparr>, k))"

definition es_stop :: "'h epoll_server \<Rightarrow> kernel \<Rightarrow> 'h epoll_server \<times> kernel" where
  "es_stop s k =
     (if \<not> es_running s then (s, k)
      else
        let k = fold (\<lambda>(fd, _). k_close fd) (es_clients s) k;
            k = (if es_epoll_fd s \<noteq> -1 then k_close (es_epoll_fd s) k else k);
            k = (if es_listen_fd s \<noteq> -1 then k_close (es_listen_fd s) k else k)
        in (s\<lparr>es_running := False, es_clients := [], es_epoll_fd := -1, es_listen_fd := -1\<rparr>, k))"

definition close_client :: "int \<Rightarrow> 'h epoll_server \<Rightarrow> kernel \<Rightarrow> 'h epoll_server \<times> kernel" where
  "close_client fd s k =
     (s\<lparr>es_clients := AList.delete fd (es_clients s)\<rparr>, k_close fd (k\<lparr>k_interest := (k_interest k)(fd := None)\<rparr>))"

section \<open>Connections\<close>

text \<open>\<open>accept\<close> gives a descriptor, whose two \<open>fcntl\<close> calls and \<open>epoll_ctl\<close> are answered by
  \<open>flags\<close>, \<open>setfl\<close> and \<open>ctl\<close>; or it fails with \<open>EAGAIN\<close>, or with another error.\<close>

datatype accept_answer = Accepted (ac_flags: int) (ac_setfl: int) (ac_ctl: int) | Accept_again | Accept_failed

fun accept_connection ::
    "(int set \<Rightarrow> int) \<Rightarrow> accept_answer list \<Rightarrow> 'h epoll_server \<Rightarrow> kernel \<Rightarrow> ('h epoll_server \<times> kernel) option" where
  "accept_connection alloc [] s k = None"
| "accept_connection alloc (Accept_again # as) s k = Some (s, k)"
| "accept_connection alloc (Accept_failed # as) s k = accept_connection alloc as s k"
| "accept_connection alloc (Accepted flags setfl ctl # as) s k =
     (let fd = alloc (k_open k); k = k_new_fd fd k
      in if \<not> set_nonblocking flags setfl then accept_connection alloc as s (k_close fd k)
         else case add_to_epoll fd EPOLLIN ctl k of
           (False, k) \<Rightarrow> accept_connection alloc as s (k_close fd k)
         | (True, k) \<Rightarrow>
             accept_connection alloc as
               (s\<lparr>es_clients := AList.update fd (client_connection_new fd) (es_clients s)\<rparr>) k)"

text \<open>What one value is answered with, and the loop over the values of the buffer.\<close>

definition es_answer :: "'h command_handler option \<Rightarrow> resp_value \<Rightarrow> 'h \<Rightarrow> string \<times> 'h" where
  "es_answer handler v h =
     (case (to_command v, handler) of
        (Some cmd, Some handler) \<Rightarrow> handler cmd h
      | _ \<Rightarrow> (format_error ''ERR invalid command'', h))"

partial_function (option) answer_loop ::
    "(nat \<Rightarrow> bool) \<Rightarrow> 'h command_handler option \<Rightarrow> resp_value option \<Rightarrow> client_connection \<Rightarrow> 'h \<Rightarrow>
      (resp_exn + client_connection \<times> 'h) option" where
  "answer_loop can_reserve handler v c h =
     (case v of
        None \<Rightarrow> Some (Inr (c, h))
      | Some v \<Rightarrow>
          let (response, h) = es_answer handler v h;
              c = c\<lparr>cc_write_buffer := cc_write_buffer c @ response\<rparr>
          in case parse can_reserve (cc_parser c) [] of
               None \<Rightarrow> None
             | Some (Inl e) \<Rightarrow> Some (Inl e)
             | Some (Inr (v, p)) \<Rightarrow> answer_loop can_reserve handler v (c\<lparr>cc_parser := p\<rparr>) h)"

text \<open>\<open>recv\<close> gives bytes (none at the end of the stream), fails with \<open>EAGAIN\<close>, or with another
  error; \<open>ctl\<close> answers the \<open>epoll_ctl\<close> call that may follow.\<close>

datatype recv_answer = Received string (rc_ctl: int) | Recv_again | Recv_failed

fun handle_client_read ::
    "(nat \<Rightarrow> bool) \<Rightarrow> 'h command_handler option \<Rightarrow> recv_answer list \<Rightarrow> client_connection \<Rightarrow> kernel \<Rightarrow> 'h \<Rightarrow>
      (resp_exn + client_connection \<times> kernel \<times> 'h) option" where
  "handle_client_read can_reserve handler [] c k h = None"
| "handle_client_read can_reserve handler (Recv_again # rs) c k h = Some (Inr (c, k, h))"
| "handle_client_read can_reserve handler (Recv_failed # rs) c k h =
     Some (Inr (c\<lparr>cc_should_close := True\<rparr>, k, h))"
| "handle_client_read can_reserve handler (Received data ctl # rs) c k h =
     (if data = [] then Some (Inr (c\<lparr>cc_should_close := True\<rparr>, k, h))
      else case parse can_reserve (cc_parser c) data of
        None \<Rightarrow> None
      | Some (Inl e) \<Rightarrow> Some (Inl e)
      | Some (Inr (v, p)) \<Rightarrow>
          (case answer_loop can_reserve handler v (c\<lparr>cc_parser := p\<rparr>) h of
             None \<Rightarrow> None
           | Some (Inl e) \<Rightarrow> Some (Inl e)
           | Some (Inr (c, h)) \<Rightarrow>
               handle_client_read can_reserve handler rs c
                 (if cc_write_buffer c \<noteq> [] then snd (modify_epoll (cc_fd c) (EPOLLIN OR EPOLLOUT) ctl k) else k) h))"

text \<open>\<open>send\<close> takes a number of bytes, fails with \<open>EAGAIN\<close>, or with another error; \<open>ctl\<close>
  answers the \<open>epoll_ctl\<close> call after the loop.\<close>

datatype send_answer = Sent nat | Send_again | Send_failed

definition end_of_write :: "int \<Rightarrow> client_connection \<Rightarrow> kernel \<Rightarrow> client_connection \<times> kernel" where
  "end_of_write ctl c k = (c, if cc_write_buffer c = [] then snd (modify_epoll (cc_fd c) EPOLLIN ctl k) else k)"

fun handle_client_write ::
    "send_answer list \<Rightarrow> int \<Rightarrow> client_connection \<Rightarrow> kernel \<Rightarrow> (client_connection \<times> kernel) option" where
  "handle_client_write [] ctl c k = (if cc_write_buffer c = [] then Some (end_of_write ctl c k) else None)"
| "handle_client_write (a # as) ctl c k =
     (if cc_write_buffer c = [] then Some (end_of_write ctl c k)
      else case a of
        Send_again \<Rightarrow> Some (end_of_write ctl c k)
      | Send_failed \<Rightarrow> Some (c\<lparr>cc_should_close := True\<rparr>, k)
      | Sent n \<Rightarrow>
          handle_client_write as ctl (c\<lparr>cc_write_buffer := drop n (cc_write_buffer c)\<rparr>)
            (k_send (cc_fd c) (take n (cc_write_buffer c)) k))"

section \<open>The event loop\<close>

text \<open>An event, with the answers to the calls its handling makes.\<close>

record epoll_event =
  ev_fd :: int
  ev_events :: u32
  ev_accepts :: "accept_answer list"
  ev_recvs :: "recv_answer list"
  ev_sends :: "send_answer list"
  ev_ctl :: int

definition handle_client_event ::
    "(nat \<Rightarrow> bool) \<Rightarrow> epoll_event \<Rightarrow> client_connection \<Rightarrow> 'h server_state \<Rightarrow> (resp_exn + 'h server_state) option" where
  "handle_client_event can_reserve ev c st =
     (case st of (s, k, h) \<Rightarrow>
        case (if ev_events ev AND EPOLLIN \<noteq> 0
              then handle_client_read can_reserve (es_command_handler s) (ev_recvs ev) c k h
              else Some (Inr (c, k, h))) of
          None \<Rightarrow> None
        | Some (Inl e) \<Rightarrow> Some (Inl e)
        | Some (Inr (c, k, h)) \<Rightarrow>
            (case (if ev_events ev AND EPOLLOUT \<noteq> 0
                   then handle_client_write (ev_sends ev) (ev_ctl ev) c k else Some (c, k)) of
               None \<Rightarrow> None
             | Some (c, k) \<Rightarrow>
                 let s = s\<lparr>es_clients := AList.update (ev_fd ev) c (es_clients s)\<rparr>
                 in if cc_should_close c then (case close_client (ev_fd ev) s k of (s, k) \<Rightarrow> Some (Inr (s, k, h)))
                    else Some (Inr (s, k, h))))"

definition handle_event ::
    "(int set \<Rightarrow> int) \<Rightarrow> (nat \<Rightarrow> bool) \<Rightarrow> epoll_event \<Rightarrow> 'h server_state \<Rightarrow> (resp_exn + 'h server_state) option" where
  "handle_event alloc can_reserve ev st =
     (case st of (s, k, h) \<Rightarrow>
        if ev_fd ev = es_listen_fd s then
          (if ev_events ev AND EPOLLIN \<noteq> 0
           then map_option (\<lambda>(s, k). Inr (s, k, h)) (accept_connection alloc (ev_accepts ev) s k)
           else Some (Inr st))
        else case map_of (es_clients s) (ev_fd ev) of
          None \<Rightarrow> Some (Inr st)
        | Some c \<Rightarrow>
            if ev_events ev AND (EPOLLERR OR EPOLLHUP) \<noteq> 0
            then (case close_client (ev_fd ev) s k of (s, k) \<Rightarrow> Some (Inr (s, k, h)))
            else handle_client_event can_reserve ev c st)"

fun handle_events ::
    "(int set \<Rightarrow> int) \<Rightarrow> (nat \<Rightarrow> bool) \<Rightarrow> epoll_event list \<Rightarrow> 'h server_state \<Rightarrow> (resp_exn + 'h server_state) option" where
  "handle_events alloc can_reserve [] st = Some (Inr st)"
| "handle_events alloc can_reserve (ev # evs) st =
     (case handle_event alloc can_reserve ev st of
        Some (Inr st) \<Rightarrow> handle_events alloc can_reserve evs st
      | r \<Rightarrow> r)"

text \<open>\<open>epoll_wait\<close> gives events or fails; each pass also says whether another thread has called
  \<open>stop\<close> since the last one.\<close>

datatype wait_answer = Events "epoll_event list" | Interrupted | Wait_failed

fun es_run ::
    "(int set \<Rightarrow> int) \<Rightarrow> (nat \<Rightarrow> bool) \<Rightarrow> (bool \<times> wait_answer) list \<Rightarrow> 'h server_state \<Rightarrow>
      (resp_exn + 'h server_state) option" where
  "es_run alloc can_reserve [] st = None"
| "es_run alloc can_reserve ((stopped, w) # ws) (s, k, h) =
     (let (s, k) = (if stopped then es_stop s k else (s, k))
      in if \<not> es_running s then Some (Inr (s, k, h))
         else case w of
           Interrupted \<Rightarrow> es_run alloc can_reserve ws (s, k, h)
         | Wait_failed \<Rightarrow> Some (Inr (s, k, h))
         | Events evs \<Rightarrow>
             (case handle_events alloc can_reserve evs (s, k, h) of
                Some (Inr st) \<Rightarrow> es_run alloc can_reserve ws st
              | r \<Rightarrow> r))"

end
