(* ===== verification/Epoll_Properties.thy ===== *)
theory Epoll_Properties
  imports Epoll_Server
begin

unbundle bit_operations_syntax

text \<open>
  Properties of the TCP front end of \<open>Epoll_Server\<close>: what reading and writing do to one connection,
  the invariant that ties the server's tables to the descriptors and registrations the kernel holds,
  the states reachable from a new server, and the theorems about them.
\<close>

section \<open>One connection\<close>

text \<open>The frame of what is done for one connection: no descriptor is opened or closed, and the other
  connections keep their registration and their output.\<close>

definition only_fd :: "int \<Rightarrow> kernel \<Rightarrow> kernel \<Rightarrow> bool" where
  "only_fd fd k k' \<longleftrightarrow> k_open k' = k_open k \<and> k_bad_close k' = k_bad_close k \<and>
     (\<forall>fd'. fd' \<noteq> fd \<longrightarrow> k_interest k' fd' = k_interest k fd' \<and> k_sent k' fd' = k_sent k fd')"

lemma only_fd_refl [simp]: "only_fd fd k k"
  by (simp add: only_fd_def)

lemma only_fd_trans: "only_fd fd k k' \<Longrightarrow> only_fd fd k' k'' \<Longrightarrow> only_fd fd k k''"
  by (simp add: only_fd_def)

lemma only_fd_steps [simp]:
  "only_fd fd k (snd (modify_epoll fd ev ctl k))" "only_fd fd k (k_send fd bytes k)"
  by (simp_all add: only_fd_def modify_epoll_def k_send_def)

text \<open>The registration that matches the state of the write buffer.\<close>

definition armed :: "client_connection \<Rightarrow> kernel \<Rightarrow> bool" where
  "armed c k \<longleftrightarrow> k_interest k (cc_fd c) =
     Some ((if cc_write_buffer c = [] then EPOLLIN else EPOLLIN OR EPOLLOUT) OR EPOLLET)"

text \<open>Everything a connection was or will be sent.\<close>

definition output_of :: "client_connection \<Rightarrow> kernel \<Rightarrow> string" where
  "output_of c k = k_sent k (cc_fd c) @ cc_write_buffer c"

definition invalid_command :: string where
  "invalid_command = format_error ''ERR invalid command''"

lemma invalid_command_not_Nil: "invalid_command \<noteq> []"
  by (simp add: invalid_command_def format_error_def resp_error_def)

fun recv_ctl_ok :: "recv_answer \<Rightarrow> bool" where
  "recv_ctl_ok (Received data ctl) \<longleftrightarrow> ctl \<noteq> -1"
| "recv_ctl_ok r \<longleftrightarrow> True"

lemma es_answer_no_elements: "rv_array v = [] \<Longrightarrow> es_answer handler v h = (invalid_command, h)"
  by (simp add: es_answer_def to_command_def invalid_command_def)

text \<open>After a call of the parser the inner loop makes one pass when there is a value, which is never
  a command, and none when there is not.\<close>

lemma answer_loop_none [simp]: "answer_loop ok handler None c h = Some (Inr (c, h))"
  by (simp add: answer_loop.simps)

lemma answer_loop_some:
  assumes "rv_array v = []" "cc_parser c = resp_parser_new"
  shows "answer_loop ok handler (Some v) c h =
    Some (Inr (c\<lparr>cc_write_buffer := cc_write_buffer c @ invalid_command\<rparr>, h))"
proof -
  have "parse ok resp_parser_new [] = Some (Inr (None, resp_parser_new))"
    by (simp add: parse_def resp_parser_new_def)
  then show ?thesis
    by (subst answer_loop.simps) (simp add: es_answer_no_elements [OF assms(1)] assms(2) flip: assms(2))
qed

lemma handle_client_read_cases:
  assumes "data \<noteq> []"
  obtains (throw) e n where "announced (feed (cc_parser c) data) n" "\<not> ok n"
      "handle_client_read ok handler (Received data ctl # rs) c k h = Some (Inl e)"
  | (quiet) p where "handle_client_read ok handler (Received data ctl # rs) c k h =
      handle_client_read ok handler rs (c\<lparr>cc_parser := p\<rparr>)
        (if cc_write_buffer c \<noteq> [] then snd (modify_epoll (cc_fd c) (EPOLLIN OR EPOLLOUT) ctl k) else k) h"
      "remains p (feed (cc_parser c) data)"
  | (reply) "handle_client_read ok handler (Received data ctl # rs) c k h =
      handle_client_read ok handler rs
        (c\<lparr>cc_parser := resp_parser_new, cc_write_buffer := cc_write_buffer c @ invalid_command\<rparr>)
        (snd (modify_epoll (cc_fd c) (EPOLLIN OR EPOLLOUT) ctl k)) h"
proof (cases rule: parse_outcome [of ok "cc_parser c" data])
  case (throw e n)
  then show thesis by (intro that(1) [OF throw(2,3)]) (simp add: assms)
next
  case (none q)
  then show thesis by (intro that(2) [of q]) (simp_all add: assms)
next
  case (some v)
  then show thesis by (intro that(3)) (simp add: assms answer_loop_some invalid_command_not_Nil)
qed

lemma handle_client_read_frame:
  assumes "handle_client_read ok handler rs c k h = Some (Inr (c', k', h'))"
  shows "cc_fd c' = cc_fd c \<and> only_fd (cc_fd c) k k' \<and> k_sent k' = k_sent k \<and> h' = h \<and>
    (\<exists>n. cc_write_buffer c' = cc_write_buffer c @ concat (replicate n invalid_command)) \<and>
    (list_all recv_ctl_ok rs \<longrightarrow> armed c k \<longrightarrow> armed c' k')"
  using assms
proof (induction rs arbitrary: c k)
  case (Cons r rs)
  have zero: "\<exists>n. xs = xs @ concat (replicate n invalid_command)" for xs by (rule exI [of _ 0]) simp
  show ?case
  proof (cases r)
    case (Received data ctl)
    show ?thesis
    proof (cases "data = []")
      case True
      with Cons.prems Received zero show ?thesis by (auto simp: armed_def)
    next
      case False
      then show ?thesis
      proof (cases rule: handle_client_read_cases [of data c ok handler ctl rs k h])
        case (throw e)
        with Cons.prems Received show ?thesis by simp
      next
        case (quiet p)
        let ?k = "if cc_write_buffer c \<noteq> [] then snd (modify_epoll (cc_fd c) (EPOLLIN OR EPOLLOUT) ctl k) else k"
        have k: "only_fd (cc_fd c) k ?k" "k_sent ?k = k_sent k"
          "ctl \<noteq> -1 \<Longrightarrow> armed c k \<Longrightarrow> armed (c\<lparr>cc_parser := p\<rparr>) ?k"
          by (simp, simp add: modify_epoll_def, simp add: armed_def modify_epoll_def)
        have ih: "handle_client_read ok handler rs (c\<lparr>cc_parser := p\<rparr>) ?k h = Some (Inr (c', k', h'))"
          using Cons.prems unfolding Received quiet(1) .
        show ?thesis using Cons.IH [OF ih] k only_fd_trans [OF k(1)] by (simp add: Received)
      next
        case reply
        let ?k = "snd (modify_epoll (cc_fd c) (EPOLLIN OR EPOLLOUT) ctl k)"
        let ?c = "c\<lparr>cc_parser := resp_parser_new, cc_write_buffer := cc_write_buffer c @ invalid_command\<rparr>"
        have k: "only_fd (cc_fd c) k ?k" "k_sent ?k = k_sent k" "ctl \<noteq> -1 \<Longrightarrow> armed ?c ?k"
          by (simp, simp add: modify_epoll_def, simp add: armed_def modify_epoll_def invalid_command_not_Nil)
        have ih: "handle_client_read ok handler rs ?c ?k h = Some (Inr (c', k', h'))"
          using Cons.prems unfolding Received reply .
        have "\<exists>n. cc_write_buffer c' = cc_write_buffer c @ concat (replicate n invalid_command)"
          using Cons.IH [OF ih] by (auto intro: exI [of _ "Suc n" for n])
        with Cons.IH [OF ih] k only_fd_trans [OF k(1)] show ?thesis by (simp add: Received)
      qed
    qed
  qed (use Cons.prems zero in \<open>auto simp: armed_def\<close>)
qed simp

fun sent_bytes :: "send_answer \<Rightarrow> nat" where
  "sent_bytes (Sent n) = n"
| "sent_bytes a = 0"

lemma handle_client_write_frame:
  assumes "handle_client_write as ctl c k = Some (c', k')"
  shows "cc_fd c' = cc_fd c \<and> only_fd (cc_fd c) k k' \<and> output_of c' k' = output_of c k \<and>
    (\<exists>sent. k_sent k' (cc_fd c) = k_sent k (cc_fd c) @ sent) \<and>
    (cc_write_buffer c' = [] \<or> Send_again \<in> set as \<or> Send_failed \<in> set as) \<and>
    (ctl \<noteq> -1 \<longrightarrow>
      (cc_write_buffer c \<noteq> [] \<longrightarrow> k_interest k (cc_fd c) = Some ((EPOLLIN OR EPOLLOUT) OR EPOLLET)) \<longrightarrow> armed c' k')"
  using assms
proof (induction as arbitrary: c k)
  case Nil
  then show ?case by (auto simp: end_of_write_def output_of_def armed_def modify_epoll_def only_fd_def split: if_splits)
next
  case (Cons a as)
  show ?case
  proof (cases "cc_write_buffer c \<noteq> [] \<and> a \<notin> {Send_again, Send_failed}")
    case False
    with Cons.prems show ?thesis
      by (auto simp: end_of_write_def output_of_def armed_def modify_epoll_def only_fd_def split: if_splits)
  next
    case True
    then obtain n where a: "a = Sent n" by (cases a) auto
    let ?c = "c\<lparr>cc_write_buffer := drop n (cc_write_buffer c)\<rparr>"
    let ?k = "k_send (cc_fd c) (take n (cc_write_buffer c)) k"
    have o: "output_of ?c ?k = output_of c k" "k_interest ?k = k_interest k"
      "k_sent ?k (cc_fd c) = k_sent k (cc_fd c) @ take n (cc_write_buffer c)"
      by (simp_all add: output_of_def k_send_def)
    have "handle_client_write as ctl ?c ?k = Some (c', k')" using Cons.prems True a by simp
    from Cons.IH [OF this] o True only_fd_trans [OF only_fd_steps(2) [of "cc_fd c" k "take n (cc_write_buffer c)"]]
    show ?thesis by auto
  qed
qed

lemma handle_client_write_returns:
  assumes "length (cc_write_buffer c) \<le> sum_list (map sent_bytes as) \<or> Send_again \<in> set as \<or> Send_failed \<in> set as"
  shows "\<exists>r. handle_client_write as ctl c k = Some r"
  using assms
proof (induction as arbitrary: c k)
  case (Cons a as)
  show ?case
  proof (cases a)
    case (Sent n)
    then have "length (drop n (cc_write_buffer c)) \<le> sum_list (map sent_bytes as) \<or>
        Send_again \<in> set as \<or> Send_failed \<in> set as" using Cons.prems by auto
    with Cons.IH [of "c\<lparr>cc_write_buffer := drop n (cc_write_buffer c)\<rparr>"] Sent show ?thesis by simp
  qed simp_all
qed simp

text \<open>C17. Output is neither lost, repeated nor reordered: once the socket has taken the pending bytes in
  pieces of any sizes, or has failed or would block, \<open>handle_client_write\<close> returns; what was sent
  and what is still buffered together are what they were, the bytes sent are only added to, no other
  connection is touched, and bytes stay buffered only if the socket blocked or failed.\<close>

theorem client_write_no_loss:
  assumes "length (cc_write_buffer c) \<le> sum_list (map sent_bytes as) \<or> Send_again \<in> set as \<or> Send_failed \<in> set as"
  shows "\<exists>c' k'. handle_client_write as ctl c k = Some (c', k') \<and> output_of c' k' = output_of c k \<and>
    (\<exists>sent. k_sent k' (cc_fd c) = k_sent k (cc_fd c) @ sent) \<and> only_fd (cc_fd c) k k' \<and>
    (cc_write_buffer c' = [] \<or> Send_again \<in> set as \<or> Send_failed \<in> set as)"
proof -
  obtain c' k' where r: "handle_client_write as ctl c k = Some (c', k')"
    using handle_client_write_returns [OF assms] by fastforce
  from handle_client_write_frame [OF this] show ?thesis
    by (intro exI [of _ c'] exI [of _ k']) (simp add: r)
qed

definition k_init :: "int set \<Rightarrow> kernel" where
  "k_init base = \<lparr>k_open = base, k_interest = \<lambda>_. None, k_sent = \<lambda>_. [], k_bad_close = 0\<rparr>"

theorem client_write_no_loss_witness:
  "\<exists>c' k'. handle_client_write [Sent 2, Sent 0, Send_again] 0
      ((client_connection_new 7)\<lparr>cc_write_buffer := ''reply''\<rparr>) (k_init {0, 7}) = Some (c', k') \<and>
    output_of c' k' = ''reply''"
  using client_write_no_loss [of "(client_connection_new 7)\<lparr>cc_write_buffer := ''reply''\<rparr>"
      "[Sent 2, Sent 0, Send_again]" 0 "k_init {0, 7}"]
  by (auto simp: output_of_def k_init_def client_connection_new_def)

section \<open>The invariant of the server\<close>

text \<open>What holds of a connection: everything it was or will be sent is a sequence of error replies,
  and, where the kernel does not refuse to change registrations, its registration asks for
  \<open>EPOLLOUT\<close> exactly when output is pending.\<close>

definition conn_ok :: "bool \<Rightarrow> int \<Rightarrow> client_connection \<Rightarrow> kernel \<Rightarrow> bool" where
  "conn_ok ctl fd c k \<longleftrightarrow> cc_fd c = fd \<and> (\<exists>n. output_of c k = concat (replicate n invalid_command)) \<and>
     (ctl \<longrightarrow> armed c k)"

text \<open>The descriptors of a running server are its own and distinct from those the process has besides.\<close>

definition own_fds :: "int set \<Rightarrow> 'h epoll_server \<Rightarrow> bool" where
  "own_fds base s \<longleftrightarrow> 0 \<le> es_listen_fd s \<and> 0 \<le> es_epoll_fd s \<and> es_listen_fd s \<noteq> es_epoll_fd s \<and>
     es_listen_fd s \<notin> base \<and> es_epoll_fd s \<notin> base \<and>
     fst ` set (es_clients s) \<inter> (base \<union> {es_listen_fd s, es_epoll_fd s}) = {}"

definition es_fds :: "int set \<Rightarrow> 'h epoll_server \<Rightarrow> int set" where
  "es_fds base s =
     (if es_running s then base \<union> {es_listen_fd s, es_epoll_fd s} \<union> fst ` set (es_clients s) else base)"

definition es_inv :: "bool \<Rightarrow> int set \<Rightarrow> 'h epoll_server \<Rightarrow> kernel \<Rightarrow> bool" where
  "es_inv ctl base s k \<longleftrightarrow> finite (k_open k) \<and> k_bad_close k = 0 \<and> distinct (map fst (es_clients s)) \<and>
     (\<forall>fd c. map_of (es_clients s) fd = Some c \<longrightarrow> conn_ok ctl fd c k) \<and>
     k_open k = es_fds base s \<and> (if es_running s then own_fds base s else es_clients s = [])"

definition fd_alloc :: "(int set \<Rightarrow> int) \<Rightarrow> bool" where
  "fd_alloc alloc \<longleftrightarrow> (\<forall>fds. finite fds \<longrightarrow> 0 \<le> alloc fds \<and> alloc fds \<notin> fds)"

lemma es_invD:
  assumes "es_inv ctl base s k"
  shows "finite (k_open k)" "k_bad_close k = 0"
  using assms unfolding es_inv_def by blast+

lemma es_inv_kernel:
  assumes "es_inv ctl base s k" "k_open k' = k_open k" "k_bad_close k' = k_bad_close k"
    and "\<And>fd c. map_of (es_clients s) fd = Some c \<Longrightarrow> conn_ok ctl fd c k'"
  shows "es_inv ctl base s k'"
  using assms unfolding es_inv_def by metis

lemma es_inv_new: "finite base \<Longrightarrow> es_inv ctl base epoll_server_new (k_init base)"
  by (simp add: es_inv_def epoll_server_new_def k_init_def es_fds_def)

lemma conn_ok_frame:
  assumes "only_fd fd' k k'" "fd \<noteq> fd'" "conn_ok ctl fd c k"
  shows "conn_ok ctl fd c k'"
proof -
  have "k_interest k' fd = k_interest k fd" "k_sent k' fd = k_sent k fd"
    using assms(1,2) by (simp_all add: only_fd_def)
  with assms(3) show ?thesis unfolding conn_ok_def output_of_def armed_def by metis
qed

lemma conn_ok_open [simp]: "conn_ok ctl fd c (k\<lparr>k_open := fds\<rparr>) = conn_ok ctl fd c k"
  by (simp add: conn_ok_def output_of_def armed_def)

lemma map_of_fst: "map_of xs a = Some b \<Longrightarrow> a \<in> fst ` set xs"
  by (metis map_of_SomeD fst_conv image_eqI)

lemma es_inv_start:
  assumes "es_inv ctl base s k" "fd_alloc alloc" "es_start alloc a s k = (b, s', k')"
  shows "es_inv ctl base s' k'"
proof (cases "es_running s")
  case True
  with assms show ?thesis by (simp add: es_start_def)
next
  case False
  with assms(1) have s: "es_clients s = []" "k_open k = base" "finite base" "k_bad_close k = 0"
    by (auto simp: es_inv_def es_fds_def)
  let ?l = "alloc base" let ?e = "alloc (insert (alloc base) base)"
  have fresh: "0 \<le> alloc fds \<and> alloc fds \<notin> fds" if "finite fds" for fds
    using assms(2) that by (simp add: fd_alloc_def)
  have l: "0 \<le> ?l" "?l \<notin> base" "0 \<le> ?e" "?e \<notin> base" "?e \<noteq> ?l"
    using fresh [OF s(3)] fresh [of "insert ?l base"] s(3) by simp_all
  have base: "insert ?l base - {?l} = base" "insert ?e (insert ?l base) - {?e} - {?l} = base"
    using l by auto
  note defs = es_inv_def es_fds_def own_fds_def k_new_fd_def k_close_def add_to_epoll_def
  show ?thesis
  proof (cases "create_listen_socket alloc a s k")
    case (fields c s1 k1)
    show ?thesis
    proof (cases c)
      case True
      with fields s have s1: "s1 = s\<lparr>es_listen_fd := ?l\<rparr>" "k1 = k_new_fd ?l k"
        by (auto simp: create_listen_socket_def Let_def split: if_splits)
      show ?thesis
      proof (cases "la_epoll_create a \<and> la_epoll_ctl a \<noteq> -1")
        case ok: True
        with assms(3) False fields True s s1 have "s' = s\<lparr>es_listen_fd := ?l, es_epoll_fd := ?e, es_running := True\<rparr>"
          "k' = snd (add_to_epoll ?l EPOLLIN (la_epoll_ctl a) (k_new_fd ?e (k_new_fd ?l k)))"
          by (auto simp: es_start_def defs Let_def)
        with ok l s show ?thesis by (simp add: defs) blast
      next
        case no: False
        with assms(3) False fields True s s1 l base show ?thesis
          by (auto simp: es_start_def defs Let_def split: if_splits)
      qed
    next
      case no: False
      with fields s base l have "es_clients s1 = []" "es_running s1 = False" "k_open k1 = base" "k_bad_close k1 = 0"
        by (auto simp: create_listen_socket_def Let_def defs \<open>\<not> es_running s\<close> split: if_splits)
      with assms(3) False fields no s(3) show ?thesis by (simp add: es_start_def defs)
    qed
  qed
qed

lemma fold_close:
  assumes "distinct (map fst cs)" "fst ` set cs \<subseteq> k_open k"
  shows "k_open (fold (\<lambda>(fd, _). k_close fd) cs k) = k_open k - fst ` set cs \<and>
    k_bad_close (fold (\<lambda>(fd, _). k_close fd) cs k) = k_bad_close k"
  using assms
proof (induction cs arbitrary: k)
  case (Cons x cs)
  obtain fd c where x: "x = (fd, c)" by force
  have "fst ` set cs \<subseteq> k_open (k_close fd k)" using Cons.prems x by (auto simp: k_close_def)
  with Cons.IH [of "k_close fd k"] Cons.prems x show ?case by (auto simp: k_close_def)
qed simp

lemma es_inv_stop:
  assumes "es_inv ctl base s k" "es_stop s k = (s', k')"
  shows "es_inv ctl base s' k' \<and> \<not> es_running s'"
proof (cases "es_running s")
  case True
  with assms(1) have i: "own_fds base s" "distinct (map fst (es_clients s))" "finite base" "k_bad_close k = 0"
    "k_open k = base \<union> {es_listen_fd s, es_epoll_fd s} \<union> fst ` set (es_clients s)"
    by (auto simp: es_inv_def es_fds_def)
  let ?k = "fold (\<lambda>(fd, _). k_close fd) (es_clients s) k"
  have "k_open ?k = k_open k - fst ` set (es_clients s) \<and> k_bad_close ?k = k_bad_close k"
    by (rule fold_close [OF i(2)]) (auto simp: i(5))
  then have "k_open ?k = base \<union> {es_listen_fd s, es_epoll_fd s}" "k_bad_close ?k = 0"
    using i(1,4) unfolding i(5) own_fds_def by (blast, simp)
  moreover have "es_epoll_fd s \<noteq> -1" "es_listen_fd s \<noteq> -1" using i(1) by (auto simp: own_fds_def)
  then have "s' = s\<lparr>es_running := False, es_clients := [], es_epoll_fd := -1, es_listen_fd := -1\<rparr>"
    "k' = k_close (es_listen_fd s) (k_close (es_epoll_fd s) ?k)"
    using assms(2) True by (auto simp: es_stop_def Let_def)
  moreover have "insert (es_listen_fd s) (insert (es_epoll_fd s) base) - {es_epoll_fd s} - {es_listen_fd s} = base"
    using i(1) by (auto simp: own_fds_def)
  ultimately show ?thesis
    using i(1,3,5) by (simp add: es_inv_def es_fds_def k_close_def own_fds_def)
next
  case False
  with assms show ?thesis by (simp add: es_stop_def)
qed

lemma es_inv_close_client:
  assumes "es_inv ctl base s k" "es_running s" "map_of (es_clients s) fd = Some c" "close_client fd s k = (s', k')"
  shows "es_inv ctl base s' k'"
proof -
  have i: "own_fds base s" "k_open k = base \<union> {es_listen_fd s, es_epoll_fd s} \<union> fst ` set (es_clients s)"
    using assms(1,2) by (simp_all add: es_inv_def es_fds_def)
  have fd: "fd \<in> fst ` set (es_clients s)" by (rule map_of_fst [OF assms(3)])
  have s': "s' = s\<lparr>es_clients := AList.delete fd (es_clients s)\<rparr>" "k_open k' = k_open k - {fd}"
    "k_bad_close k' = k_bad_close k" "only_fd fd (k\<lparr>k_open := k_open k'\<rparr>) k'"
  proof -
    have "fd \<in> k_open k" using fd i(2) by blast
    with assms(4) show "s' = s\<lparr>es_clients := AList.delete fd (es_clients s)\<rparr>" "k_open k' = k_open k - {fd}"
      "k_bad_close k' = k_bad_close k" "only_fd fd (k\<lparr>k_open := k_open k'\<rparr>) k'"
      by (auto simp: close_client_def k_close_def only_fd_def)
  qed
  have c: "conn_ok ctl fd' c' k'" if "map_of (es_clients s') fd' = Some c'" for fd' c'
  proof (rule conn_ok_frame [OF s'(4)])
    show "fd' \<noteq> fd" using that s'(1) by (auto simp: delete_conv')
    with that s'(1) have "map_of (es_clients s) fd' = Some c'" by (simp add: delete_conv')
    with assms(1) have "conn_ok ctl fd' c' k" by (simp add: es_inv_def)
    then show "conn_ok ctl fd' c' (k\<lparr>k_open := k_open k'\<rparr>)" by simp
  qed
  have keys: "fst ` set (es_clients s') = fst ` set (es_clients s) - {fd}" using s'(1) by (auto simp: AList.delete_eq)
  have f: "es_running s'" "es_listen_fd s' = es_listen_fd s" "es_epoll_fd s' = es_epoll_fd s"
    using s'(1) assms(2) by simp_all
  have nfd: "fd \<notin> base" "fd \<noteq> es_listen_fd s" "fd \<noteq> es_epoll_fd s" using i(1) fd unfolding own_fds_def by blast+
  have "k_open k' = es_fds base s'"
    unfolding es_fds_def f(2,3) keys s'(2) i(2) using nfd f(1) by auto
  moreover have "own_fds base s'" using i(1) unfolding own_fds_def f keys by blast
  moreover have "distinct (map fst (es_clients s'))" using assms(1) s'(1) by (simp add: es_inv_def distinct_delete)
  moreover have "finite (k_open k')" "k_bad_close k' = 0"
    using es_invD [OF assms(1)] s'(2,3) by simp_all
  ultimately show ?thesis using c f(1) by (simp add: es_inv_def)
qed

lemma conn_ok_new:
  assumes "k_interest k fd = Some (EPOLLIN OR EPOLLET)" "k_sent k fd = []"
  shows "conn_ok ctl fd (client_connection_new fd) k"
  using assms by (auto simp: conn_ok_def client_connection_new_def output_of_def armed_def intro: exI [of _ 0])

lemma es_inv_accepted:
  assumes "es_inv ctl base s k" "es_running s" "0 \<le> fd" "fd \<notin> k_open k"
  shows "es_inv ctl base (s\<lparr>es_clients := AList.update fd (client_connection_new fd) (es_clients s)\<rparr>)
    (snd (add_to_epoll fd EPOLLIN 0 (k_new_fd fd k)))" (is "es_inv _ _ ?s ?k")
proof -
  have i: "own_fds base s" "k_open k = base \<union> {es_listen_fd s, es_epoll_fd s} \<union> fst ` set (es_clients s)"
    using assms(1,2) by (simp_all add: es_inv_def es_fds_def)
  have c: "conn_ok ctl fd' c' ?k" if "map_of (es_clients ?s) fd' = Some c'" for fd' c'
  proof (cases "fd' = fd")
    case True
    with that show ?thesis
      by (auto simp: update_conv' add_to_epoll_def k_new_fd_def intro!: conn_ok_new)
  next
    case False
    have o: "only_fd fd (k\<lparr>k_open := insert fd (k_open k)\<rparr>) ?k"
      by (simp add: only_fd_def add_to_epoll_def k_new_fd_def)
    from False that have "map_of (es_clients s) fd' = Some c'" by (simp add: update_conv')
    with assms(1) have "conn_ok ctl fd' c' k" by (simp add: es_inv_def)
    then have "conn_ok ctl fd' c' (k\<lparr>k_open := insert fd (k_open k)\<rparr>)" by simp
    from conn_ok_frame [OF o False this] show ?thesis .
  qed
  have keys: "fst ` set (es_clients ?s) = insert fd (fst ` set (es_clients s))" by (simp add: dom_update)
  have f: "es_running ?s" "es_listen_fd ?s = es_listen_fd s" "es_epoll_fd ?s = es_epoll_fd s"
    "k_open ?k = insert fd (k_open k)" "k_bad_close ?k = k_bad_close k"
    using assms(2) by (simp_all add: add_to_epoll_def k_new_fd_def)
  have "k_open ?k = es_fds base ?s" unfolding es_fds_def f(2-) keys i(2) using f(1) by auto
  moreover have "own_fds base ?s" using i assms(4) unfolding own_fds_def f keys by blast
  moreover have "distinct (map fst (es_clients ?s))" using assms(1) by (simp add: es_inv_def distinct_update)
  moreover have "finite (k_open ?k)" "k_bad_close ?k = 0"
    using es_invD [OF assms(1)] f(4,5) by simp_all
  ultimately show ?thesis using c f(1) unfolding es_inv_def by presburger
qed

lemma es_inv_refused:
  assumes "es_inv ctl base s k" "es_running s" "fd \<notin> k_open k"
  shows "es_inv ctl base s (k_close fd (k_new_fd fd k))" (is "es_inv _ _ _ ?k")
proof -
  have o: "only_fd fd k ?k" using assms(3) by (simp add: only_fd_def k_close_def k_new_fd_def)
  have c: "conn_ok ctl fd' c' ?k" if "map_of (es_clients s) fd' = Some c'" for fd' c'
  proof (rule conn_ok_frame [OF o])
    show "conn_ok ctl fd' c' k" using that assms(1) by (simp add: es_inv_def)
    show "fd' \<noteq> fd" using map_of_fst [OF that] assms by (auto simp: es_inv_def es_fds_def)
  qed
  show ?thesis by (rule es_inv_kernel [OF assms(1) _ _ c]) (use o in \<open>simp_all add: only_fd_def\<close>)
qed

lemma es_inv_accept:
  assumes "es_inv ctl base s k" "es_running s" "fd_alloc alloc" "accept_connection alloc as s k = Some (s', k')"
  shows "es_inv ctl base s' k' \<and> es_running s'"
  using assms
proof (induction alloc as s k rule: accept_connection.induct)
  case (4 alloc flags setfl ctl' as s k)
  let ?fd = "alloc (k_open k)"
  have fd: "0 \<le> ?fd" "?fd \<notin> k_open k" using 4(6) es_invD(1) [OF 4(4)] by (simp_all add: fd_alloc_def)
  show ?case
  proof (cases "set_nonblocking flags setfl \<and> ctl' \<noteq> -1")
    case True
    then have a: "add_to_epoll ?fd EPOLLIN ctl' (k_new_fd ?fd k) = (True, snd (add_to_epoll ?fd EPOLLIN 0 (k_new_fd ?fd k)))"
      by (simp add: add_to_epoll_def)
    show ?thesis
      using 4(2) [OF refl refl _ a [symmetric] _ es_inv_accepted [OF 4(4,5) fd]] True 4(5-7)
      by (simp add: a Let_def)
  next
    case False
    then consider "\<not> set_nonblocking flags setfl" | "set_nonblocking flags setfl" "ctl' = -1" by blast
    then show ?thesis
    proof cases
      case 1
      with 4(1) [OF refl refl 1 es_inv_refused [OF 4(4,5) fd(2)] 4(5,6)] 4(7) show ?thesis by (simp add: Let_def)
    next
      case 2
      then have a: "add_to_epoll ?fd EPOLLIN ctl' (k_new_fd ?fd k) = (False, k_new_fd ?fd k)"
        by (simp add: add_to_epoll_def)
      show ?thesis
        using 4(3) [OF refl refl _ a [symmetric] _ es_inv_refused [OF 4(4,5) fd(2)] 4(5,6)] 2 4(7)
        by (simp add: a [unfolded 2(2)] Let_def)
    qed
  qed
qed auto

lemma es_inv_put:
  assumes "es_inv ctl base s k" "map_of (es_clients s) fd = Some c" "only_fd fd k k'" "conn_ok ctl fd c' k'"
  shows "es_inv ctl base (s\<lparr>es_clients := AList.update fd c' (es_clients s)\<rparr>) k'" (is "es_inv _ _ ?s _")
proof -
  have "fst ` set (es_clients ?s) = fst ` set (es_clients s)"
    using map_of_fst [OF assms(2)] by (auto simp: dom_update)
  moreover have "es_running s" using assms(1,2) by (auto simp: es_inv_def split: if_splits)
  moreover have "distinct (map fst (es_clients ?s))" using assms(1) by (simp add: es_inv_def distinct_update)
  ultimately have s: "es_inv ctl base s k \<Longrightarrow> es_fds base ?s = es_fds base s \<and> own_fds base ?s \<and> es_running ?s \<and>
      distinct (map fst (es_clients ?s))"
    unfolding es_inv_def es_fds_def own_fds_def by simp
  have c: "conn_ok ctl fd' c'' k'" if "map_of (es_clients ?s) fd' = Some c''" for fd' c''
  proof (cases "fd' = fd")
    case True
    with that assms(4) show ?thesis by (simp add: update_conv')
  next
    case False
    with that have "map_of (es_clients s) fd' = Some c''" by (simp add: update_conv')
    with assms(1) conn_ok_frame [OF assms(3) False] show ?thesis by (simp add: es_inv_def)
  qed
  have k: "k_open k' = k_open k" "k_bad_close k' = k_bad_close k" using assms(3) by (simp_all add: only_fd_def)
  show ?thesis
    unfolding es_inv_def k
  proof (intro conjI allI impI)
    show "if es_running ?s then own_fds base ?s else es_clients ?s = []" using s [OF assms(1)] by presburger
    show "k_open k = es_fds base ?s" using s [OF assms(1)] assms(1) [unfolded es_inv_def] by presburger
  qed (use s [OF assms(1)] c es_invD [OF assms(1)] in blast)+
qed

definition event_ctl_ok :: "epoll_event \<Rightarrow> bool" where
  "event_ctl_ok ev \<longleftrightarrow> list_all recv_ctl_ok (ev_recvs ev) \<and> ev_ctl ev \<noteq> -1"

lemma conn_ok_read:
  assumes "conn_ok ctl fd c k" "ctl \<longrightarrow> list_all recv_ctl_ok rs"
    and "handle_client_read ok handler rs c k h = Some (Inr (c', k', h'))"
  shows "conn_ok ctl fd c' k' \<and> only_fd fd k k' \<and> h' = h"
proof -
  note f = handle_client_read_frame [OF assms(3)]
  have fd: "cc_fd c = fd" using assms(1) by (simp add: conn_ok_def)
  obtain n where n: "output_of c k = concat (replicate n invalid_command)" using assms(1) by (auto simp: conn_ok_def)
  from f obtain m where "cc_write_buffer c' = cc_write_buffer c @ concat (replicate m invalid_command)" by blast
  with n f have "output_of c' k' = concat (replicate (n + m) invalid_command)"
    by (simp add: output_of_def replicate_add flip: append_assoc)
  with f fd assms(1,2) show ?thesis by (auto simp: conn_ok_def)
qed

lemma conn_ok_write:
  assumes "conn_ok ctl fd c k" "ctl \<longrightarrow> r \<noteq> -1" "handle_client_write as r c k = Some (c', k')"
  shows "conn_ok ctl fd c' k' \<and> only_fd fd k k'"
proof -
  note f = handle_client_write_frame [OF assms(3)]
  have fd: "cc_fd c = fd" using assms(1) by (simp add: conn_ok_def)
  have "armed c k \<longrightarrow> cc_write_buffer c \<noteq> [] \<longrightarrow> k_interest k (cc_fd c) = Some ((EPOLLIN OR EPOLLOUT) OR EPOLLET)"
    by (simp add: armed_def)
  with f fd assms(1,2) show ?thesis unfolding conn_ok_def by metis
qed

lemma es_inv_client_event:
  assumes "es_inv ctl base s k" "map_of (es_clients s) (ev_fd ev) = Some c" "ctl \<longrightarrow> event_ctl_ok ev"
    and "handle_client_event ok ev c (s, k, h) = Some (Inr (s', k', h'))"
  shows "es_inv ctl base s' k' \<and> es_running s' \<and> h' = h"
proof -
  have c: "conn_ok ctl (ev_fd ev) c k" using assms(1,2) by (simp add: es_inv_def)
  have run: "es_running s" using assms(1,2) by (auto simp: es_inv_def split: if_splits)
  obtain c1 k1 h1 where r: "(if ev_events ev AND EPOLLIN \<noteq> 0
        then handle_client_read ok (es_command_handler s) (ev_recvs ev) c k h else Some (Inr (c, k, h))) =
      Some (Inr (c1, k1, h1))"
    using assms(4) by (auto simp: handle_client_event_def split: option.splits sum.splits)
  have 1: "conn_ok ctl (ev_fd ev) c1 k1 \<and> only_fd (ev_fd ev) k k1 \<and> h1 = h"
    using r c conn_ok_read [OF c, of "ev_recvs ev" ok "es_command_handler s" h c1 k1 h1] assms(3) unfolding event_ctl_ok_def
    by (cases "ev_events ev AND EPOLLIN \<noteq> 0") simp_all
  obtain c2 k2 where w: "(if ev_events ev AND EPOLLOUT \<noteq> 0
        then handle_client_write (ev_sends ev) (ev_ctl ev) c1 k1 else Some (c1, k1)) = Some (c2, k2)"
    using assms(4) unfolding handle_client_event_def prod.case r by (auto split: option.splits)
  have 2: "conn_ok ctl (ev_fd ev) c2 k2 \<and> only_fd (ev_fd ev) k1 k2"
    using w 1 conn_ok_write [OF conjunct1 [OF 1], of "ev_ctl ev" "ev_sends ev" c2 k2] assms(3) unfolding event_ctl_ok_def
    by (cases "ev_events ev AND EPOLLOUT \<noteq> 0") simp_all
  let ?s = "s\<lparr>es_clients := AList.update (ev_fd ev) c2 (es_clients s)\<rparr>"
  have i: "es_inv ctl base ?s k2"
    by (rule es_inv_put [OF assms(1,2)]) (use 1 2 only_fd_trans in blast)+
  have res: "(if cc_should_close c2 then close_client (ev_fd ev) ?s k2 else (?s, k2)) = (s', k') \<and> h' = h"
    using assms(4) 1 unfolding handle_client_event_def prod.case r
    by (auto simp: w Let_def split: prod.splits if_splits)
  have "map_of (es_clients ?s) (ev_fd ev) = Some c2" by (simp add: update_conv')
  from es_inv_close_client [OF i _ this] res i run show ?thesis
    by (cases "cc_should_close c2") (auto simp: close_client_def)
qed

lemma es_inv_event:
  assumes "es_inv ctl base s k" "es_running s" "fd_alloc alloc" "ctl \<longrightarrow> event_ctl_ok ev"
    and "handle_event alloc ok ev (s, k, h) = Some (Inr (s', k', h'))"
  shows "es_inv ctl base s' k' \<and> es_running s' \<and> h' = h"
proof (cases "ev_fd ev = es_listen_fd s")
  case True
  show ?thesis
  proof (cases "ev_events ev AND EPOLLIN = 0")
    case False
    with True assms(5) obtain r where "accept_connection alloc (ev_accepts ev) s k = Some r" "r = (s', k')" "h' = h"
      by (auto simp: handle_event_def)
    with es_inv_accept [OF assms(1-3)] show ?thesis by simp
  qed (use True assms in \<open>simp add: handle_event_def\<close>)
next
  case l: False
  show ?thesis
  proof (cases "map_of (es_clients s) (ev_fd ev)")
    case None
    with l assms show ?thesis by (simp add: handle_event_def)
  next
    case (Some c)
    show ?thesis
    proof (cases "ev_events ev AND (EPOLLERR OR EPOLLHUP) = 0")
      case True
      with l Some assms(5) have "handle_client_event ok ev c (s, k, h) = Some (Inr (s', k', h'))"
        by (simp add: handle_event_def)
      from es_inv_client_event [OF assms(1) Some assms(4) this] show ?thesis .
    next
      case False
      with l Some assms(5) have "close_client (ev_fd ev) s k = (s', k')" "h' = h"
        by (auto simp: handle_event_def split: prod.splits)
      with es_inv_close_client [OF assms(1,2) Some this(1)] assms(2) show ?thesis by (auto simp: close_client_def)
    qed
  qed
qed

lemma es_inv_events:
  assumes "es_inv ctl base s k" "es_running s" "fd_alloc alloc" "ctl \<longrightarrow> list_all event_ctl_ok evs"
    and "handle_events alloc ok evs (s, k, h) = Some (Inr (s', k', h'))"
  shows "es_inv ctl base s' k' \<and> es_running s' \<and> h' = h"
  using assms
proof (induction evs arbitrary: s k h)
  case (Cons ev evs)
  then obtain s1 k1 h1 where e: "handle_event alloc ok ev (s, k, h) = Some (Inr (s1, k1, h1))"
    and es: "handle_events alloc ok evs (s1, k1, h1) = Some (Inr (s', k', h'))"
    by (auto split: option.splits sum.splits)
  from es_inv_event [OF Cons.prems(1-3) _ e] Cons.prems(4) have "es_inv ctl base s1 k1 \<and> es_running s1 \<and> h1 = h"
    by simp
  with Cons.IH [OF _ _ Cons.prems(3) _ es] Cons.prems(4) show ?case by simp
qed simp

section \<open>Reachable states\<close>

text \<open>The states of a server between two passes of its event loop: it is created in a process with the
  descriptors \<open>base\<close>, gets a handler, is started and stopped any number of times, and handles
  batches of events whose answers satisfy \<open>answers\<close>.\<close>

inductive es_reach ::
    "(int set \<Rightarrow> int) \<Rightarrow> (nat \<Rightarrow> bool) \<Rightarrow> (epoll_event \<Rightarrow> bool) \<Rightarrow> int set \<Rightarrow> 'h \<Rightarrow> 'h server_state \<Rightarrow> bool"
  for alloc ok answers base h0 where
  reach_new: "es_reach alloc ok answers base h0 (epoll_server_new, k_init base, h0)"
| reach_handler: "es_reach alloc ok answers base h0 (s, k, h) \<Longrightarrow>
    es_reach alloc ok answers base h0 (set_command_handler handler s, k, h)"
| reach_start: "es_reach alloc ok answers base h0 (s, k, h) \<Longrightarrow> es_start alloc a s k = (b, s', k') \<Longrightarrow>
    es_reach alloc ok answers base h0 (s', k', h)"
| reach_events: "es_reach alloc ok answers base h0 (s, k, h) \<Longrightarrow> es_running s \<Longrightarrow> list_all answers evs \<Longrightarrow>
    handle_events alloc ok evs (s, k, h) = Some (Inr st) \<Longrightarrow> es_reach alloc ok answers base h0 st"
| reach_stop: "es_reach alloc ok answers base h0 (s, k, h) \<Longrightarrow> es_stop s k = (s', k') \<Longrightarrow>
    es_reach alloc ok answers base h0 (s', k', h)"

lemma es_inv_handler: "es_inv ctl base (set_command_handler handler s) k = es_inv ctl base s k"
  by (simp add: es_inv_def es_fds_def own_fds_def set_command_handler_def)

lemma es_reach_inv:
  assumes "es_reach alloc ok answers base h0 st" "fd_alloc alloc" "finite base"
    and "ctl \<Longrightarrow> answers = event_ctl_ok"
  shows "es_inv ctl base (fst st) (fst (snd st)) \<and> snd (snd st) = h0"
  using assms(1)
proof (induction rule: es_reach.induct)
  case reach_new
  show ?case using es_inv_new [OF assms(3)] by simp
next
  case (reach_handler s k h handler)
  then show ?case by (simp add: es_inv_handler)
next
  case (reach_start s k h a b s' k')
  then show ?case using es_inv_start [OF _ assms(2) reach_start.hyps(2), of ctl base] by simp
next
  case (reach_events s k h evs st)
  obtain s' k' h' where st: "st = (s', k', h')" by (metis prod.exhaust)
  have "es_inv ctl base s k" "ctl \<longrightarrow> list_all event_ctl_ok evs" using reach_events assms(4) by auto
  from es_inv_events [OF this(1) reach_events.hyps(2) assms(2) this(2) reach_events.hyps(4) [unfolded st]]
  show ?case using reach_events.IH st by simp
next
  case (reach_stop s k h s' k')
  then show ?case using es_inv_stop [of ctl base s k s' k'] by simp
qed

text \<open>The event loop stays within these states.\<close>

lemma es_run_reach:
  assumes "es_reach alloc ok (\<lambda>_. True) base h0 st" "es_run alloc ok ws st = Some (Inr st')"
  shows "es_reach alloc ok (\<lambda>_. True) base h0 st'"
  using assms
proof (induction ws arbitrary: st)
  case (Cons x ws)
  obtain stopped w s k h where x: "x = (stopped, w)" "st = (s, k, h)" by (metis prod.exhaust)
  obtain s1 k1 where s1: "(if stopped then es_stop s k else (s, k)) = (s1, k1)" by force
  have r: "es_reach alloc ok (\<lambda>_. True) base h0 (s1, k1, h)"
    using Cons.prems(1) x s1 reach_stop by (cases stopped) auto
  have run: "(if \<not> es_running s1 then Some (Inr (s1, k1, h))
      else case w of Interrupted \<Rightarrow> es_run alloc ok ws (s1, k1, h) | Wait_failed \<Rightarrow> Some (Inr (s1, k1, h))
        | Events evs \<Rightarrow> (case handle_events alloc ok evs (s1, k1, h) of
            Some (Inr st) \<Rightarrow> es_run alloc ok ws st | r \<Rightarrow> r)) = Some (Inr st')"
    using Cons.prems(2) by (simp only: x es_run.simps Let_def s1 prod.case)
  show ?case
  proof (cases "es_running s1")
    case True
    show ?thesis
    proof (cases w)
      case (Events evs)
      with run True obtain st1 where e: "handle_events alloc ok evs (s1, k1, h) = Some (Inr st1)"
        "es_run alloc ok ws st1 = Some (Inr st')" by (auto split: option.splits sum.splits)
      have "list_all (\<lambda>_. True) evs" by (simp add: list_all_def)
      from Cons.IH [OF reach_events [OF r True this e(1)] e(2)] show ?thesis .
    qed (use run True r Cons.IH in simp_all)
  qed (use run r in simp)
qed simp

text \<open>A run: a server started in a process with three descriptors accepts a client, which sends a
  simple string.\<close>

definition next_fd :: "int set \<Rightarrow> int" where
  "next_fd fds = Max (insert 2 fds) + 1"

lemma next_fd_alloc: "fd_alloc next_fd"
proof -
  have "0 \<le> next_fd fds \<and> next_fd fds \<notin> fds" if "finite fds" for fds
  proof -
    have "fd \<le> Max (insert 2 fds)" if "fd \<in> insert 2 fds" for fd using \<open>finite fds\<close> that by simp
    from this [of 2] this [of "next_fd fds"] show ?thesis by (auto simp: next_fd_def)
  qed
  then show ?thesis by (simp add: fd_alloc_def)
qed

definition demo_start :: start_answers where
  "demo_start = \<lparr>la_socket = True, la_reuseaddr = 0, la_reuseport = 0, la_bind = 0, la_listen = 0, la_getfl = 2,
     la_setfl = 0, la_epoll_create = True, la_epoll_ctl = 0\<rparr>"

definition demo_accept :: epoll_event where
  "demo_accept = \<lparr>ev_fd = 3, ev_events = EPOLLIN, ev_accepts = [Accepted 2 0 0, Accept_again], ev_recvs = [],
     ev_sends = [], ev_ctl = 0\<rparr>"

definition demo_request :: epoll_event where
  "demo_request = \<lparr>ev_fd = 5, ev_events = EPOLLIN, ev_accepts = [],
     ev_recvs = [Received (''+A'' @ crlf) 0, Recv_again], ev_sends = [], ev_ctl = 0\<rparr>"

definition demo_client :: client_connection where
  "demo_client = (client_connection_new 5)\<lparr>cc_write_buffer := invalid_command\<rparr>"

definition demo_server :: "nat epoll_server" where
  "demo_server = \<lparr>es_command_handler = Some (\<lambda>cmd n. (''+OK'', Suc n)), es_listen_fd = 3, es_epoll_fd = 4,
     es_running = True, es_clients = [(5, demo_client)]\<rparr>"

definition demo_kernel :: kernel where
  "demo_kernel = \<lparr>k_open = {0, 1, 2, 3, 4, 5},
     k_interest = [3 \<mapsto> EPOLLIN OR EPOLLET, 5 \<mapsto> EPOLLIN OR EPOLLOUT OR EPOLLET], k_sent = \<lambda>_. [], k_bad_close = 0\<rparr>"

lemma demo_started:
  "es_start next_fd demo_start (set_command_handler handler epoll_server_new) (k_init {0, 1, 2}) =
    (True, \<lparr>es_command_handler = Some handler, es_listen_fd = 3, es_epoll_fd = 4, es_running = True, es_clients = []\<rparr>,
     \<lparr>k_open = {0, 1, 2, 3, 4}, k_interest = [3 \<mapsto> EPOLLIN OR EPOLLET], k_sent = (\<lambda>_. []), k_bad_close = 0\<rparr>)"
  by (auto simp: es_start_def create_listen_socket_def demo_start_def set_command_handler_def epoll_server_new_def
      k_init_def k_new_fd_def next_fd_def set_nonblocking_def add_to_epoll_def fun_eq_iff)

lemma demo_parse:
  "parse ok resp_parser_new (''+A'' @ crlf) = Some (Inr (Some (resp_simple_string ''A''), resp_parser_new))"
  using parse_scalar [of "resp_simple_string ''A''" ok "[]"] by (simp add: resp_simple_string_def)

lemma EPOLLIN_simps [simp]:
  "EPOLLIN \<noteq> 0" "EPOLLIN AND EPOLLOUT = 0" "EPOLLIN AND (EPOLLERR OR EPOLLHUP) = 0"
  by (simp_all add: EPOLLIN_def EPOLLOUT_def EPOLLERR_def EPOLLHUP_def)

lemma demo_events:
  "handle_events next_fd ok [demo_accept, demo_request]
     (\<lparr>es_command_handler = Some (\<lambda>cmd n. (''+OK'', Suc n)), es_listen_fd = 3, es_epoll_fd = 4, es_running = True, es_clients = []\<rparr>,
      \<lparr>k_open = {0, 1, 2, 3, 4}, k_interest = [3 \<mapsto> EPOLLIN OR EPOLLET], k_sent = (\<lambda>_. []), k_bad_close = 0\<rparr>, 0) =
   Some (Inr (demo_server, demo_kernel, 0))"
proof -
  have r: "answer_loop ok handler (Some (resp_simple_string ''A'')) (client_connection_new 5) h =
      Some (Inr (demo_client, h))" for handler and h :: nat
    by (subst answer_loop_some) (simp_all add: resp_simple_string_def demo_client_def client_connection_new_def)
  have p: "(client_connection_new 5)\<lparr>cc_parser := resp_parser_new\<rparr> = client_connection_new 5"
    "cc_parser (client_connection_new 5) = resp_parser_new" "cc_fd demo_client = 5" "\<not> cc_should_close demo_client"
    "cc_write_buffer demo_client \<noteq> []"
    by (simp_all add: client_connection_new_def demo_client_def invalid_command_not_Nil)
  have k: "{0, 1, 2, 3, 4, 5::int} = insert 5 {0, 1, 2, 3, 4}" by auto
  show ?thesis
    by (simp add: handle_event_def handle_client_event_def demo_accept_def demo_request_def set_nonblocking_def
        next_fd_def k_new_fd_def add_to_epoll_def modify_epoll_def demo_parse [simplified] r p demo_server_def demo_kernel_def k
        fun_eq_iff or.assoc)
qed

lemma demo_reach:
  assumes "answers demo_accept" "answers demo_request"
  shows "es_reach next_fd ok answers {0, 1, 2} 0 (demo_server, demo_kernel, 0)"
  by (rule reach_events [OF reach_start [OF reach_handler [OF reach_new] demo_started] _ _ demo_events])
    (simp_all add: assms)

text \<open>C15. The server owns exactly its descriptors: in every reachable state, whatever the kernel answered,
  the open descriptors are those the process had, and while the server runs its listening socket, its
  epoll instance and one per client; no failed call leaks one, and none is closed twice.\<close>

theorem server_descriptors_exact:
  assumes "fd_alloc alloc" "finite base" "es_reach alloc ok answers base h0 (s, k, h)"
  shows "k_open k = (if es_running s then base \<union> {es_listen_fd s, es_epoll_fd s} \<union> fst ` set (es_clients s) else base) \<and>
    k_bad_close k = 0"
  using es_reach_inv [OF assms(3,1,2), of False] by (simp add: es_inv_def es_fds_def)

theorem server_descriptors_exact_witness:
  "k_open demo_kernel = {0, 1, 2} \<union> {3, 4} \<union> {5} \<and> k_bad_close demo_kernel = 0"
  using server_descriptors_exact [OF next_fd_alloc, of "{0, 1, 2}" "\<lambda>_. True" "\<lambda>_. True" 0 demo_server demo_kernel 0]
    demo_reach [of "\<lambda>_. True" "\<lambda>_. True"]
  by (simp add: demo_server_def)



text \<open>C18. Pending output is never forgotten: as long as \<open>epoll_ctl\<close> does not refuse to change a
  registration, in every reachable state each client is registered for \<open>EPOLLOUT\<close> exactly when its
  write buffer is not empty, so that an edge-triggered wait reports it as soon as it is writable.\<close>

theorem pending_output_registered:
  assumes "fd_alloc alloc" "finite base" "es_reach alloc ok event_ctl_ok base h0 (s, k, h)"
    and "map_of (es_clients s) fd = Some c"
  shows "k_interest k fd = Some ((if cc_write_buffer c = [] then EPOLLIN else EPOLLIN OR EPOLLOUT) OR EPOLLET)"
proof -
  have "es_inv True base s k" using es_reach_inv [OF assms(3,1,2), of True] by simp
  then have "conn_ok True fd c k" using assms(4) by (simp add: es_inv_def)
  then show ?thesis by (auto simp: conn_ok_def armed_def)
qed

theorem pending_output_registered_witness:
  "k_interest demo_kernel 5 = Some ((EPOLLIN OR EPOLLOUT) OR EPOLLET)"
proof -
  have c: "event_ctl_ok demo_accept" "event_ctl_ok demo_request"
    by (simp_all add: event_ctl_ok_def demo_accept_def demo_request_def)
  have "map_of (es_clients demo_server) 5 = Some demo_client" by (simp add: demo_server_def)
  from pending_output_registered [OF next_fd_alloc _ demo_reach [OF c, of "\<lambda>_. True"] this] show ?thesis
    by (simp add: demo_client_def invalid_command_not_Nil)
qed

text \<open>C39. Accepting ends only when the kernel says that no connection is waiting: the accept loop returns
  if and only if some answer is \<open>EAGAIN\<close>. While \<open>accept\<close> keeps failing otherwise, as it does when
  the process is out of descriptors, the event loop spins there and serves nobody.\<close>

theorem accept_returns_iff:
  "(\<exists>r. accept_connection alloc as s k = Some r) \<longleftrightarrow> Accept_again \<in> set as"
proof (induction as arbitrary: s k)
  case (Cons a as)
  then show ?case by (cases a) (auto simp: Let_def add_to_epoll_def)
qed simp

lemma handle_client_read_eof:
  assumes "[] \<notin> set ds" "\<forall>n. announced (feed (cc_parser c) (concat ds)) n \<longrightarrow> ok n"
  shows "\<exists>c' k'. handle_client_read ok handler (map (\<lambda>d. Received d 0) ds @ [Received [] 0]) c k h =
      Some (Inr (c', k', h)) \<and> cc_should_close c'"
  using assms
proof (induction ds arbitrary: c k)
  case (Cons d ds)
  then have d: "d \<noteq> []" "[] \<notin> set ds" by auto
  have rem: "\<forall>n. announced (feed p (concat ds)) n \<longrightarrow> ok n" if "remains p (feed (cc_parser c) d)" for p
    using remains_announced [OF remains_feed [OF that, of "concat ds"]] Cons.prems(2) by simp
  from d(1) show ?case
  proof (cases rule: handle_client_read_cases
      [of d c ok handler 0 "map (\<lambda>d. Received d 0) ds @ [Received [] 0]" k h])
    case (throw e n)
    with announced_feed [of "feed (cc_parser c) d" n "concat ds"] Cons.prems(2) show ?thesis by simp
  next
    case (quiet p)
    from Cons.IH [of "c\<lparr>cc_parser := p\<rparr>", OF d(2)] rem [OF quiet(2)] quiet(1) show ?thesis by simp
  next
    case reply
    let ?c = "c\<lparr>cc_parser := resp_parser_new, cc_write_buffer := cc_write_buffer c @ invalid_command\<rparr>"
    from Cons.IH [of ?c, OF d(2)] rem [OF remains_new] reply show ?thesis by simp
  qed
qed simp

text \<open>C40. A client that half-closes loses its replies: when the bytes a client sent and the end of its
  stream are read in one event that reports neither an error nor that the socket can be written
  (no \<open>EPOLLOUT\<close>, so nothing is sent after the reads), the connection is closed and dropped from the
  server with nothing sent, whatever replies the bytes produced and whatever was still pending. The
  array lengths announced in those bytes must be ones that can be reserved, since the parser throws
  otherwise.\<close>

theorem eof_discards_replies:
  assumes "map_of (es_clients s) fd = Some c" "fd \<noteq> es_listen_fd s" "ev_fd ev = fd"
    and "ev_events ev AND EPOLLIN \<noteq> 0" "ev_events ev AND EPOLLOUT = 0"
    and "ev_events ev AND (EPOLLERR OR EPOLLHUP) = 0"
    and "ev_recvs ev = map (\<lambda>d. Received d 0) ds @ [Received [] 0]" "[] \<notin> set ds"
    and "\<forall>n. announced (feed (cc_parser c) (concat ds)) n \<longrightarrow> ok n"
  shows "\<exists>s' k'. handle_event alloc ok ev (s, k, h) = Some (Inr (s', k', h)) \<and> k_sent k' = k_sent k \<and>
    map_of (es_clients s') fd = None \<and> fd \<notin> k_open k'"
proof -
  obtain c' k' where r: "handle_client_read ok (es_command_handler s) (ev_recvs ev) c k h = Some (Inr (c', k', h))"
    and close: "cc_should_close c'"
    using handle_client_read_eof [OF assms(8,9), of "es_command_handler s" k h] unfolding assms(7) by blast
  have "k_sent k' = k_sent k" using handle_client_read_frame [OF r] by blast
  then show ?thesis
    using assms(1-6) close
    by (simp add: handle_event_def handle_client_event_def r close_client_def k_close_def delete_conv')
qed

theorem eof_discards_replies_witness:
  "\<exists>s' k'. handle_event next_fd (\<lambda>_. True)
      (demo_request\<lparr>ev_recvs := [Received (''+A'' @ crlf) 0, Received [] 0]\<rparr>) (demo_server, demo_kernel, 0) =
      Some (Inr (s', k', 0)) \<and> k_sent k' = k_sent demo_kernel \<and> map_of (es_clients s') 5 = None \<and> 5 \<notin> k_open k'"
  by (rule eof_discards_replies [where c = demo_client and ds = "[''+A'' @ crlf]"])
    (simp_all add: demo_server_def demo_request_def)

text \<open>C27. Stopping ends the event loop and releases everything: once another thread has called \<open>stop\<close>,
  the next pass of \<open>run\<close> returns without handling an event, with no clients and with the
  descriptors the process had before the server.\<close>

theorem stop_ends_run:
  assumes "fd_alloc alloc" "finite base" "es_reach alloc ok answers base h0 (s, k, h)"
  shows "\<exists>s' k'. es_run alloc ok ((True, w) # ws) (s, k, h) = Some (Inr (s', k', h)) \<and>
    \<not> es_running s' \<and> es_clients s' = [] \<and> k_open k' = base \<and> k_bad_close k' = 0"
proof -
  obtain s' k' where st: "es_stop s k = (s', k')" by force
  have "es_inv False base s k" using es_reach_inv [OF assms(3,1,2), of False] by simp
  from es_inv_stop [OF this st] have "\<not> es_running s'" "es_inv False base s' k'" by simp_all
  then show ?thesis using st
    by (intro exI [of _ s'] exI [of _ k']) (simp add: es_inv_def es_fds_def)
qed

theorem stop_ends_run_witness:
  "\<exists>s' k'. es_run next_fd (\<lambda>_. True) [(True, Interrupted)] (demo_server, demo_kernel, 0) = Some (Inr (s', k', 0)) \<and>
    es_clients s' = [] \<and> k_open k' = {0, 1, 2}"
  using stop_ends_run [OF next_fd_alloc _ demo_reach [of "\<lambda>_. True" "\<lambda>_. True"], of Interrupted "[]"] by auto

end
