(* ===== verification/TTL_Scanner.thy ===== *)
theory TTL_Scanner
  imports KV_Store Table_Properties
begin

text \<open>
  The expiry scanner thread of a table: \<open>start_ttl_scanner\<close>, \<open>stop_ttl_scanner\<close> and the
  destructor of \<open>engine/src/hash_table.cpp\<close>. The thread is a program counter, the
  \<open>unique_ptr\<close> to it says whether there is one and whether it can still be joined, and a call of
  \<open>stop_ttl_scanner\<close> that has reached \<open>join\<close> is the flag \<open>tt_joining\<close>. The sources take no lock:
  operations of the table and rounds of the scanner interleave as whole operations here, and runs in
  which two of them overlap are data races and have no behaviour to model.
\<close>

section \<open>State and steps\<close>

datatype scanner_thread = P_Check | P_Scan | P_Sleep | P_Exit

datatype thread_ptr = No_thread | Joinable scanner_thread | Joined

record ttl_table =
  tt_table :: hash_table
  tt_thread :: thread_ptr
  tt_stop :: bool
  tt_interval :: u64
  tt_joining :: bool

definition tt_new :: "hash_table \<Rightarrow> ttl_table" where
  "tt_new t = \<lparr>tt_table = t, tt_thread = No_thread, tt_stop = False, tt_interval = 100, tt_joining = False\<rparr>"

text \<open>Assigning the new thread destroys the old \<open>std::thread\<close>, which terminates the process if it
  is still joinable.\<close>

datatype scanner_exn = Std_terminate

definition start_ttl_scanner :: "u64 \<Rightarrow> ttl_table \<Rightarrow> scanner_exn + ttl_table" where
  "start_ttl_scanner scan_interval_ms t =
     (let t = t\<lparr>tt_interval := scan_interval_ms, tt_stop := False\<rparr>
      in case tt_thread t of
           Joinable _ \<Rightarrow> Inl Std_terminate
         | _ \<Rightarrow> Inr (t\<lparr>tt_thread := Joinable P_Check\<rparr>))"

definition stop_ttl_scanner :: "ttl_table \<Rightarrow> ttl_table" where
  "stop_ttl_scanner t =
     (case tt_thread t of Joinable _ \<Rightarrow> t\<lparr>tt_stop := True, tt_joining := True\<rparr> | _ \<Rightarrow> t)"

definition scanner_join :: "ttl_table \<Rightarrow> ttl_table" where
  "scanner_join t = t\<lparr>tt_thread := Joined, tt_joining := False\<rparr>"

text \<open>The thread's loop: test the flag, scan (20 buckets, clock readings up to \<open>now\<close>), sleep.\<close>

inductive scanner_step :: "u64 \<Rightarrow> fs \<times> ttl_table \<Rightarrow> fs \<times> ttl_table \<Rightarrow> bool" for now where
  scanner_check: "tt_thread t = Joinable P_Check \<Longrightarrow>
    scanner_step now (f, t) (f, t\<lparr>tt_thread := Joinable (if tt_stop t then P_Exit else P_Scan)\<rparr>)"
| scanner_scan: "tt_thread t = Joinable P_Scan \<Longrightarrow> length samples = 20 \<Longrightarrow>
    set samples \<subseteq> {..<length (ht_buckets (tt_table t))} \<Longrightarrow> (\<forall>i. clock i \<le> now) \<Longrightarrow>
    scan_expired_keys clock samples f (tt_table t) = (f', h) \<Longrightarrow>
    scanner_step now (f, t) (f', t\<lparr>tt_table := h, tt_thread := Joinable P_Sleep\<rparr>)"
| scanner_wake: "tt_thread t = Joinable P_Sleep \<Longrightarrow>
    scanner_step now (f, t) (f, t\<lparr>tt_thread := Joinable P_Check\<rparr>)"

text \<open>The owner of the table works on it, starts and stops the scanner; while it waits in \<open>join\<close> it
  does nothing else.\<close>

inductive tt_step :: "fs \<times> ttl_table \<Rightarrow> fs \<times> ttl_table \<Rightarrow> bool" where
  tt_scanner: "scanner_step now s s' \<Longrightarrow> tt_step s s'"
| tt_op: "\<not> tt_joining t \<Longrightarrow> ht_step (f, tt_table t) (f', h) \<Longrightarrow> tt_step (f, t) (f', t\<lparr>tt_table := h\<rparr>)"
| tt_start: "\<not> tt_joining t \<Longrightarrow> start_ttl_scanner ms t = Inr t' \<Longrightarrow> tt_step (f, t) (f, t')"
| tt_stop: "\<not> tt_joining t \<Longrightarrow> tt_step (f, t) (f, stop_ttl_scanner t)"
| tt_join: "tt_joining t \<Longrightarrow> tt_thread t = Joinable P_Exit \<Longrightarrow> tt_step (f, t) (f, scanner_join t)"

inductive tt_reach :: "fs \<Rightarrow> hash_table \<Rightarrow> fs \<times> ttl_table \<Rightarrow> bool" for f0 t0 where
  reach_init: "tt_reach f0 t0 (f0, tt_new t0)"
| reach_step: "tt_reach f0 t0 s \<Longrightarrow> tt_step s s' \<Longrightarrow> tt_reach f0 t0 s'"

section \<open>Invariant\<close>

definition tt_inv :: "ttl_table \<Rightarrow> bool" where
  "tt_inv t \<longleftrightarrow> ht_inv (tt_table t) \<and> ht_load_ok (tt_table t) \<and>
     (tt_joining t \<longrightarrow> tt_stop t \<and> (\<exists>p. tt_thread t = Joinable p)) \<and>
     (tt_thread t = Joinable P_Exit \<longrightarrow> tt_stop t)"

lemma scan_step:
  assumes "set samples \<subseteq> {..<length (ht_buckets t)}" "scan_expired_keys clock samples f t = (f', t')"
    and "ht_inv t" "ht_load_ok t"
  shows "ht_inv t' \<and> ht_load_ok t'"
  using ht_step_inv [OF ht_step_scan [OF assms(1,2)] assms(3,4)] by simp

lemma tt_inv_step:
  assumes "tt_step (f, t) (f', t')" "tt_inv t"
  shows "tt_inv t'"
  using assms(1)
proof (cases rule: tt_step.cases)
  case (tt_scanner now)
  then show ?thesis
  proof (cases rule: scanner_step.cases)
    case (scanner_scan samples clock h)
    with scan_step [OF scanner_scan(4,6)] assms(2) show ?thesis by (simp add: tt_inv_def)
  qed (use assms(2) in \<open>auto simp: tt_inv_def\<close>)
next
  case (tt_op h)
  with ht_step_inv [OF tt_op(3)] assms(2) show ?thesis by (simp add: tt_inv_def)
next
  case (tt_start ms)
  with assms(2) show ?thesis by (auto simp: tt_inv_def start_ttl_scanner_def Let_def split: thread_ptr.splits)
next
  case tt_stop
  with assms(2) show ?thesis by (auto simp: tt_inv_def stop_ttl_scanner_def split: thread_ptr.splits)
next
  case tt_join
  with assms(2) show ?thesis by (simp add: tt_inv_def scanner_join_def)
qed

lemma tt_reach_inv: "tt_reach f0 t0 s \<Longrightarrow> ht_inv t0 \<Longrightarrow> ht_load_ok t0 \<Longrightarrow> tt_inv (snd s)"
proof (induction rule: tt_reach.induct)
  case reach_init
  then show ?case by (simp add: tt_inv_def tt_new_def)
next
  case (reach_step s s')
  then show ?case using tt_inv_step [of "fst s" "snd s" "fst s'" "snd s'"] by simp
qed

section \<open>Stopping\<close>

text \<open>The steps left until \<open>join\<close> returns.\<close>

fun join_distance :: "thread_ptr \<Rightarrow> nat" where
  "join_distance (Joinable P_Scan) = 4"
| "join_distance (Joinable P_Sleep) = 3"
| "join_distance (Joinable P_Check) = 2"
| "join_distance (Joinable P_Exit) = 1"
| "join_distance _ = 0"

lemma joining_step:
  assumes "tt_step (f, t) (f', t')" "tt_inv t" "tt_joining t"
  shows "tt_thread t' = Joined \<and> \<not> tt_joining t' \<or>
    tt_joining t' \<and> join_distance (tt_thread t') < join_distance (tt_thread t)"
  using assms(1)
proof (cases rule: tt_step.cases)
  case (tt_scanner now)
  then show ?thesis using assms(2,3) by (cases rule: scanner_step.cases) (auto simp: tt_inv_def)
qed (use assms(3) in \<open>simp_all add: scanner_join_def\<close>)

lemma joining_progress:
  assumes "tt_inv t" "tt_joining t"
  shows "\<exists>s'. tt_step (f, t) s'"
proof -
  obtain p where p: "tt_thread t = Joinable p" using assms by (auto simp: tt_inv_def)
  show ?thesis
  proof (cases p)
    case P_Scan
    have "ht_buckets (tt_table t) \<noteq> []" using assms(1) by (simp add: tt_inv_def ht_inv_def ht_wf_def buckets_wf_def)
    then have "set (replicate 20 0) \<subseteq> {..<length (ht_buckets (tt_table t))}" by auto
    moreover obtain f' h where "scan_expired_keys (\<lambda>_. 0) (replicate 20 0) f (tt_table t) = (f', h)" by force
    ultimately have "scanner_step 0 (f, t) (f', t\<lparr>tt_table := h, tt_thread := Joinable P_Sleep\<rparr>)"
      using p P_Scan by (intro scanner_scan) simp_all
    then show ?thesis by (blast intro: tt_scanner)
  qed (use p assms(2) in \<open>blast intro: tt_scanner scanner_check scanner_wake tt_join\<close>)+
qed

text \<open>C26. Stopping the scanner always returns: from every reachable state in which a caller of
  \<open>stop_ttl_scanner\<close> (or the destructor) waits in \<open>join\<close>, whatever the scanner is doing, every
  continuation reaches a state where the thread has been joined.\<close>

theorem stop_scanner_returns:
  assumes "ht_inv t0" "ht_load_ok t0" "tt_reach f0 t0 (f, t)" "tt_joining t"
  shows "inevitable tt_step (\<lambda>(f, t). tt_thread t = Joined \<and> \<not> tt_joining t) (f, t)"
proof (rule inevitable_measure [where I = "\<lambda>(f, t). tt_inv t \<and> tt_joining t" and
      m = "\<lambda>(f, t). join_distance (tt_thread t)"])
  show "case (f, t) of (f, t) \<Rightarrow> tt_inv t \<and> tt_joining t"
    using tt_reach_inv [OF assms(3,1,2)] assms(4) by simp
next
  fix s :: "fs \<times> ttl_table" assume "case s of (f, t) \<Rightarrow> tt_inv t \<and> tt_joining t"
  then show "\<exists>s'. tt_step s s'" using joining_progress by (cases s) blast
next
  fix s s' :: "fs \<times> ttl_table"
  assume h: "case s of (f, t) \<Rightarrow> tt_inv t \<and> tt_joining t" "tt_step s s'"
  obtain f1 t1 f2 t2 where e: "s = (f1, t1)" "s' = (f2, t2)" by (metis prod.exhaust)
  from h show "(case s' of (f, t) \<Rightarrow> tt_thread t = Joined \<and> \<not> tt_joining t) \<or>
      (case s' of (f, t) \<Rightarrow> tt_inv t \<and> tt_joining t) \<and>
      (case s' of (f, t) \<Rightarrow> join_distance (tt_thread t)) < (case s of (f, t) \<Rightarrow> join_distance (tt_thread t))"
    using joining_step [of f1 t1 f2 t2] tt_inv_step [of f1 t1 f2 t2] by (simp add: e)
qed

lemma sample_table_load: "ht_load_ok sample_table"
proof -
  obtain e f t where n: "ht_new wal_demo_fs 3 4 LRU [] = (e, f, t)" by (metis prod.collapse)
  note i = ht_new_inv [OF n]
  note a = ht_store_inv [OF i(1), of "''a''" "value_entry_new ''one'' 0"]
  have len: "length (ht_buckets sample_table) = length (ht_buckets t)"
    using ht_store_miss(4) [OF i(1), of "''a''" "value_entry_new ''one'' 0"]
      ht_store_miss(4) [OF a(1), of "''b''" "value_entry_new ''two'' 9"] a(2) i(2)
    by (simp add: sample_table_def n)
  have "3 \<le> length (ht_buckets t)" using ht_new_state(1) [OF n] ht_capacity_bounds [of 0 3] by simp
  moreover have "ht_num_entries sample_table = 2"
    using ht_size [OF sample_table_inv] by (simp add: sample_table_map)
  ultimately show ?thesis by (simp add: ht_load_ok_def len)
qed

definition demo_stopping :: ttl_table where
  "demo_stopping = \<lparr>tt_table = sample_table, tt_thread = Joinable P_Check, tt_stop = True, tt_interval = 50,
     tt_joining = True\<rparr>"

lemma demo_stopping_reach: "tt_reach wal_demo_fs sample_table (wal_demo_fs, demo_stopping)"
proof -
  let ?t = "tt_new sample_table"
  obtain t1 where t1: "start_ttl_scanner 50 ?t = Inr t1"
      "t1 = \<lparr>tt_table = sample_table, tt_thread = Joinable P_Check, tt_stop = False, tt_interval = 50, tt_joining = False\<rparr>"
    by (simp add: start_ttl_scanner_def tt_new_def)
  have "tt_step (wal_demo_fs, ?t) (wal_demo_fs, t1)" by (rule tt_start [OF _ t1(1)]) (simp add: tt_new_def)
  moreover have "tt_step (wal_demo_fs, t1) (wal_demo_fs, stop_ttl_scanner t1)"
    by (rule tt_stop) (simp add: t1(2))
  moreover have "stop_ttl_scanner t1 = demo_stopping"
    by (simp add: stop_ttl_scanner_def t1(2) demo_stopping_def)
  ultimately show ?thesis using reach_step [OF reach_step [OF reach_init]] by metis
qed

theorem stop_scanner_returns_witness:
  "inevitable tt_step (\<lambda>(f, t). tt_thread t = Joined \<and> \<not> tt_joining t) (wal_demo_fs, demo_stopping)"
  by (rule stop_scanner_returns [OF sample_table_inv sample_table_load demo_stopping_reach])
    (simp add: demo_stopping_def)

text \<open>Starting the scanner while it runs kills the process: whenever the table already has a scanner
  that was not stopped, \<open>start_ttl_scanner\<close> ends in \<open>std::terminate\<close>, and otherwise the new
  thread is at the head of its loop with the flag cleared.\<close>

theorem start_scanner_twice_terminates:
  "start_ttl_scanner ms t =
     (if \<exists>p. tt_thread t = Joinable p then Inl Std_terminate
      else Inr (t\<lparr>tt_interval := ms, tt_stop := False, tt_thread := Joinable P_Check\<rparr>))"
  by (cases "tt_thread t") (simp_all add: start_ttl_scanner_def)

section \<open>What clients see\<close>

lemma scan_visible:
  assumes "ht_inv t" "set samples \<subseteq> {..<length (ht_buckets t)}" "\<forall>i. clock i \<le> now"
    and "scan_expired_keys clock samples f t = (f', t')"
  shows "ht_inv t' \<and> visible now (ht_map t' k) = visible now (ht_map t k)"
proof -
  let ?ks = "scan_expired clock t samples"
  have *: "ht_inv t'" "ht_map t' = ht_map t |` (- set ?ks)"
    using ht_remove_all_effect [OF assms(1), of f ?ks] assms(4) by (auto simp: scan_expired_keys_def)
  have "visible now (ht_map t k) = None" if ks: "k \<in> set ?ks"
  proof -
    from ks obtain v i where "ht_map t k = Some v" "is_expired (clock i) v"
      by (rule scan_expired_sound [OF _ assms(1,2)])
    moreover have "clock i \<le> now" using assms(3) by blast
    ultimately show ?thesis by (auto simp: visible_def is_expired_def)
  qed
  with * show ?thesis by (auto simp: restrict_map_def visible_def)
qed

text \<open>C25. The scanner is invisible to readers: however many rounds it makes, and whatever buckets it draws,
  as long as its clock readings are not after \<open>now\<close> a reader at \<open>now\<close> finds for every key exactly
  what it would have found without the scanner.\<close>

theorem scanner_invisible:
  assumes "(scanner_step now)\<^sup>*\<^sup>* (f, t) (f', t')" "ht_inv (tt_table t)"
  shows "ht_inv (tt_table t') \<and> visible now (ht_map (tt_table t') k) = visible now (ht_map (tt_table t) k)"
  using assms
proof (induction "(f', t')" arbitrary: f' t' rule: rtranclp_induct)
  case (step s)
  obtain f1 t1 where s: "s = (f1, t1)" by force
  with step have i: "ht_inv (tt_table t1)" "visible now (ht_map (tt_table t1) k) = visible now (ht_map (tt_table t) k)"
    by simp_all
  from step.hyps(2) [unfolded s] show ?case
  proof (cases rule: scanner_step.cases)
    case (scanner_scan samples clock h)
    with scan_visible [OF i(1) scanner_scan(4,5,6)] i(2) show ?thesis by simp
  qed (use i in simp_all)
qed simp

theorem scanner_invisible_witness:
  "\<exists>f' t'. scanner_step 20 (wal_demo_fs, (tt_new sample_table)\<lparr>tt_thread := Joinable P_Scan\<rparr>) (f', t') \<and>
     visible 20 (ht_map (tt_table t') ''a'') = Some (value_entry_new ''one'' 0)"
proof -
  let ?t = "(tt_new sample_table)\<lparr>tt_thread := Joinable P_Scan\<rparr>"
  have ne: "ht_buckets sample_table \<noteq> []" using sample_table_inv by (simp add: ht_inv_def ht_wf_def buckets_wf_def)
  obtain f' h where r: "scan_expired_keys (\<lambda>_. 20) (replicate 20 0) wal_demo_fs sample_table = (f', h)" by force
  let ?t' = "?t\<lparr>tt_table := h, tt_thread := Joinable P_Sleep\<rparr>"
  have st: "scanner_step 20 (wal_demo_fs, ?t) (f', ?t')"
    by (rule scanner_scan [where samples = "replicate 20 0" and clock = "\<lambda>_. 20"]) (use ne r in \<open>auto simp: tt_new_def\<close>)
  have "visible 20 (ht_map (tt_table ?t') ''a'') = visible 20 (ht_map (tt_table ?t) ''a'')"
    by (rule conjunct2 [OF scanner_invisible [OF r_into_rtranclp [of "scanner_step 20", OF st]]]) (simp add: tt_new_def sample_table_inv)
  then have "visible 20 (ht_map (tt_table ?t') ''a'') = Some (value_entry_new ''one'' 0)"
    by (simp add: tt_new_def sample_table_map visible_def is_expired_def value_entry_new_def)
  with st show ?thesis by (intro exI conjI)
qed

end
