(* ===== verification/Spec2Isabelle.thy ===== *)
theory Spec2Isabelle
  imports Durability Engine_API Sharded_Progress Epoll_Properties TTL_Scanner
begin

text \<open>
  A verification of the C++ storage engine of the distributed in-memory key-value store
  (\<open>src/engine\<close>).

  \<^bold>\<open>The program.\<close> \<open>HashTable\<close> stores entries in chained buckets, tells an eviction policy
  (\<open>LRUPolicy\<close> or \<open>LFUPolicy\<close>) about every use of a key and evicts its candidates while the policy's
  memory counter exceeds a limit. Each change is appended to a write-ahead log (\<open>WALWriter\<close>), which
  \<open>replay_wal\<close> reads back (\<open>WALReader\<close>); \<open>SnapshotWriter\<close> and \<open>SnapshotReader\<close> save and restore the whole
  table, protected by \<open>CRC64\<close>. A scanner thread removes expired entries. On top of the table stand
  the C functions of \<open>engine.cpp\<close>, the lock-based \<open>MutexEngine\<close> and \<open>ShardedEngineSync\<close>, and
  \<open>ShardedEngine\<close> with one worker thread and queue per shard. \<open>EpollServer\<close> accepts connections,
  feeds their bytes to a \<open>RESPParser\<close> and sends replies.

  \<^bold>\<open>The theories.\<close>

  \<^item> \<open>KV_Prelude\<close>: words, little-endian bytes, the file system record, input streams, the locale
    \<open>record_codec\<close> of self-delimiting encodings, inevitability of a state under every scheduling,
    shared list and map lemmas.
  \<^item> \<open>Eviction_Policy\<close>: the locale \<open>eviction_policy\<close>, the contract between the table and its policy.
    \<open>LRU_Policy\<close> (\<open>lru_policy.h\<close>, \<open>lru_policy.cpp\<close>) and \<open>LFU_Policy\<close> (\<open>lfu_policy.h\<close>,
    \<open>lfu_policy.cpp\<close>) model the two classes, the former with list nodes and their addresses, the
    latter with its lazily cleaned heap (locale \<open>min_queue\<close>), and interpret the locale.
  \<^item> \<open>Wal_Log\<close> (\<open>wal.h\<close>, \<open>wal.cpp\<close>): record format, batching writer, reader.
  \<^item> \<open>KV_Buckets\<close>, \<open>Hash_Table\<close> (\<open>hash_table.h\<close>, \<open>hash_table.cpp\<close>): hash, chains and rehashing, then
    the table with all its operations. \<open>Hash_Table_Correct\<close> has the invariant \<open>ht_inv\<close>, the
    abstraction \<open>ht_map\<close> and the effect of every operation; \<open>Table_Properties\<close> the table as a state
    machine.
  \<^item> \<open>Recovery\<close> (\<open>replay_wal\<close>), \<open>CRC64\<close> and \<open>Snapshot\<close> (\<open>snapshot.h\<close>, \<open>snapshot.cpp\<close>,
    \<open>create_snapshot\<close>, \<open>load_snapshot\<close>), \<open>Durability\<close> (checkpoint, truncation and log together).
  \<^item> \<open>TTL_Scanner\<close> (\<open>start_ttl_scanner\<close>, \<open>stop_ttl_scanner\<close>, destructor): the scanner thread.
  \<^item> \<open>KV_Store\<close> (\<open>sharded_engine_sync.h\<close>, \<open>mutex_engine.h\<close>): the locales \<open>kv_store\<close>, \<open>sharded_store\<close>,
    \<open>kv_store_room\<close> and \<open>sharded_room\<close>, interpreted for the table and both engines.
  \<^item> \<open>Engine_API\<close> (\<open>engine.h\<close>, \<open>engine.cpp\<close>): the C functions.
  \<^item> \<open>Sharded_Engine\<close> (\<open>sharded_engine.h\<close>, \<open>sharded_engine.cpp\<close>): clients, queues, workers,
    condition variables and \<open>stop\<close> as the labelled step relation \<open>se_step\<close>; \<open>Sharded_Progress\<close> has
    its progress measure.
  \<^item> \<open>RESP\<close> (\<open>resp.h\<close>, \<open>resp.cpp\<close>): values, serialisation, incremental parser, commands, formatter.
  \<^item> \<open>Epoll_Server\<close> (\<open>network_server.h\<close>, \<open>epoll_server.h\<close>, \<open>epoll_server.cpp\<close>): the server against a
    record of the kernel state; \<open>Epoll_Properties\<close> has its invariant and theorems.

  \<^bold>\<open>Correspondence.\<close> Classes are records, enums are datatypes, a method is a function that returns
  the changed object with its result. Strings are lists of bytes. Integers whose arithmetic can
  wrap are words of their width; sizes of things in memory are natural numbers. The file system is
  a record threaded through the operations. Readings of the clock, random samples, results of system
  calls, descriptor allocation, the room on the device for a snapshot, the command handler and
  whether a vector can be reserved are parameters. Exceptions are the left side of a sum, and \<open>None\<close> from a \<open>partial_function\<close> is a call
  that does not return. Loops over answers of the kernel consume a list of answers; when it is used
  up the call has not returned, so that no bound is built in. There is no fuel anywhere else.

  \<^bold>\<open>What is shown.\<close>

  \<^item> Table: insert, get and remove refine a map with eviction, terminate, and keep the invariant and
    the load factor in every reachable state; memory stays within the limit plus one value; the LRU
    candidate is least recently used, the LFU candidate least frequently among non-empty keys; scans remove exactly expired
    entries, the scanner thread is invisible to readers, and stopping it returns.
  \<^item> Persistence: the log reads back what was appended, a crash loses only a suffix; replay, and
    snapshot plus replay, restore the table if the restarted one has room for all values ever written
    and no insert evicted its own key; writing a snapshot reports failure if it does not fit; the CRC
    detects bursts of up to seven bytes and agrees with its bit-serial definition; a snapshot with such
    a burst is rejected unless the reader stopped on a proper prefix with the same checksum.
  \<^item> Engines: the lock-based ones refine one map and agree with each other; in the queue-based one no
    request is lost or reordered, reads are never stale and every request is answered under every
    scheduling; sessions of the C functions, error codes included, answer as a map does.
  \<^item> Network: the parser terminates and throws only for a length it was sent, scalars survive
    serialisation and splitting into reads (negative bulk lengths apart); the
    server neither leaks nor doubly closes descriptors, loses no output bytes, keeps pending output
    registered, and ends on \<open>stop\<close>.
  \<^item> Defects, as theorems about the same definitions: the empty key stops eviction, an insert that
    evicts itself is lost on replay, replaying the live log does not end, a non-empty array is never
    parsed so that the server answers errors only, \<open>stop\<close> of the sharded engine can hang, the
    accept loop spins on persistent errors, and end of stream drops pending replies.

  \<^bold>\<open>Not modelled.\<close> Operations that overlap without a lock (the scanner thread against its table,
  \<open>stop\<close> of the server in the middle of a pass, the pointer \<open>MutexEngine::get\<close> returns) are data races
  without a defined meaning; interleavings are of whole operations there, and of the source's own
  atomic steps in the sharded engine. \<open>fsync\<close> has no effect on file contents; a crash keeps an
  arbitrary prefix of the log, and appends to it do not fail, as \<open>wal.cpp\<close> never checks them. The
  parser's recursion is taken to fit the stack, and its signed sum \<open>bulk_len_ + 2\<close>, which overflows for
  the two largest lengths only, wraps around. Memory exhaustion is modelled only for the parser's \<open>reserve\<close>.
  \<open>engine_c.cpp\<close> has no code, the benchmarks only measure. The Go layer (\<open>src/node\<close>: Raft, cluster
  sharding, node servers) is a program of its own that uses the C functions.
\<close>

end
